(* ===== verification/Prelude.thy ===== *)
theory Prelude
  imports Main "HOL-Library.Word"
begin

text \<open>
  Shared notions of the eslang development: the result type of an operation that threads the
  state of the context, may throw a C++ exception or may run into undefined behaviour; its
  sequencing operator with a small calculus of postconditions; and generic facts on lists that
  the process table and the slot store use.
\<close>

section \<open>Machine integers\<close>

type_synonym uint64 = "64 word"

text \<open>
  The largest number of elements of a \<open>std::vector\<close> of eight-byte pointers: a vector that would
  grow beyond it throws \<open>std::length_error\<close>.
\<close>

definition vector_max_size :: nat where
  "vector_max_size = 2 ^ 60 - 1"

lemma vector_max_size_less: "n \<le> vector_max_size \<Longrightarrow> n < 2 ^ 64"
  by (simp add: vector_max_size_def)

section \<open>Results of stateful operations\<close>

text \<open>
  Undefined behaviour that the sources can run into: dereferencing a null pointer, reading an
  empty \<open>std::optional\<close>, using a slot, a promise or a process object after its destruction; and the
  end of the whole program by \<open>std::terminate\<close>, after an exception that leaves a destructor.
\<close>

datatype ub = NullDeref | EmptyOptional | DanglingSlot | DanglingPromise | UseAfterFree | Terminated

text \<open>
  \<open>Ret a s\<close> is a normal return, \<open>Throw e s\<close> an exception whose \<open>what()\<close> is \<open>e\<close> (the changes
  made before the throw stay in \<open>s\<close>), \<open>Undef u\<close> undefined behaviour, and \<open>NoFuel\<close> a coroutine
  that did not reach a suspension point within the fuel given.
\<close>

datatype ('a, 's) res = Ret 'a 's | Throw string 's | Undef ub | NoFuel

primrec res_bind :: "('a, 's) res \<Rightarrow> ('a \<Rightarrow> 's \<Rightarrow> ('b, 's) res) \<Rightarrow> ('b, 's) res" where
  "res_bind (Ret a s) f = f a s"
| "res_bind (Throw e s) f = Throw e s"
| "res_bind (Undef u) f = Undef u"
| "res_bind NoFuel f = NoFuel"

text \<open>
  Leaving a scope: the destructors \<open>f\<close> of its locals run on a normal return and on an exception.
\<close>

primrec res_finally :: "('a, 's) res \<Rightarrow> ('s \<Rightarrow> (unit, 's) res) \<Rightarrow> ('a, 's) res" where
  "res_finally (Ret a s) f = res_bind (f s) (\<lambda>_ s. Ret a s)"
| "res_finally (Throw e s) f = res_bind (f s) (\<lambda>_ s. Throw e s)"
| "res_finally (Undef u) f = Undef u"
| "res_finally NoFuel f = NoFuel"

text \<open>
  \<open>res_post Q E r\<close>: a normal return satisfies \<open>Q\<close> and a throw satisfies \<open>E\<close>. \<open>keeps I r\<close> is
  the special case of a state invariant.
\<close>

primrec res_post :: "('a \<Rightarrow> 's \<Rightarrow> bool) \<Rightarrow> ('s \<Rightarrow> bool) \<Rightarrow> ('a, 's) res \<Rightarrow> bool" where
  "res_post Q E (Ret a s) = Q a s"
| "res_post Q E (Throw e s) = E s"
| "res_post Q E (Undef u) = True"
| "res_post Q E NoFuel = True"

abbreviation keeps :: "('s \<Rightarrow> bool) \<Rightarrow> ('a, 's) res \<Rightarrow> bool" where
  "keeps I \<equiv> res_post (\<lambda>_. I) I"

named_theorems post_intros

lemma res_post_bind [post_intros]:
  "res_post Q E r \<Longrightarrow> (\<And>a s. Q a s \<Longrightarrow> res_post Q' E (f a s)) \<Longrightarrow> res_post Q' E (res_bind r f)"
  by (cases r) auto

lemma res_post_mono:
  "res_post Q E r \<Longrightarrow> (\<And>a s. Q a s \<Longrightarrow> Q' a s) \<Longrightarrow> (\<And>s. E s \<Longrightarrow> E' s) \<Longrightarrow> res_post Q' E' r"
  by (cases r) auto

lemma res_post_conj:
  "res_post Q E r \<Longrightarrow> res_post Q' E' r \<Longrightarrow>
   res_post (\<lambda>a s. Q a s \<and> Q' a s) (\<lambda>s. E s \<and> E' s) r"
  by (cases r) auto

lemma res_post_RetD: "res_post Q E r \<Longrightarrow> r = Ret a s \<Longrightarrow> Q a s"
  by simp

lemma res_post_ThrowD: "res_post Q E r \<Longrightarrow> r = Throw e s \<Longrightarrow> E s"
  by simp

lemma res_bind_assoc:
  "res_bind (res_bind r f) g = res_bind r (\<lambda>a s. res_bind (f a s) g)"
  by (cases r) auto

lemma res_bind_Ret_conv:
  "res_bind r f = Ret b s' \<longleftrightarrow> (\<exists>a s. r = Ret a s \<and> f a s = Ret b s')"
  by (cases r) auto

section \<open>Lists\<close>

text \<open>Counting the positions of a list that satisfy a predicate by a list of indices.\<close>

lemma card_indices_le: "card {i. i < n \<and> P i} \<le> n"
proof -
  have "card {i. i < n \<and> P i} \<le> card {..<n}" by (rule card_mono) auto
  then show ?thesis by simp
qed

lemma card_indices_all: "card {i. i < n \<and> P i} = n \<longleftrightarrow> (\<forall>i<n. P i)"
proof
  assume c: "card {i. i < n \<and> P i} = n"
  have "{i. i < n \<and> P i} = {..<n}"
    by (rule card_subset_eq) (auto simp: c)
  then show "\<forall>i<n. P i" by auto
next
  assume "\<forall>i<n. P i"
  then have "{i. i < n \<and> P i} = {..<n}" by auto
  then show "card {i. i < n \<and> P i} = n" by simp
qed

lemma length_eq_card_indices:
  assumes "distinct is" and "set is = {i. i < n \<and> P i}"
  shows "length is = n \<longleftrightarrow> (\<forall>i<n. P i)"
  using assms card_indices_all [of n P] distinct_card [OF assms(1)] by simp

lemma nth_append_last: "i < length (xs @ [x]) \<Longrightarrow> i \<noteq> length xs \<Longrightarrow> (xs @ [x]) ! i = xs ! i"
  by (simp add: nth_append)

end
