(* ===== verification/BaseTypes.thy ===== *)
theory BaseTypes
  imports Prelude
begin

text \<open>
  Process identifiers and addresses (\<open>eslang/BaseTypes.h\<close>, \<open>BaseTypes.cpp\<close>) and the string
  concatenation used for log and error texts (\<open>ConcatString.h\<close>).
\<close>

section \<open>Decimal output and concatString\<close>

text \<open>
  What \<open>operator<<\<close> writes for an unsigned integer: its decimal digits, most significant first.
\<close>

definition digit_char :: "nat \<Rightarrow> char" where
  "digit_char d = char_of (48 + d)"

fun show_nat :: "nat \<Rightarrow> string" where
  "show_nat n = (if n < 10 then [digit_char n] else show_nat (n div 10) @ [digit_char (n mod 10)])"

declare show_nat.simps [simp del]

text \<open>
  An argument of \<open>concatString\<close>: a string or an unsigned integer. \<open>doAppendStrings\<close> appends the
  arguments to the stream from left to right; \<open>concatString\<close> starts from an empty stream.
\<close>

datatype printable = PStr string | PNat nat

primrec put_printable :: "string \<Rightarrow> printable \<Rightarrow> string" where
  "put_printable ss (PStr s) = ss @ s"
| "put_printable ss (PNat n) = ss @ show_nat n"

primrec doAppendStrings :: "string \<Rightarrow> printable list \<Rightarrow> string" where
  "doAppendStrings ss [] = ss"
| "doAppendStrings ss (t # args) = doAppendStrings (put_printable ss t) args"

definition concatString :: "printable list \<Rightarrow> string" where
  "concatString args = doAppendStrings '''' args"

section \<open>Pid and SendAddress\<close>

record Pid =
  idx :: uint64
  version :: uint64

definition Pid_eq :: "Pid \<Rightarrow> Pid \<Rightarrow> bool" where
  "Pid_eq l r \<longleftrightarrow> idx l = idx r \<and> version l = version r"

definition toString :: "Pid \<Rightarrow> string" where
  "toString p = concatString [PNat (unat (idx p)), PNat (unat (version p))]"

text \<open>\<open>std::hash<s::Pid>\<close>, over the library's hash \<open>h\<close> of a 64-bit integer.\<close>

definition hash_Pid :: "(uint64 \<Rightarrow> uint64) \<Rightarrow> Pid \<Rightarrow> uint64" where
  "hash_Pid h p = h (idx p)"

text \<open>
  A \<open>SlotId\<close> is the address of the slot object; the addresses of the model are natural numbers
  that are never reused, so a stale address is recognisable.
\<close>

type_synonym SlotId = nat

record SendAddress =
  sa_pid :: Pid
  sa_slot :: SlotId

text \<open>
  Message payloads. The library itself sends one type of message, the \<open>Pid\<close> of a dead process;
  the payloads of the processes are a type parameter.
\<close>

datatype 'm Message = MPid Pid | MVal 'm

section \<open>Facts\<close>

lemma Pid_eq_iff: "Pid_eq l r \<longleftrightarrow> l = r"
  by (cases l, cases r) (simp add: Pid_eq_def)

lemma Pid_eqI: "unat (idx p) = unat (idx q) \<Longrightarrow> version p = version q \<Longrightarrow> p = (q :: Pid)"
  by (rule Pid.equality) (simp_all add: word_unat_eq_iff)

lemma digit_char_inj: "d < 10 \<Longrightarrow> e < 10 \<Longrightarrow> digit_char d = digit_char e \<longleftrightarrow> d = e"
  by (simp add: digit_char_def char_of_eq_iff take_bit_eq_mod)

lemma show_nat_nonempty: "show_nat n \<noteq> []"
  by (subst show_nat.simps) simp

lemma show_nat_inj: "show_nat m = show_nat n \<Longrightarrow> m = n"
proof (induction m arbitrary: n rule: show_nat.induct)
  case (1 m)
  have last: "last (show_nat k) = digit_char (k mod 10)" for k
    by (subst show_nat.simps) simp
  have butlast: "butlast (show_nat k) = (if k < 10 then [] else show_nat (k div 10))" for k
    by (subst show_nat.simps) simp
  from "1.prems" have "digit_char (m mod 10) = digit_char (n mod 10)"
    using last by metis
  then have md: "m mod 10 = n mod 10" by (simp add: digit_char_inj)
  from "1.prems" have bl: "(if m < 10 then [] else show_nat (m div 10)) =
      (if n < 10 then [] else show_nat (n div 10))"
    using butlast by metis
  have "m div 10 = n div 10"
  proof (cases "m < 10")
    case True
    with bl have "n < 10" using show_nat_nonempty by (metis (full_types))
    with True show ?thesis by simp
  next
    case False
    with bl have "\<not> n < 10" using show_nat_nonempty by (metis (full_types))
    with False bl have "show_nat (m div 10) = show_nat (n div 10)" by simp
    with False "1.IH" show ?thesis by simp
  qed
  with md show ?case by (metis div_mult_mod_eq)
qed

lemma doAppendStrings_append: "doAppendStrings ss args = ss @ doAppendStrings [] args"
proof (induction args arbitrary: ss)
  case Nil
  show ?case by simp
next
  case (Cons t args)
  have "put_printable ss t = ss @ put_printable [] t" by (cases t) simp_all
  then have "doAppendStrings ss (t # args) = (ss @ put_printable [] t) @ doAppendStrings [] args"
    using Cons.IH [of "ss @ put_printable [] t"] by simp
  also have "\<dots> = ss @ doAppendStrings [] (t # args)"
    using Cons.IH [of "put_printable [] t"] by simp
  finally show ?case .
qed

lemma toString_eq: "toString p = show_nat (unat (idx p)) @ show_nat (unat (version p))"
  by (simp add: toString_def concatString_def)

end
