(* ===== verification/Future.thy ===== *)
theory Future
  imports BaseTypes "HOL-Library.Sublist"
begin

text \<open>
  \<open>eslang/Future.h\<close>: \<open>ExceptionWrapper\<close> and \<open>EslangPromise\<close>, the resettable flag with one
  continuation on which a process can be woken up. The \<open>boost::asio::io_service\<close> is not part
  of the repository; an operation that calls \<open>post\<close> returns the list of the handlers it posted,
  in order, and the caller hands them to the io service. The locale \<open>wake_signal\<close> states what
  the context relies on, and is interpreted on the promise.
\<close>

section \<open>ExceptionWrapper\<close>

text \<open>
  \<open>PtrImpl\<close> holds a possibly null \<open>std::exception_ptr\<close>, \<open>Impl\<close> an exception object; an
  exception is represented by its \<open>what()\<close> text.
\<close>

datatype ExceptionWrapper = PtrImpl "string option" | Impl string

definition makeFromCurrentException :: "string option \<Rightarrow> ExceptionWrapper" where
  "makeFromCurrentException current = PtrImpl current"

definition make_ExceptionWrapper :: "string \<Rightarrow> ExceptionWrapper" where
  "make_ExceptionWrapper ex = Impl ex"

text \<open>The exception thrown by \<open>maybeThrowException\<close>, if any.\<close>

primrec maybeThrowException :: "ExceptionWrapper \<Rightarrow> string option" where
  "maybeThrowException (PtrImpl ptr) = ptr"
| "maybeThrowException (Impl e) = Some e"

section \<open>EslangPromise\<close>

record 'h EslangPromise =
  exec :: "'h option"
  is_set :: bool
  exception :: "ExceptionWrapper option"

definition EslangPromise_init :: "'h EslangPromise" where
  "EslangPromise_init = \<lparr>exec = None, is_set = False, exception = None\<rparr>"

text \<open>
  The move constructor takes over the members of the source. Moving from an optional leaves it engaged: what the
  source has left is whether \<open>exec_\<close> and \<open>exception_\<close> are engaged, around a function and a wrapper that
  have been moved away, and the flag, which is copied.
\<close>

record moved_from =
  exec_engaged :: bool
  still_set :: bool
  exception_engaged :: bool

definition EslangPromise_move :: "'h EslangPromise \<Rightarrow> 'h EslangPromise \<times> moved_from" where
  "EslangPromise_move rhs =
     (\<lparr>exec = exec rhs, is_set = is_set rhs, exception = exception rhs\<rparr>,
      \<lparr>exec_engaged = (exec rhs \<noteq> None), still_set = is_set rhs, exception_engaged = (exception rhs \<noteq> None)\<rparr>)"

text \<open>The move assignment; its source is a temporary wherever it is used.\<close>

definition EslangPromise_assign :: "'h EslangPromise \<Rightarrow> 'h EslangPromise \<Rightarrow> 'h EslangPromise" where
  "EslangPromise_assign lhs rhs =
     lhs\<lparr>exec := exec rhs, is_set := is_set rhs, exception := exception rhs\<rparr>"

definition set_promise :: "'h EslangPromise \<Rightarrow> 'h EslangPromise \<times> 'h list" where
  "set_promise p =
     (let p = p\<lparr>is_set := True\<rparr> in
      case exec p of
        None \<Rightarrow> (p, [])
      | Some func \<Rightarrow> (p\<lparr>exec := None\<rparr>, [func]))"

definition setIfUnset :: "'h EslangPromise \<Rightarrow> 'h EslangPromise \<times> 'h list" where
  "setIfUnset p = (if \<not> is_set p then set_promise p else (p, []))"

text \<open>
  \<open>process\<close>: \<open>Inl e\<close> when the stored exception is thrown; the throw leaves the promise as it is,
  since the reset of \<open>exception_\<close> comes after it.
\<close>

definition process :: "'h EslangPromise \<Rightarrow> string + 'h EslangPromise" where
  "process p =
     (let clear = (\<lambda>p. (if is_set p then p\<lparr>exec := None\<rparr> else p)\<lparr>is_set := False\<rparr>) in
      case exception p of
        None \<Rightarrow> Inr (clear p)
      | Some ew \<Rightarrow>
          (case maybeThrowException ew of
             Some e \<Rightarrow> Inl e
           | None \<Rightarrow> Inr (clear (p\<lparr>exception := None\<rparr>))))"

definition setException :: "string \<Rightarrow> 'h EslangPromise \<Rightarrow> 'h EslangPromise \<times> 'h list" where
  "setException t p =
     setIfUnset (if exception p = None then p\<lparr>exception := Some (make_ExceptionWrapper t)\<rparr> else p)"

definition isReady :: "'h EslangPromise \<Rightarrow> bool" where
  "isReady p = is_set p"

definition setContinuation :: "'h \<Rightarrow> 'h EslangPromise \<Rightarrow> 'h EslangPromise \<times> 'h list" where
  "setContinuation func p =
     (let p = p\<lparr>exec := Some func\<rparr> in if is_set p then set_promise p else (p, []))"

section \<open>Runs of promise operations\<close>

datatype 'h promise_op = OpSet | OpSetException string | OpArm 'h | OpProcess

primrec promise_step :: "'h promise_op \<Rightarrow> 'h EslangPromise \<Rightarrow> 'h EslangPromise \<times> 'h list" where
  "promise_step OpSet p = setIfUnset p"
| "promise_step (OpSetException e) p = setException e p"
| "promise_step (OpArm h) p = setContinuation h p"
| "promise_step OpProcess p = (case process p of Inl _ \<Rightarrow> (p, []) | Inr p' \<Rightarrow> (p', []))"

primrec promise_run :: "'h promise_op list \<Rightarrow> 'h EslangPromise \<Rightarrow> 'h EslangPromise \<times> 'h list" where
  "promise_run [] p = (p, [])"
| "promise_run (x # xs) p =
     (let (p', hs) = promise_step x p; (p'', hs') = promise_run xs p' in (p'', hs @ hs'))"

primrec armed_by :: "'h promise_op \<Rightarrow> 'h list" where
  "armed_by OpSet = []"
| "armed_by (OpSetException _) = []"
| "armed_by (OpArm h) = [h]"
| "armed_by OpProcess = []"

primrec fires :: "'h promise_op \<Rightarrow> bool" where
  "fires OpSet = True"
| "fires (OpSetException _) = True"
| "fires (OpArm h) = False"
| "fires OpProcess = False"

definition promise_ok :: "'h EslangPromise \<Rightarrow> bool" where
  "promise_ok p \<longleftrightarrow> (is_set p \<longrightarrow> exec p = None)"

section \<open>The interface the context relies on\<close>

text \<open>
  A wake-up signal: \<open>step x s\<close> performs operation \<open>x\<close> and returns the handlers it posts;
  \<open>arms x\<close> is the continuation that \<open>x\<close> installs; \<open>fire x\<close> says that \<open>x\<close> sets the flag;
  \<open>pend\<close> is the installed continuation and \<open>on\<close> the flag.
\<close>

locale wake_signal =
  fixes step :: "'op \<Rightarrow> 's \<Rightarrow> 's \<times> 'h list"
    and arms :: "'op \<Rightarrow> 'h list"
    and fire :: "'op \<Rightarrow> bool"
    and pend :: "'s \<Rightarrow> 'h list"
    and on :: "'s \<Rightarrow> bool"
    and inv :: "'s \<Rightarrow> bool"
  assumes inv_step: "inv s \<Longrightarrow> step x s = (s', hs) \<Longrightarrow> inv s'"
    and inv_on: "inv s \<Longrightarrow> on s \<Longrightarrow> pend s = []"
    and step_arm: "inv s \<Longrightarrow> arms x = [h] \<Longrightarrow> step x s = (s', hs) \<Longrightarrow>
      (if on s then hs = [h] \<and> pend s' = [] else hs = [] \<and> pend s' = [h]) \<and> on s' = on s"
    and step_fire: "inv s \<Longrightarrow> fire x \<Longrightarrow> step x s = (s', hs) \<Longrightarrow>
      hs = pend s \<and> pend s' = [] \<and> on s'"
    and step_other: "inv s \<Longrightarrow> arms x = [] \<Longrightarrow> \<not> fire x \<Longrightarrow> step x s = (s', hs) \<Longrightarrow>
      hs = [] \<and> pend s' = pend s"
    and arms_or_fire: "arms x = [] \<or> (\<exists>h. arms x = [h]) \<and> \<not> fire x"
    and pend_le: "pend s = [] \<or> (\<exists>h. pend s = [h])"
begin

primrec run :: "'op list \<Rightarrow> 's \<Rightarrow> 's \<times> 'h list" where
  "run [] s = (s, [])"
| "run (x # xs) s = (let (s', hs) = step x s; (s'', hs') = run xs s' in (s'', hs @ hs'))"

text \<open>One step never invents a handler: what it posts and leaves installed was installed before.\<close>

lemma step_subseq:
  assumes "inv s" and "step x s = (s', hs)"
  shows "subseq (hs @ pend s') (pend s @ arms x)"
proof (cases "arms x = []")
  case True
  show ?thesis
  proof (cases "fire x")
    case True
    with step_fire [OF assms(1) True assms(2)] \<open>arms x = []\<close> show ?thesis by simp
  next
    case False
    with step_other [OF assms(1) True False assms(2)] True show ?thesis by simp
  qed
next
  case False
  then obtain h where h: "arms x = [h]" using arms_or_fire [of x] by auto
  have "hs @ pend s' = [h]"
    using step_arm [OF assms(1) h assms(2)] by (auto split: if_splits)
  then show ?thesis using h by (simp add: list_emb_append2)
qed

lemma run_subseq:
  assumes "inv s" and "run xs s = (s', hs)"
  shows "subseq (hs @ pend s') (pend s @ concat (map arms xs))"
  using assms
proof (induction xs arbitrary: s hs)
  case Nil
  then show ?case by simp
next
  case (Cons x xs)
  obtain s1 h1 where st: "step x s = (s1, h1)" by (cases "step x s")
  obtain h2 where r: "run xs s1 = (s', h2)" and hs: "hs = h1 @ h2"
    using Cons.prems(2) st by (auto split: prod.splits)
  have "inv s1" using inv_step [OF Cons.prems(1) st] .
  then have "subseq (h2 @ pend s') (pend s1 @ concat (map arms xs))"
    using Cons.IH r by simp
  then have "subseq (h1 @ h2 @ pend s') ((h1 @ pend s1) @ concat (map arms xs))"
    by (simp add: list_emb_append_mono)
  moreover have "subseq ((h1 @ pend s1) @ concat (map arms xs))
      ((pend s @ arms x) @ concat (map arms xs))"
    by (rule list_emb_append_mono [OF step_subseq [OF Cons.prems(1) st]]) simp
  ultimately show ?case using hs by (auto intro: subseq_order.order_trans)
qed

text \<open>
  Without a further installation, the installed continuation is posted exactly when the signal
  fires, and it is posted once.
\<close>

lemma run_posts:
  assumes "inv s" and "\<forall>x\<in>set xs. arms x = []" and "run xs s = (s', hs)"
  shows "hs = (if \<exists>x\<in>set xs. fire x then pend s else [])
    \<and> pend s' = (if \<exists>x\<in>set xs. fire x then [] else pend s)"
  using assms
proof (induction xs arbitrary: s hs)
  case Nil
  then show ?case by simp
next
  case (Cons x xs)
  obtain s1 h1 where st: "step x s = (s1, h1)" by (cases "step x s")
  obtain h2 where r: "run xs s1 = (s', h2)" and hs: "hs = h1 @ h2"
    using Cons.prems(3) st by (auto split: prod.splits)
  have "inv s1" using inv_step [OF Cons.prems(1) st] .
  then have IH: "h2 = (if \<exists>x\<in>set xs. fire x then pend s1 else [])
      \<and> pend s' = (if \<exists>x\<in>set xs. fire x then [] else pend s1)"
    using Cons.IH [OF _ _ r] Cons.prems(2) by simp
  show ?case
  proof (cases "fire x")
    case True
    with IH hs step_fire [OF Cons.prems(1) True st] show ?thesis by simp
  next
    case False
    with IH hs step_other [OF Cons.prems(1) _ False st] Cons.prems(2) show ?thesis by simp
  qed
qed

end

section \<open>The promise provides the interface\<close>

lemma promise_ok_init: "promise_ok EslangPromise_init"
  by (simp add: promise_ok_def EslangPromise_init_def)

lemma set_promise_simps:
  "is_set (fst (set_promise p))" "exec (fst (set_promise p)) = None"
  "snd (set_promise p) = (case exec p of None \<Rightarrow> [] | Some h \<Rightarrow> [h])"
  "exception (fst (set_promise p)) = exception p"
  by (simp_all add: set_promise_def Let_def split: option.split)

lemma setIfUnset_simps:
  "is_set (fst (setIfUnset p))"
  "promise_ok p \<Longrightarrow> exec (fst (setIfUnset p)) = None"
  "promise_ok p \<Longrightarrow> snd (setIfUnset p) = (case exec p of None \<Rightarrow> [] | Some h \<Rightarrow> [h])"
  "exception (fst (setIfUnset p)) = exception p"
  by (auto simp: setIfUnset_def set_promise_simps promise_ok_def)

lemma setException_simps:
  "is_set (fst (setException e p))"
  "promise_ok p \<Longrightarrow> exec (fst (setException e p)) = None"
  "promise_ok p \<Longrightarrow> snd (setException e p) = (case exec p of None \<Rightarrow> [] | Some h \<Rightarrow> [h])"
  by (auto simp: setException_def setIfUnset_simps promise_ok_def)

lemma setContinuation_simps:
  "is_set (fst (setContinuation h p)) = is_set p"
  "exec (fst (setContinuation h p)) = (if is_set p then None else Some h)"
  "snd (setContinuation h p) = (if is_set p then [h] else [])"
  by (simp_all add: setContinuation_def set_promise_def Let_def)

lemma process_simps:
  "process p = Inr p' \<Longrightarrow> \<not> is_set p'"
  "process p = Inr p' \<Longrightarrow> promise_ok p \<Longrightarrow> exec p' = exec p"
  by (auto simp: process_def promise_ok_def Let_def split: option.splits if_splits)

lemma promise_step_ok:
  assumes "promise_ok p" and "promise_step x p = (p', hs)"
  shows "promise_ok p'"
proof -
  have "promise_ok (fst (promise_step x p))"
    using assms(1)
    by (cases x) (simp_all add: promise_ok_def setIfUnset_simps setException_simps
        setContinuation_simps process_simps(1) split: sum.split)
  then show ?thesis using assms(2) by simp
qed

definition exec_list :: "'h EslangPromise \<Rightarrow> 'h list" where
  "exec_list p = (case exec p of None \<Rightarrow> [] | Some h \<Rightarrow> [h])"

interpretation promise: wake_signal promise_step armed_by fires exec_list is_set promise_ok
proof
  fix p p' :: "'h EslangPromise" and x hs h
  show "promise_ok p \<Longrightarrow> promise_step x p = (p', hs) \<Longrightarrow> promise_ok p'"
    by (rule promise_step_ok)
  show "promise_ok p \<Longrightarrow> is_set p \<Longrightarrow> exec_list p = []"
    by (simp add: promise_ok_def exec_list_def)
  show "promise_ok p \<Longrightarrow> armed_by x = [h] \<Longrightarrow> promise_step x p = (p', hs) \<Longrightarrow>
      (if is_set p then hs = [h] \<and> exec_list p' = [] else hs = [] \<and> exec_list p' = [h])
      \<and> is_set p' = is_set p"
    using setContinuation_simps [where h = h and p = p] by (cases x) (auto simp: exec_list_def)
  show "promise_ok p \<Longrightarrow> fires x \<Longrightarrow> promise_step x p = (p', hs) \<Longrightarrow>
      hs = exec_list p \<and> exec_list p' = [] \<and> is_set p'"
    using setIfUnset_simps(1-3) [of p] setException_simps [where p = p]
    by (cases x) (auto simp: exec_list_def prod_eq_iff)
  show "promise_ok p \<Longrightarrow> armed_by x = [] \<Longrightarrow> \<not> fires x \<Longrightarrow> promise_step x p = (p', hs) \<Longrightarrow>
      hs = [] \<and> exec_list p' = exec_list p"
    by (cases x) (auto simp: exec_list_def process_simps(2) split: sum.splits)
  show "armed_by x = [] \<or> (\<exists>h. armed_by x = [h]) \<and> \<not> fires x"
    by (cases x) auto
  show "exec_list p = [] \<or> (\<exists>h. exec_list p = [h])"
    by (simp add: exec_list_def split: option.split)
qed

lemma promise_run_eq: "promise.run xs p = promise_run xs p"
  by (induction xs arbitrary: p) (simp_all split: prod.split)

lemma snd_promise_run_Cons:
  "snd (promise_run (x # xs) p) = snd (promise_step x p) @ snd (promise_run xs (fst (promise_step x p)))"
  by (simp split: prod.split)

section \<open>Properties of the promise\<close>

text \<open>C34: Over any sequence of operations on a fresh promise, the continuations posted to the
  io service, followed by the one still installed, form a subsequence of the continuations that
  were installed: nothing is posted that was not installed, nothing is posted twice, and the order
  is kept.\<close>

theorem promise_posts_at_most_once:
  "subseq (snd (promise_run xs EslangPromise_init) @ exec_list (fst (promise_run xs EslangPromise_init)))
     (concat (map armed_by xs))"
  using promise.run_subseq [OF promise_ok_init, of xs "fst (promise_run xs EslangPromise_init)"
      "snd (promise_run xs EslangPromise_init)"]
  by (simp add: promise_run_eq EslangPromise_init_def exec_list_def)

text \<open>Without a second installation, a continuation installed on a well-formed promise is
  posted exactly once if the promise is already set or is set (with or without an exception) at
  any later point, and is not posted otherwise: the order of \<open>setContinuation\<close> and \<open>set\<close> does
  not matter and no wake-up is lost.\<close>

theorem promise_wakes_exactly_when_set:
  assumes "promise_ok p" and "\<forall>x\<in>set xs. armed_by x = []"
  shows "snd (promise_run (OpArm h # xs) p) = (if is_set p \<or> (\<exists>x\<in>set xs. fires x) then [h] else [])"
proof -
  let ?q = "fst (setContinuation h p)"
  have "promise_ok ?q"
    using promise_step_ok [OF assms(1), of "OpArm h" ?q "snd (setContinuation h p)"] by simp
  then have "snd (promise_run xs ?q) = (if \<exists>x\<in>set xs. fires x then exec_list ?q else [])"
    using promise.run_posts [OF _ assms(2), of ?q "fst (promise_run xs ?q)" "snd (promise_run xs ?q)"]
    by (simp add: promise_run_eq)
  then show ?thesis
    by (simp add: snd_promise_run_Cons exec_list_def setContinuation_simps del: promise_run.simps)
qed

theorem promise_wakes_exactly_when_set_witness:
  "promise_ok (EslangPromise_init :: nat EslangPromise)
   \<and> snd (promise_run [OpArm (7::nat), OpProcess, OpSet, OpSet] EslangPromise_init) = [7]"
  using promise_wakes_exactly_when_set [of EslangPromise_init "[OpProcess, OpSet, OpSet]" "7::nat"]
  by (simp add: promise_ok_init)

text \<open>C35: A promise remembers one continuation only. When two processes wait on the same
  promise, the second \<open>setContinuation\<close> replaces the first, and whatever is done with the promise
  afterwards, short of installing it again, the first continuation is never posted.\<close>

theorem promise_second_waiter_replaces_first:
  assumes "promise_ok p" and "\<not> is_set p" and "h1 \<noteq> h2" and "\<forall>x\<in>set xs. h1 \<notin> set (armed_by x)"
  shows "h1 \<notin> set (snd (promise_run (OpArm h1 # OpArm h2 # xs) p))"
proof -
  let ?q = "fst (setContinuation h2 (fst (setContinuation h1 p)))"
  have ok1: "promise_ok (fst (setContinuation h1 p))"
    using promise_step_ok [OF assms(1), of "OpArm h1"] by (metis prod.collapse promise_step.simps(3))
  then have ok2: "promise_ok ?q"
    using promise_step_ok [of _ "OpArm h2"] by (metis prod.collapse promise_step.simps(3))
  have "subseq (snd (promise_run xs ?q) @ exec_list (fst (promise_run xs ?q)))
      (exec_list ?q @ concat (map armed_by xs))"
    using promise.run_subseq [OF ok2, of xs] by (simp add: promise_run_eq)
  then have "set (snd (promise_run xs ?q)) \<subseteq> set (exec_list ?q) \<union> (\<Union>x\<in>set xs. set (armed_by x))"
    by (auto dest: list_emb_set)
  moreover have "exec_list ?q = [h2]"
    using assms(2) by (simp add: exec_list_def setContinuation_simps)
  ultimately have "h1 \<notin> set (snd (promise_run xs ?q))" using assms(3,4) by auto
  then show ?thesis
    using assms(2)
    by (simp add: snd_promise_run_Cons setContinuation_simps del: promise_run.simps)
qed

theorem promise_second_waiter_replaces_first_witness:
  "(1::nat) \<notin> set (snd (promise_run [OpArm 1, OpArm 2, OpSet, OpProcess, OpSet] EslangPromise_init))"
  using promise_second_waiter_replaces_first
    [OF promise_ok_init, of "1::nat" 2 "[OpSet, OpProcess, OpSet]"]
  by (simp add: EslangPromise_init_def)

end
