(* ===== verification/Slot.thy ===== *)
theory Slot
  imports Future
begin

text \<open>
  \<open>eslang/Slot.h\<close>, \<open>Slot.cpp\<close>: the message queue of a slot, with its inline first element and
  its throttle promise, and the slot itself. The locale \<open>fifo_queue\<close> is the contract of a queue
  against the list of its elements; it is interpreted on \<open>MessageQueue\<close>.
\<close>

section \<open>MessageQueue\<close>

record ('a, 'h) MessageQueue =
  stackStorage :: "'a option"
  others :: "'a list"
  mq_promise :: "'h EslangPromise"

definition MessageQueue_init :: "('a, 'h) MessageQueue" where
  "MessageQueue_init = \<lparr>stackStorage = None, others = [], mq_promise = EslangPromise_init\<rparr>"

definition mq_size :: "('a, 'h) MessageQueue \<Rightarrow> nat" where
  "mq_size q = (if stackStorage q \<noteq> None then 1 + length (others q) else 0)"

definition mq_empty :: "('a, 'h) MessageQueue \<Rightarrow> bool" where
  "mq_empty q \<longleftrightarrow> mq_size q = 0"

definition mq_push :: "'a \<Rightarrow> ('a, 'h) MessageQueue \<Rightarrow> ('a, 'h) MessageQueue" where
  "mq_push t q =
     (if stackStorage q \<noteq> None then q\<lparr>others := others q @ [t]\<rparr>
      else q\<lparr>stackStorage := Some t\<rparr>)"

definition kThrottle :: nat where
  "kThrottle = 10"

definition shouldThrottle :: "('a, 'h) MessageQueue \<Rightarrow> bool" where
  "shouldThrottle q \<longleftrightarrow> mq_size q \<ge> kThrottle"

text \<open>
  \<open>pop\<close> returns the message, the queue and the handlers posted by the throttle promise. On an
  empty queue the source reads an empty \<open>std::optional\<close>; the model returns \<open>None\<close>.
\<close>

definition mq_pop :: "('a, 'h) MessageQueue \<Rightarrow> ('a \<times> ('a, 'h) MessageQueue \<times> 'h list) option" where
  "mq_pop q =
     (case stackStorage q of
        None \<Rightarrow> None
      | Some ret \<Rightarrow>
          let q = (case others q of
                     [] \<Rightarrow> q\<lparr>stackStorage := None\<rparr>
                   | x # xs \<Rightarrow> q\<lparr>stackStorage := Some x, others := xs\<rparr>)
          in if mq_size q = kThrottle - 1
             then let (p, hs) = setIfUnset (mq_promise q) in Some (ret, q\<lparr>mq_promise := p\<rparr>, hs)
             else Some (ret, q, []))"

text \<open>The destructor sets the throttle promise: the handlers it posts.\<close>

definition mq_destroy :: "('a, 'h) MessageQueue \<Rightarrow> 'h list" where
  "mq_destroy q = snd (setIfUnset (mq_promise q))"

section \<open>Slot\<close>

text \<open>
  A slot knows its parent process object (by address) and holds its queue; its \<open>SlotId\<close> is its own
  address, the key under which the store of the context keeps it.
\<close>

record ('a, 'h) Slot =
  slot_parent :: nat
  messages :: "('a, 'h) MessageQueue"

definition Slot_init :: "nat \<Rightarrow> ('a, 'h) Slot" where
  "Slot_init p = \<lparr>slot_parent = p, messages = MessageQueue_init\<rparr>"

definition slot_push :: "'a \<Rightarrow> ('a, 'h) Slot \<Rightarrow> ('a, 'h) Slot" where
  "slot_push m s = s\<lparr>messages := mq_push m (messages s)\<rparr>"

definition slot_address :: "Pid \<Rightarrow> SlotId \<Rightarrow> SendAddress" where
  "slot_address parent_pid sid = \<lparr>sa_pid = parent_pid, sa_slot = sid\<rparr>"

section \<open>Abstraction to a list\<close>

definition mq_list :: "('a, 'h) MessageQueue \<Rightarrow> 'a list" where
  "mq_list q = (case stackStorage q of None \<Rightarrow> [] | Some x \<Rightarrow> x # others q)"

definition mq_ok :: "('a, 'h) MessageQueue \<Rightarrow> bool" where
  "mq_ok q \<longleftrightarrow> (stackStorage q = None \<longrightarrow> others q = []) \<and> promise_ok (mq_promise q)"

datatype 'a queue_op = QPush 'a | QPop

locale fifo_queue =
  fixes empty_q :: 'q
    and push_q :: "'a \<Rightarrow> 'q \<Rightarrow> 'q"
    and pop_q :: "'q \<Rightarrow> ('a \<times> 'q \<times> 'h list) option"
    and contents :: "'q \<Rightarrow> 'a list"
    and inv :: "'q \<Rightarrow> bool"
  assumes inv_empty: "inv empty_q"
    and contents_empty: "contents empty_q = []"
    and inv_push: "inv q \<Longrightarrow> inv (push_q a q)"
    and contents_push: "inv q \<Longrightarrow> contents (push_q a q) = contents q @ [a]"
    and pop_None: "inv q \<Longrightarrow> pop_q q = None \<longleftrightarrow> contents q = []"
    and inv_pop: "inv q \<Longrightarrow> pop_q q = Some (a, q', hs) \<Longrightarrow> inv q'"
    and contents_pop: "inv q \<Longrightarrow> pop_q q = Some (a, q', hs) \<Longrightarrow> contents q = a # contents q'"
begin

text \<open>
  A run of pushes and pops: the messages popped, the handlers posted and the final queue;
  \<open>None\<close> when a pop finds the queue empty.
\<close>

primrec run :: "'a queue_op list \<Rightarrow> 'q \<Rightarrow> ('a list \<times> 'h list \<times> 'q) option" where
  "run [] q = Some ([], [], q)"
| "run (x # xs) q =
     (case x of
        QPush a \<Rightarrow> run xs (push_q a q)
      | QPop \<Rightarrow>
          (case pop_q q of
             None \<Rightarrow> None
           | Some (a, q', hs) \<Rightarrow>
               map_option (\<lambda>(as, hs', q''). (a # as, hs @ hs', q'')) (run xs q')))"

lemma run_inv: "inv q \<Longrightarrow> run xs q = Some (as, hs, q') \<Longrightarrow> inv q'"
  by (induction xs arbitrary: q as hs)
    (auto split: queue_op.splits option.splits, (blast dest: inv_push inv_pop)+)

lemma run_fifo:
  "inv q \<Longrightarrow> run xs q = Some (as, hs, q') \<Longrightarrow>
   as @ contents q' = contents q @ concat (map (\<lambda>x. case x of QPush a \<Rightarrow> [a] | QPop \<Rightarrow> []) xs)"
proof (induction xs arbitrary: q as hs)
  case Nil
  then show ?case by simp
next
  case (Cons x xs)
  show ?case
  proof (cases x)
    case (QPush a)
    with Cons.prems Cons.IH [OF inv_push [OF Cons.prems(1)]] show ?thesis
      by (simp add: contents_push)
  next
    case QPop
    with Cons.prems(2) obtain a q1 h1 as1 hs1 where p: "pop_q q = Some (a, q1, h1)"
      and r: "run xs q1 = Some (as1, hs1, q')" and as: "as = a # as1"
      by (auto split: option.splits)
    from Cons.IH [OF inv_pop [OF Cons.prems(1) p] r] QPop as contents_pop [OF Cons.prems(1) p]
    show ?thesis by simp
  qed
qed

end

lemmas mq_defs = mq_size_def mq_empty_def mq_push_def mq_list_def mq_ok_def

lemma mq_size_list: "mq_ok q \<Longrightarrow> mq_size q = length (mq_list q)"
  by (auto simp: mq_defs split: option.splits)

lemma mq_empty_list: "mq_ok q \<Longrightarrow> mq_empty q \<longleftrightarrow> mq_list q = []"
  by (simp add: mq_size_list mq_empty_def)

lemma mq_ok_init: "mq_ok MessageQueue_init"
  by (simp add: mq_ok_def MessageQueue_init_def promise_ok_init)

lemma mq_ok_push: "mq_ok q \<Longrightarrow> mq_ok (mq_push a q)"
  by (auto simp: mq_defs)

lemma mq_list_push: "mq_ok q \<Longrightarrow> mq_list (mq_push a q) = mq_list q @ [a]"
  by (auto simp: mq_defs split: option.splits)

lemma promise_ok_setIfUnset: "promise_ok p \<Longrightarrow> promise_ok (fst (setIfUnset p))"
  using promise_step_ok [of p OpSet] by (metis prod.collapse promise_step.simps(1))

text \<open>What a pop does, as one equation over the list view.\<close>

definition mq_tail :: "('a, 'h) MessageQueue \<Rightarrow> ('a, 'h) MessageQueue" where
  "mq_tail q = (case others q of
                  [] \<Rightarrow> q\<lparr>stackStorage := None\<rparr>
                | x # xs \<Rightarrow> q\<lparr>stackStorage := Some x, others := xs\<rparr>)"

lemma mq_tail_simps:
  assumes "mq_ok q" and "stackStorage q = Some r"
  shows "mq_ok (mq_tail q)" "mq_list q = r # mq_list (mq_tail q)" "mq_promise (mq_tail q) = mq_promise q"
  using assms by (auto simp: mq_tail_def mq_ok_def mq_list_def split: list.split)

lemma mq_pop_eq:
  assumes "stackStorage q = Some r"
  shows "mq_pop q =
    (let ps = (if mq_size (mq_tail q) = kThrottle - 1 then setIfUnset (mq_promise (mq_tail q))
               else (mq_promise (mq_tail q), []))
     in Some (r, (mq_tail q)\<lparr>mq_promise := fst ps\<rparr>, snd ps))"
  unfolding mq_pop_def mq_tail_def [symmetric] using assms
  by (simp add: Let_def split: prod.split)

lemma mq_promise_update:
  "mq_list (q\<lparr>mq_promise := p\<rparr>) = mq_list q"
  "mq_ok q \<Longrightarrow> promise_ok p \<Longrightarrow> mq_ok (q\<lparr>mq_promise := p\<rparr>)"
  by (simp_all add: mq_list_def mq_ok_def split: option.split)

lemma mq_pop_Some:
  assumes ok: "mq_ok q" and pop: "mq_pop q = Some (a, q', hs)"
  shows "mq_ok q'" and "mq_list q = a # mq_list q'"
    and "mq_promise q' = (if length (mq_list q') = kThrottle - 1 then fst (setIfUnset (mq_promise q))
      else mq_promise q)"
    and "hs = (if length (mq_list q') = kThrottle - 1 then snd (setIfUnset (mq_promise q)) else [])"
proof -
  obtain r where r: "stackStorage q = Some r"
    using pop by (auto simp: mq_pop_def split: option.splits)
  define ps where "ps = (if mq_size (mq_tail q) = kThrottle - 1
    then setIfUnset (mq_promise (mq_tail q)) else (mq_promise (mq_tail q), []))"
  have eq: "a = r" "q' = (mq_tail q)\<lparr>mq_promise := fst ps\<rparr>" "hs = snd ps"
    using pop unfolding mq_pop_eq [OF r] ps_def [symmetric] by (simp_all add: Let_def)
  note tl = mq_tail_simps [OF ok r]
  have size: "mq_size (mq_tail q) = length (mq_list q')"
    using tl(1) by (simp add: eq mq_size_list mq_promise_update)
  have "promise_ok (fst ps)"
    using ok promise_ok_setIfUnset by (auto simp: ps_def tl(3) mq_ok_def)
  with tl show "mq_ok q'" "mq_list q = a # mq_list q'" by (simp_all add: eq mq_promise_update)
  show "mq_promise q' = (if length (mq_list q') = kThrottle - 1 then fst (setIfUnset (mq_promise q))
      else mq_promise q)"
    and "hs = (if length (mq_list q') = kThrottle - 1 then snd (setIfUnset (mq_promise q)) else [])"
    unfolding size [symmetric] using tl(3) by (simp_all add: eq ps_def)
qed

lemma mq_pop_None: "mq_ok q \<Longrightarrow> mq_pop q = None \<longleftrightarrow> mq_list q = []"
  by (auto simp: mq_pop_def mq_list_def Let_def split: option.splits list.splits prod.splits)

interpretation mq: fifo_queue MessageQueue_init mq_push mq_pop mq_list mq_ok
proof
  fix q q' :: "('a, 'h) MessageQueue" and a hs
  show "mq_ok MessageQueue_init" by (rule mq_ok_init)
  show "mq_list MessageQueue_init = []" by (simp add: mq_list_def MessageQueue_init_def)
  show "mq_ok q \<Longrightarrow> mq_ok (mq_push a q)" by (rule mq_ok_push)
  show "mq_ok q \<Longrightarrow> mq_list (mq_push a q) = mq_list q @ [a]" by (rule mq_list_push)
  show "mq_ok q \<Longrightarrow> (mq_pop q = None) = (mq_list q = [])" by (rule mq_pop_None)
  show "mq_ok q \<Longrightarrow> mq_pop q = Some (a, q', hs) \<Longrightarrow> mq_ok q'" by (rule mq_pop_Some(1))
  show "mq_ok q \<Longrightarrow> mq_pop q = Some (a, q', hs) \<Longrightarrow> mq_list q = a # mq_list q'"
    by (rule mq_pop_Some(2))
qed

section \<open>Runs of a queue\<close>

text \<open>
  A run of pushes and pops on a queue: the messages popped, the handlers posted and the final
  queue, or \<open>None\<close> when a pop meets an empty queue.
\<close>

primrec mq_run :: "'a queue_op list \<Rightarrow> ('a, 'h) MessageQueue \<Rightarrow>
    ('a list \<times> 'h list \<times> ('a, 'h) MessageQueue) option" where
  "mq_run [] q = Some ([], [], q)"
| "mq_run (x # xs) q =
     (case x of
        QPush a \<Rightarrow> mq_run xs (mq_push a q)
      | QPop \<Rightarrow>
          (case mq_pop q of
             None \<Rightarrow> None
           | Some (a, q', hs) \<Rightarrow>
               map_option (\<lambda>(as, hs', q''). (a # as, hs @ hs', q'')) (mq_run xs q')))"

primrec pushed_by :: "'a queue_op \<Rightarrow> 'a list" where
  "pushed_by (QPush a) = [a]"
| "pushed_by QPop = []"

lemma mq_run_eq: "mq.run xs q = mq_run xs q"
  by (induction xs arbitrary: q) (auto split: queue_op.split option.split)

lemma pushed_by_case: "pushed_by x = (case x of QPush a \<Rightarrow> [a] | QPop \<Rightarrow> [])"
  by (cases x) auto

text \<open>C19: A message queue is first in, first out: in any run of \<open>push\<close> and \<open>pop\<close> on a
  well-formed queue, the messages popped, followed by those still queued, are the messages queued
  at the start followed by those pushed, in order; the inline first element and the deque behave as
  one list, and the final queue is well formed.\<close>

theorem message_queue_fifo:
  assumes "mq_ok q" and "mq_run xs q = Some (popped, hs, q')"
  shows "popped @ mq_list q' = mq_list q @ concat (map pushed_by xs) \<and> mq_ok q'"
  using mq.run_fifo [of q xs popped hs q'] mq.run_inv [of q xs popped hs q'] assms
  by (simp add: mq_run_eq pushed_by_case cong: map_cong)

theorem message_queue_fifo_witness:
  "\<exists>popped hs q'. mq_run [QPush (1::nat), QPush 2, QPop, QPush 3, QPop] (MessageQueue_init :: (nat, nat) MessageQueue)
      = Some (popped, hs, q') \<and> popped @ mq_list q' = [1, 2, 3] \<and> popped = [1, 2]"
proof -
  let ?q = "MessageQueue_init :: (nat, nat) MessageQueue"
  let ?xs = "[QPush (1::nat), QPush 2, QPop, QPush 3, QPop]"
  obtain hs q' where r: "mq_run ?xs ?q = Some ([1, 2], hs, q')"
    by (simp add: MessageQueue_init_def mq_push_def mq_pop_def mq_size_def kThrottle_def Let_def)
  have "[1, 2] @ mq_list q' = [1, 2, 3]"
    using message_queue_fifo [OF mq_ok_init r] by (simp add: MessageQueue_init_def mq_list_def)
  with r show ?thesis by blast
qed

text \<open>Handlers posted by a run when the promise is disarmed: none.\<close>

lemma mq_run_posts_nothing:
  assumes "mq_ok q" and "exec (mq_promise q) = None" and "mq_run xs q = Some (as, hs, q')"
  shows "hs = []"
  using assms
proof (induction xs arbitrary: q as hs)
  case Nil
  then show ?case by simp
next
  case (Cons x xs)
  show ?case
  proof (cases x)
    case (QPush a)
    have "exec (mq_promise (mq_push a q)) = None" using Cons.prems(2) by (simp add: mq_push_def)
    with Cons.IH [OF mq_ok_push [OF Cons.prems(1)]] Cons.prems(3) QPush show ?thesis by simp
  next
    case QPop
    with Cons.prems(3) obtain a q1 h1 as1 hs1 where p: "mq_pop q = Some (a, q1, h1)"
      and r: "mq_run xs q1 = Some (as1, hs1, q')" and hs: "hs = h1 @ hs1"
      by (auto split: option.splits)
    note pop = mq_pop_Some [OF Cons.prems(1) p]
    have pok: "promise_ok (mq_promise q)" using Cons.prems(1) by (simp add: mq_ok_def)
    have "exec (mq_promise q1) = None" and "h1 = []"
      using pop(3,4) Cons.prems(2) setIfUnset_simps(2,3) [OF pok] by (auto split: if_splits)
    with Cons.IH [OF pop(1) _ r] hs show ?thesis by simp
  qed
qed

lemma shouldThrottle_list: "mq_ok q \<Longrightarrow> shouldThrottle q \<longleftrightarrow> kThrottle \<le> length (mq_list q)"
  by (simp add: shouldThrottle_def mq_size_list)

text \<open>C33: Back pressure never loses the sender. If a continuation is installed on the throttle
  promise of a queue that should throttle, then every run of pushes and pops that leaves the queue
  below the limit posts that continuation exactly once, whatever pushes happen in between.\<close>

theorem throttled_sender_is_woken:
  assumes "mq_ok q" and "shouldThrottle q" and "exec (mq_promise q) = Some h"
    and "mq_run xs q = Some (popped, hs, q')" and "\<not> shouldThrottle q'"
  shows "hs = [h]"
  using assms
proof (induction xs arbitrary: q popped hs)
  case Nil
  then show ?case by simp
next
  case (Cons x xs)
  have len: "kThrottle \<le> length (mq_list q)" using Cons.prems(1,2) by (simp add: shouldThrottle_list)
  show ?case
  proof (cases x)
    case (QPush a)
    let ?q = "mq_push a q"
    have "shouldThrottle ?q" and "exec (mq_promise ?q) = Some h"
      using Cons.prems(1,3) len
      by (simp_all add: shouldThrottle_list mq_ok_push mq_list_push) (simp add: mq_push_def)
    with Cons.IH [OF mq_ok_push [OF Cons.prems(1)]] Cons.prems(4,5) QPush show ?thesis by simp
  next
    case QPop
    with Cons.prems(4) obtain a q1 h1 as1 hs1 where p: "mq_pop q = Some (a, q1, h1)"
      and r: "mq_run xs q1 = Some (as1, hs1, q')" and hs: "hs = h1 @ hs1"
      by (auto split: option.splits)
    note pop = mq_pop_Some [OF Cons.prems(1) p]
    have pok: "promise_ok (mq_promise q)" using Cons.prems(1) by (simp add: mq_ok_def)
    show ?thesis
    proof (cases "length (mq_list q1) = kThrottle - 1")
      case True
      with pop(3,4) have "h1 = [h]" and "exec (mq_promise q1) = None"
        using Cons.prems(3) setIfUnset_simps(2,3) [OF pok] by simp_all
      with mq_run_posts_nothing [OF pop(1) _ r] hs show ?thesis by simp
    next
      case False
      with pop(2) len have "shouldThrottle q1" by (simp add: shouldThrottle_list pop(1))
      with False pop(3,4) Cons.IH [OF pop(1) _ _ r Cons.prems(5)] Cons.prems(3) hs
      show ?thesis by simp
    qed
  qed
qed

theorem throttled_sender_is_woken_witness:
  "\<exists>q popped hs q'. shouldThrottle (q :: (nat, nat) MessageQueue)
     \<and> mq_run [QPush 10, QPop, QPop] q = Some (popped, hs, q') \<and> \<not> shouldThrottle q' \<and> hs = [7]"
proof -
  let ?p = "\<lparr>exec = Some 7, is_set = False, exception = None\<rparr> :: nat EslangPromise"
  let ?q = "\<lparr>stackStorage = Some 0, others = [1, 2, 3, 4, 5, 6, 7, 8, 9], mq_promise = ?p\<rparr>
    :: (nat, nat) MessageQueue"
  have ok: "mq_ok ?q" by (simp add: mq_ok_def promise_ok_def)
  have th: "shouldThrottle ?q" by (simp add: shouldThrottle_def mq_size_def kThrottle_def)
  obtain popped hs q' where r: "mq_run [QPush 10, QPop, QPop] ?q = Some (popped, hs, q')"
    and n: "\<not> shouldThrottle q'"
    by (simp add: mq_push_def mq_pop_def mq_size_def kThrottle_def shouldThrottle_def
        setIfUnset_def set_promise_def Let_def)
  have "hs = [7]" using throttled_sender_is_woken [OF ok th _ r n] by simp
  with th r n show ?thesis by blast
qed

section \<open>The slot store\<close>

text \<open>
  The slot objects by address, the newest first. A slot that has been destroyed has no entry.
\<close>

type_synonym ('a, 'h) slots = "(SlotId \<times> ('a, 'h) Slot) list"

definition slot_queue :: "('a, 'h) slots \<Rightarrow> SlotId \<Rightarrow> ('a, 'h) MessageQueue option" where
  "slot_queue st i = map_option messages (map_of st i)"

definition set_slot_queue :: "SlotId \<Rightarrow> ('a, 'h) MessageQueue \<Rightarrow> ('a, 'h) slots \<Rightarrow> ('a, 'h) slots" where
  "set_slot_queue i q st = map (\<lambda>(j, s). if j = i then (j, s\<lparr>messages := q\<rparr>) else (j, s)) st"

lemma slot_queue_set:
  "slot_queue (set_slot_queue i q st) j =
     (if j = i then map_option (\<lambda>_. q) (slot_queue st i) else slot_queue st j)"
  by (induction st) (auto simp: slot_queue_def set_slot_queue_def)

lemma set_slot_queue_frame [simp]:
  "map fst (set_slot_queue i q st) = map fst st"
  "map (slot_parent \<circ> snd) (set_slot_queue i q st) = map (slot_parent \<circ> snd) st"
  by (auto simp: set_slot_queue_def)

definition slots_ok :: "('a, 'h) slots \<Rightarrow> bool" where
  "slots_ok st \<longleftrightarrow> distinct (map fst st) \<and> (\<forall>(i, s)\<in>set st. mq_ok (messages s))"

lemma slots_okD: "slots_ok st \<Longrightarrow> slot_queue st i = Some q \<Longrightarrow> mq_ok q"
  by (auto simp: slots_ok_def slot_queue_def dest!: map_of_SomeD)

lemma slots_ok_set: "slots_ok st \<Longrightarrow> mq_ok q \<Longrightarrow> slots_ok (set_slot_queue i q st)"
  by (auto simp: slots_ok_def) (auto simp: set_slot_queue_def split: if_splits)

end
