(* ===== verification/Waiting.thy ===== *)
theory Waiting
  imports Slot
begin

text \<open>
  \<open>eslang/IWaiting.h\<close> and \<open>Waiting.h\<close>: what a suspended process waits for. The class hierarchy
  under \<open>IWaiting\<close> is a datatype; every virtual member is a function over it, and the two mixins
  \<open>WithWaitingTimeout\<close> and \<open>WithWaitingFuture\<close> wrap another value and override one member.
\<close>

section \<open>Awaitables\<close>

text \<open>
  A pointer to a promise: the throttle promise of a slot's queue, or a promise object of a
  process, by its address.
\<close>

datatype promise_ref = ThrottleP SlotId | UserP nat

datatype Waiting =
    WaitingReady
  | WaitingAlways
  | WaitingYield
  | WaitingMaybe bool
  | WaitOnFuture promise_ref
  | WithWaitingTimeout int Waiting
  | WithWaitingFuture promise_ref Waiting
  | WaitingMessages "SendAddress list"

definition WaitingTimeout :: "int \<Rightarrow> Waiting" where
  "WaitingTimeout t = WithWaitingTimeout t WaitingAlways"

definition WaitingFuture :: "promise_ref \<Rightarrow> Waiting" where
  "WaitingFuture p = WithWaitingFuture p WaitingAlways"

definition makeWithWaitingFuture :: "promise_ref \<Rightarrow> Waiting \<Rightarrow> Waiting" where
  "makeWithWaitingFuture p t = WithWaitingFuture p t"

primrec isReadyForResume :: "Waiting \<Rightarrow> bool" where
  "isReadyForResume WaitingReady = False"
| "isReadyForResume WaitingAlways = False"
| "isReadyForResume WaitingYield = True"
| "isReadyForResume (WaitingMaybe wait) = True"
| "isReadyForResume (WaitOnFuture f) = False"
| "isReadyForResume (WithWaitingTimeout t u) = isReadyForResume u"
| "isReadyForResume (WithWaitingFuture p u) = isReadyForResume u"
| "isReadyForResume (WaitingMessages addresses) = False"

primrec sleepFor :: "Waiting \<Rightarrow> int option" where
  "sleepFor WaitingReady = None"
| "sleepFor WaitingAlways = None"
| "sleepFor WaitingYield = None"
| "sleepFor (WaitingMaybe wait) = None"
| "sleepFor (WaitOnFuture f) = None"
| "sleepFor (WithWaitingTimeout t u) = Some t"
| "sleepFor (WithWaitingFuture p u) = sleepFor u"
| "sleepFor (WaitingMessages addresses) = None"

primrec wakeOnFuture :: "Waiting \<Rightarrow> promise_ref option" where
  "wakeOnFuture WaitingReady = None"
| "wakeOnFuture WaitingAlways = None"
| "wakeOnFuture WaitingYield = None"
| "wakeOnFuture (WaitingMaybe wait) = None"
| "wakeOnFuture (WaitOnFuture f) = Some f"
| "wakeOnFuture (WithWaitingTimeout t u) = wakeOnFuture u"
| "wakeOnFuture (WithWaitingFuture p u) = Some p"
| "wakeOnFuture (WaitingMessages addresses) = None"

primrec isWaiting :: "Waiting \<Rightarrow> SlotId \<Rightarrow> bool" where
  "isWaiting WaitingReady s = False"
| "isWaiting WaitingAlways s = False"
| "isWaiting WaitingYield s = False"
| "isWaiting (WaitingMaybe wait) s = False"
| "isWaiting (WaitOnFuture f) s = False"
| "isWaiting (WithWaitingTimeout t u) s = isWaiting u s"
| "isWaiting (WithWaitingFuture p u) s = isWaiting u s"
| "isWaiting (WaitingMessages addresses) s = list_ex (\<lambda>a. sa_slot a = s) addresses"

section \<open>await\_ready and await\_resume\<close>

text \<open>
  The members below read the message queues and promises that the awaitable points to: \<open>st\<close> is
  the slot store and \<open>pr\<close> gives the promise behind a pointer. \<open>None\<close> is a dangling pointer.
\<close>

text \<open>\<open>any_ready\<close> evaluates \<open>!empty()\<close> of every queue first and then searches the flags.\<close>

primrec ready_flags :: "('a, 'h) slots \<Rightarrow> SendAddress list \<Rightarrow> bool list option" where
  "ready_flags st [] = Some []"
| "ready_flags st (a # as) =
     (case slot_queue st (sa_slot a) of
        None \<Rightarrow> None
      | Some q \<Rightarrow> map_option ((#) (\<not> mq_empty q)) (ready_flags st as))"

definition any_ready :: "('a, 'h) slots \<Rightarrow> SendAddress list \<Rightarrow> bool option" where
  "any_ready st as = map_option (list_ex id) (ready_flags st as)"

primrec await_ready ::
    "('a, 'h) slots \<Rightarrow> (promise_ref \<Rightarrow> 'h EslangPromise option) \<Rightarrow> Waiting \<Rightarrow> bool option" where
  "await_ready st pr WaitingReady = Some True"
| "await_ready st pr WaitingAlways = Some False"
| "await_ready st pr WaitingYield = Some False"
| "await_ready st pr (WaitingMaybe wait) = Some (\<not> wait)"
| "await_ready st pr (WaitOnFuture f) = map_option isReady (pr f)"
| "await_ready st pr (WithWaitingTimeout t u) = await_ready st pr u"
| "await_ready st pr (WithWaitingFuture p u) = await_ready st pr u"
| "await_ready st pr (WaitingMessages addresses) = any_ready st addresses"

text \<open>\<open>get_optional\<close>: the message popped from one queue, if it has any, and the handlers posted.\<close>

definition get_optional :: "SlotId \<Rightarrow> ('a, 'h) slots \<Rightarrow> ('a option \<times> ('a, 'h) slots \<times> 'h list) option" where
  "get_optional i st =
     (case slot_queue st i of
        None \<Rightarrow> None
      | Some q \<Rightarrow>
          if \<not> mq_empty q
          then (case mq_pop q of
                  None \<Rightarrow> None
                | Some (m, q', hs) \<Rightarrow> Some (Some m, set_slot_queue i q' st, hs))
          else Some (None, st, []))"

primrec get_vals ::
    "SendAddress list \<Rightarrow> ('a, 'h) slots \<Rightarrow> ('a option list \<times> ('a, 'h) slots \<times> 'h list) option" where
  "get_vals [] st = Some ([], st, [])"
| "get_vals (a # as) st =
     (case get_optional (sa_slot a) st of
        None \<Rightarrow> None
      | Some (v, st', hs) \<Rightarrow>
          (case get_vals as st' of
             None \<Rightarrow> None
           | Some (vs, st'', hs') \<Rightarrow> Some (v # vs, st'', hs @ hs')))"

text \<open>
  The value of \<open>await_resume\<close>: the tuple of optionals of \<open>WaitingMessages\<close>, empty for the other
  awaitables, which return nothing.
\<close>

primrec await_resume ::
    "Waiting \<Rightarrow> ('a, 'h) slots \<Rightarrow> ('a option list \<times> ('a, 'h) slots \<times> 'h list) option" where
  "await_resume WaitingReady st = Some ([], st, [])"
| "await_resume WaitingAlways st = Some ([], st, [])"
| "await_resume WaitingYield st = Some ([], st, [])"
| "await_resume (WaitingMaybe wait) st = Some ([], st, [])"
| "await_resume (WaitOnFuture f) st = Some ([], st, [])"
| "await_resume (WithWaitingTimeout t u) st = await_resume u st"
| "await_resume (WithWaitingFuture p u) st = await_resume u st"
| "await_resume (WaitingMessages addresses) st = get_vals addresses st"

text \<open>
  \<open>WaitingMessage<T>\<close> is no \<open>IWaiting\<close> itself: it suspends on its underlying
  \<open>WaitingMessages<T>\<close> and throws if that yields no message.
\<close>

datatype Awaitable = AWaiting Waiting | AWaitingMessage SendAddress

primrec underlying :: "Awaitable \<Rightarrow> Waiting" where
  "underlying (AWaiting w) = w"
| "underlying (AWaitingMessage a) = WaitingMessages [a]"

definition WaitingMessage_result :: "'a option list \<Rightarrow> string + 'a" where
  "WaitingMessage_result ret =
     (case ret of (Some m # _) \<Rightarrow> Inr m | _ \<Rightarrow> Inl ''Message was not ready'')"

section \<open>Facts\<close>

definition slot_list :: "('a, 'h) slots \<Rightarrow> SlotId \<Rightarrow> 'a list" where
  "slot_list st i = (case slot_queue st i of None \<Rightarrow> [] | Some q \<Rightarrow> mq_list q)"

definition head_option :: "'a list \<Rightarrow> 'a option" where
  "head_option xs = (case xs of [] \<Rightarrow> None | x # _ \<Rightarrow> Some x)"

lemma head_option_None [simp]: "head_option xs = None \<longleftrightarrow> xs = []"
  by (simp add: head_option_def split: list.split)

lemma slot_list_set:
  "slot_queue st i = Some q0 \<Longrightarrow> slot_list (set_slot_queue i q st) = (slot_list st)(i := mq_list q)"
  by (auto simp: slot_list_def slot_queue_set)

text \<open>One pop of \<open>tryRecv\<close> in terms of the lists of waiting messages.\<close>

lemma get_optional_spec:
  assumes ok: "slots_ok st" and ex: "slot_queue st i = Some q"
  obtains st' hs where "get_optional i st = Some (head_option (slot_list st i), st', hs)"
    and "slots_ok st'" and "slot_list st' = (slot_list st)(i := tl (slot_list st i))"
    and "map fst st' = map fst st" and "map (slot_parent \<circ> snd) st' = map (slot_parent \<circ> snd) st"
    and "\<And>j. slot_queue st' j = None \<longleftrightarrow> slot_queue st j = None"
proof (cases "mq_list q")
  case Nil
  with ok ex have "mq_empty q" by (simp add: mq_empty_list slots_okD)
  with Nil ex ok that [of st "[]"] show ?thesis
    by (simp add: get_optional_def slot_list_def head_option_def fun_upd_idem)
next
  case (Cons x xs)
  have okq: "mq_ok q" using ok ex by (rule slots_okD)
  with Cons obtain y q' hs where p: "mq_pop q = Some (y, q', hs)"
    using mq_pop_None [OF okq] by (cases "mq_pop q") auto
  note pop = mq_pop_Some [OF okq p]
  show ?thesis
  proof (rule that [of "set_slot_queue i q' st" hs])
    show "get_optional i st = Some (head_option (slot_list st i), set_slot_queue i q' st, hs)"
      using ex p pop(2) Cons okq
      by (simp add: get_optional_def slot_list_def head_option_def mq_empty_list)
    show "slots_ok (set_slot_queue i q' st)" using ok pop(1) by (rule slots_ok_set)
    show "slot_list (set_slot_queue i q' st) = (slot_list st)(i := tl (slot_list st i))"
      using slot_list_set [OF ex] ex pop(2) by (simp add: slot_list_def)
    show "slot_queue (set_slot_queue i q' st) j = None \<longleftrightarrow> slot_queue st j = None" for j
      using ex by (simp add: slot_queue_set)
  qed simp_all
qed

text \<open>
  The frame of \<open>get_vals\<close> and \<open>await_resume\<close>: they change queue contents only, and only by
  removing messages.
\<close>

definition slots_shrunk :: "('a, 'h) slots \<Rightarrow> ('a, 'h) slots \<Rightarrow> bool" where
  "slots_shrunk st st' \<longleftrightarrow> map fst st' = map fst st
     \<and> map (slot_parent \<circ> snd) st' = map (slot_parent \<circ> snd) st
     \<and> (\<forall>i. suffix (slot_list st' i) (slot_list st i))
     \<and> (\<forall>i. slot_queue st' i = None \<longleftrightarrow> slot_queue st i = None)"

lemma slots_shrunk_refl [simp]: "slots_shrunk st st"
  by (simp add: slots_shrunk_def)

lemma slots_shrunk_trans: "slots_shrunk a b \<Longrightarrow> slots_shrunk b c \<Longrightarrow> slots_shrunk a c"
  unfolding slots_shrunk_def by (metis suffix_order.order_trans)

lemma get_optional_frame:
  assumes "slots_ok st" and "get_optional i st = Some (v, st', hs)"
  shows "slots_ok st'" and "slots_shrunk st st'" and "v = head_option (slot_list st i)"
    and "slot_list st' = (slot_list st)(i := tl (slot_list st i))"
proof -
  obtain q where q: "slot_queue st i = Some q"
    using assms(2) by (auto simp: get_optional_def split: option.splits)
  show "slots_ok st'" "slots_shrunk st st'" "v = head_option (slot_list st i)"
    "slot_list st' = (slot_list st)(i := tl (slot_list st i))"
    using assms(2) by (rule_tac [!] get_optional_spec [OF assms(1) q]; simp add: slots_shrunk_def suffix_tl)+
qed

lemma get_vals_frame:
  "slots_ok st \<Longrightarrow> get_vals as st = Some (vs, st', hs) \<Longrightarrow> slots_ok st' \<and> slots_shrunk st st'"
proof (induction as arbitrary: st vs hs)
  case Nil
  then show ?case by simp
next
  case (Cons a as)
  from Cons.prems(2) obtain v st1 h1 vs1 h2 where g: "get_optional (sa_slot a) st = Some (v, st1, h1)"
    and r: "get_vals as st1 = Some (vs1, st', h2)"
    by (auto split: option.splits)
  note f = get_optional_frame [OF Cons.prems(1) g]
  from Cons.IH [OF f(1) r] f(2) show ?case by (blast intro: slots_shrunk_trans)
qed

lemma await_resume_frame:
  "slots_ok st \<Longrightarrow> await_resume w st = Some (vs, st', hs) \<Longrightarrow> slots_ok st' \<and> slots_shrunk st st'"
  by (induction w) (auto dest: get_vals_frame)

lemma ready_flags_Some:
  "slots_ok st \<Longrightarrow> \<forall>a\<in>set as. slot_queue st (sa_slot a) \<noteq> None \<Longrightarrow>
   ready_flags st as = Some (map (\<lambda>a. slot_list st (sa_slot a) \<noteq> []) as)"
  by (induction as) (auto simp: slot_list_def mq_empty_list slots_okD)

lemma any_ready_Some:
  "slots_ok st \<Longrightarrow> \<forall>a\<in>set as. slot_queue st (sa_slot a) \<noteq> None \<Longrightarrow>
   any_ready st as = Some (\<exists>a\<in>set as. slot_list st (sa_slot a) \<noteq> [])"
  by (auto simp: any_ready_def ready_flags_Some list_ex_iff)

lemma ready_flags_exist:
  "ready_flags st as = Some bs \<Longrightarrow> \<forall>a\<in>set as. slot_queue st (sa_slot a) \<noteq> None"
  by (induction as arbitrary: bs) (auto split: option.splits)

section \<open>Properties of receiving\<close>

text \<open>Receiving from several different slots takes the oldest message of every slot that has
  one and nothing else: the i-th optional is the head of the i-th queue, every awaited queue loses
  exactly its head, and all other queues keep their contents.\<close>

theorem get_vals_takes_heads:
  assumes "slots_ok st" and "distinct (map sa_slot as)"
    and "\<forall>a\<in>set as. slot_queue st (sa_slot a) \<noteq> None"
  shows "\<exists>st' hs. get_vals as st = Some (map (\<lambda>a. head_option (slot_list st (sa_slot a))) as, st', hs)
    \<and> slots_ok st'
    \<and> (\<forall>i. slot_list st' i = (if i \<in> sa_slot ` set as then tl (slot_list st i) else slot_list st i))"
  using assms
proof (induction as arbitrary: st)
  case Nil
  then show ?case by simp
next
  case (Cons a as)
  obtain q where q: "slot_queue st (sa_slot a) = Some q" using Cons.prems(3) by auto
  obtain st1 h1 where g: "get_optional (sa_slot a) st = Some (head_option (slot_list st (sa_slot a)), st1, h1)"
    and ok1: "slots_ok st1"
    and l1: "slot_list st1 = (slot_list st)(sa_slot a := tl (slot_list st (sa_slot a)))"
    and ex1: "\<And>j. slot_queue st1 j = None \<longleftrightarrow> slot_queue st j = None"
    by (rule get_optional_spec [OF Cons.prems(1) q]) (rule that, assumption+)
  have ne: "sa_slot b \<noteq> sa_slot a" if "b \<in> set as" for b
    using Cons.prems(2) that by (auto simp: image_iff)
  obtain st2 h2 where r: "get_vals as st1 = Some (map (\<lambda>a. head_option (slot_list st1 (sa_slot a))) as, st2, h2)"
    and ok2: "slots_ok st2"
    and l2: "\<forall>i. slot_list st2 i = (if i \<in> sa_slot ` set as then tl (slot_list st1 i) else slot_list st1 i)"
    using Cons.IH [OF ok1] Cons.prems(2,3) ex1 by auto
  have eq: "map (\<lambda>a. head_option (slot_list st1 (sa_slot a))) as
      = map (\<lambda>a. head_option (slot_list st (sa_slot a))) as"
    using ne l1 by simp
  have "get_vals (a # as) st
      = Some (map (\<lambda>a. head_option (slot_list st (sa_slot a))) (a # as), st2, h1 @ h2)"
    using g r by (simp add: eq)
  moreover have "slot_list st2 i = (if i \<in> sa_slot ` set (a # as) then tl (slot_list st i) else slot_list st i)" for i
    using l1 l2 ne by (auto dest: ne)
  ultimately show ?case using ok2 by blast
qed

theorem get_vals_takes_heads_witness:
  "\<exists>st' hs. get_vals [\<lparr>sa_pid = \<lparr>idx = 0, version = 0\<rparr>, sa_slot = 4\<rparr>]
      [(4, Slot_init 0 :: (nat, nat) Slot)] = Some ([None], st', hs) \<and> slots_ok st'"
proof -
  let ?st = "[(4, Slot_init 0 :: (nat, nat) Slot)]"
  let ?as = "[\<lparr>sa_pid = \<lparr>idx = 0, version = 0\<rparr>, sa_slot = 4\<rparr>]"
  have ok: "slots_ok ?st" by (simp add: slots_ok_def Slot_init_def mq_ok_init)
  have "slot_list ?st 4 = []"
    by (simp add: slot_list_def slot_queue_def Slot_init_def mq_list_def MessageQueue_init_def)
  then show ?thesis
    using get_vals_takes_heads [OF ok, of ?as] by (auto simp: slot_queue_def head_option_def)
qed

text \<open>The readiness test of a receive agrees with its result: when \<open>await_ready\<close> finds all
  queues alive and answers \<open>b\<close>, then \<open>await_resume\<close> performed in the same state delivers a tuple
  that holds at least one message if and only if \<open>b\<close>. In particular \<open>recv\<close> on a slot that is ready
  never throws \<open>Message was not ready\<close>.\<close>

theorem receive_ready_iff_message:
  assumes "slots_ok st" and "await_ready st pr (WaitingMessages as) = Some b"
  shows "\<exists>vs st' hs. await_resume (WaitingMessages as) st = Some (vs, st', hs)
    \<and> (b \<longleftrightarrow> (\<exists>m. Some m \<in> set vs))"
proof -
  obtain bs where "ready_flags st as = Some bs" using assms(2) by (auto simp: any_ready_def)
  then have ex: "\<forall>a\<in>set as. slot_queue st (sa_slot a) \<noteq> None" by (rule ready_flags_exist)
  then have b: "b \<longleftrightarrow> (\<exists>a\<in>set as. slot_list st (sa_slot a) \<noteq> [])"
    using assms by (simp add: any_ready_Some)
  have "\<exists>vs st' hs. get_vals as st = Some (vs, st', hs)
      \<and> ((\<exists>a\<in>set as. slot_list st (sa_slot a) \<noteq> []) \<longleftrightarrow> (\<exists>m. Some m \<in> set vs))"
    using assms(1) ex
  proof (induction as arbitrary: st)
    case Nil
    then show ?case by simp
  next
    case (Cons a as)
    obtain q where q: "slot_queue st (sa_slot a) = Some q" using Cons.prems(2) by auto
    obtain st1 h1 where g: "get_optional (sa_slot a) st = Some (head_option (slot_list st (sa_slot a)), st1, h1)"
      and ok1: "slots_ok st1"
      and l1: "slot_list st1 = (slot_list st)(sa_slot a := tl (slot_list st (sa_slot a)))"
      and ex1: "\<And>j. slot_queue st1 j = None \<longleftrightarrow> slot_queue st j = None"
      by (rule get_optional_spec [OF Cons.prems(1) q]) (rule that, assumption+)
    obtain vs st2 h2 where r: "get_vals as st1 = Some (vs, st2, h2)"
      and iff: "(\<exists>a\<in>set as. slot_list st1 (sa_slot a) \<noteq> []) \<longleftrightarrow> (\<exists>m. Some m \<in> set vs)"
      using Cons.IH [OF ok1] Cons.prems(2) ex1 by auto
    show ?case
    proof (cases "slot_list st (sa_slot a) = []")
      case True
      then have "slot_list st1 = slot_list st" using l1 by (simp add: fun_upd_idem)
      with True g r iff show ?thesis by (simp add: head_option_def)
    next
      case False
      then show ?thesis using g r by (auto simp: head_option_def split: list.splits)
    qed
  qed
  with b show ?thesis by simp
qed

theorem receive_ready_iff_message_witness:
  "\<exists>vs st' hs. await_resume (WaitingMessages [\<lparr>sa_pid = \<lparr>idx = 0, version = 0\<rparr>, sa_slot = 4\<rparr>])
      [(4, slot_push 5 (Slot_init 0) :: (nat, nat) Slot)] = Some (vs, st', hs) \<and> (\<exists>m. Some m \<in> set vs)"
  using receive_ready_iff_message [of "[(4, slot_push 5 (Slot_init 0) :: (nat, nat) Slot)]" "\<lambda>_. None"
      "[\<lparr>sa_pid = \<lparr>idx = 0, version = 0\<rparr>, sa_slot = 4\<rparr>]" True]
  by (simp add: slots_ok_def slot_push_def mq_ok_push mq_ok_init any_ready_def slot_queue_def
      Slot_init_def mq_empty_list mq_list_push)

end
