(* ===== verification/Process.thy ===== *)
theory Process
  imports Waiting
begin

text \<open>
  \<open>eslang/Process.h\<close>: the process object, what a process can ask of the context, and the code of
  a process as the sequence of such requests between two suspension points.

  The body \<open>run()\<close> of a process is written by the user of the library, so it is a parameter: a
  coroutine frame of user code is a value of a type \<open>'st\<close> (its locals and the point where it is
  suspended), and a program gives for every frame and every value returned by the expression it is
  suspended on the code that follows. Code between two suspension points is a finite tree of
  requests; a loop over suspension points is a program that returns to the same frame, so processes
  that never end are programs like any other. Coroutines of the library (\<open>sendThrottled\<close>) have
  frames of their own.
\<close>

section \<open>Process\<close>

record ProcessArgs =
  pa_pid :: Pid
  notifyOnDead :: "SendAddress option"
  pa_killOnDie :: "Pid option"

definition ProcessArgs_init :: "Pid \<Rightarrow> ProcessArgs" where
  "ProcessArgs_init p = \<lparr>pa_pid = p, notifyOnDead = None, pa_killOnDie = None\<rparr>"

text \<open>
  Besides the members of \<open>Process\<close>, the object knows the classes it can be cast to and its member
  slots by name, which is what \<open>makeSendAddress(pid, &Y::slot)\<close> looks at.
\<close>

record Process =
  pr_pid :: Pid
  killOnDie :: "Pid list"
  notifyOnDie :: "SendAddress list"
  pr_classes :: "string list"
  pr_members :: "(string \<times> SlotId) list"

definition addKillOnDie :: "Pid \<Rightarrow> Process \<Rightarrow> Process" where
  "addKillOnDie b p = p\<lparr>killOnDie := killOnDie p @ [b]\<rparr>"

definition Process_init :: "ProcessArgs \<Rightarrow> string list \<Rightarrow> Process" where
  "Process_init args classes =
     (let p = \<lparr>pr_pid = pa_pid args, killOnDie = [], notifyOnDie = [],
               pr_classes = classes, pr_members = []\<rparr>;
          p = (case pa_killOnDie args of None \<Rightarrow> p | Some k \<Rightarrow> addKillOnDie k p)
      in case notifyOnDead args of
           None \<Rightarrow> p
         | Some a \<Rightarrow> p\<lparr>notifyOnDie := notifyOnDie p @ [a]\<rparr>)"

section \<open>Coroutine code\<close>

text \<open>
  A suspended coroutine: a frame of user code, or \<open>sendThrottled\<close> suspended on its
  \<open>WaitingYield\<close> or in its loop on a \<open>WaitingFuture\<close>.
\<close>

datatype ('st, 'm) frame =
    UserFrame 'st
  | STYielded SendAddress "'m Message"
  | STWaiting SendAddress "'m Message"

text \<open>
  What \<open>spawn<T>(args)\<close> constructs: the classes of \<open>T\<close>, its member slots in declaration order, the
  processes its constructor links to, an exception its constructor ends with, and the frame of its
  \<open>run()\<close>.
\<close>

record ('st, 'm) SpawnSpec =
  sp_classes :: "string list"
  sp_members :: "string list"
  sp_links :: "Pid list"
  sp_throws :: "string option"
  sp_start :: "('st, 'm) frame"

text \<open>Values returned to process code, and its requests.\<close>

datatype 'm Answer =
    AUnit
  | ABool bool
  | APid Pid
  | ASlot SlotId
  | AAddr SendAddress
  | AMsg "'m Message"
  | AMsgs "'m Message option list"
  | APromise "promise_ref option"

datatype ('st, 'm) call =
    CPid
  | CNewSlot
  | CDropSlot SlotId
  | CSlotAddress SlotId
  | CNewPromise
  | CSpawn "('st, 'm) SpawnSpec"
  | CSpawnLink "('st, 'm) SpawnSpec"
  | CSpawnLinkNotify SendAddress "('st, 'm) SpawnSpec"
  | CMakeSendAddress Pid string string
  | CWaitOnQueue
  | CCanQueue SendAddress
  | CQueueSend SendAddress "'m Message"
  | CSend SendAddress "'m Message"
  | CLink Pid
  | CQueueKill Pid
  | CAddKillOnDie Pid

text \<open>
  \<open>CoReturn v\<close> is \<open>co_return v\<close>, \<open>CoThrow e\<close> an exception that leaves the coroutine, \<open>CoAwait w f\<close>
  awaits \<open>w\<close> and goes on as \<open>f\<close>, \<open>CoMethod c f\<close> awaits the method task with code \<open>c\<close> and goes on
  as \<open>f\<close>, and \<open>CoCall r k\<close> performs a request and goes on with its answer.
\<close>

datatype ('st, 'm) code =
    CoReturn "'m Answer"
  | CoThrow string
  | CoAwait Awaitable "('st, 'm) frame"
  | CoMethod "('st, 'm) code" "('st, 'm) frame"
  | CoCall "('st, 'm) call" "'m Answer \<Rightarrow> ('st, 'm) code"

type_synonym ('st, 'm) program = "'st \<Rightarrow> 'm Answer \<Rightarrow> ('st, 'm) code"

section \<open>sendThrottled and the receive operations\<close>

text \<open>The test of the loop of \<open>sendThrottled\<close>, and the send after it.\<close>

definition sendThrottled_loop :: "SendAddress \<Rightarrow> 'm Message \<Rightarrow> ('st, 'm) code" where
  "sendThrottled_loop p message =
     CoCall (CCanQueue p) (\<lambda>r. case r of
         APromise (Some promise) \<Rightarrow> CoAwait (AWaiting (WaitingFuture promise)) (STWaiting p message)
       | _ \<Rightarrow> CoCall (CQueueSend p message) (\<lambda>_. CoReturn AUnit))"

definition sendThrottled :: "SendAddress \<Rightarrow> 'm Message \<Rightarrow> ('st, 'm) code" where
  "sendThrottled p message =
     CoCall CWaitOnQueue (\<lambda>r. case r of
         ABool True \<Rightarrow> CoAwait (AWaiting WaitingYield) (STYielded p message)
       | _ \<Rightarrow> sendThrottled_loop p message)"

primrec frame_code :: "('st, 'm) program \<Rightarrow> ('st, 'm) frame \<Rightarrow> 'm Answer \<Rightarrow> ('st, 'm) code" where
  "frame_code P (UserFrame st) v = P st v"
| "frame_code P (STYielded p message) v = sendThrottled_loop p message"
| "frame_code P (STWaiting p message) v = sendThrottled_loop p message"

definition tryRecv :: "SendAddress list \<Rightarrow> Awaitable" where
  "tryRecv slots = AWaiting (WaitingMessages slots)"

definition recv :: "SendAddress \<Rightarrow> Awaitable" where
  "recv slot = AWaitingMessage slot"

definition sleep :: "int \<Rightarrow> Awaitable" where
  "sleep time = AWaiting (WaitingTimeout time)"

end
