(* ===== verification/Context.thy ===== *)
theory Context
  imports Process
begin

text \<open>
  \<open>eslang/Context.h\<close>, \<open>Context.cpp\<close>: the process table, the work queue, the list of processes to
  destroy, and the life of a process from \<open>spawn\<close> to its destruction.

  Running processes are objects of a heap, because their address is captured by the handlers given
  to the io service: \<open>processes\<close> and \<open>toDestroy\<close> own objects by address, and a handler may hold an
  address whose object is gone. The \<open>boost::asio::io_service\<close> is represented by what it holds for
  this context: the handlers queued for invocation (\<open>posted\<close>) and the timer waits that have not
  expired (\<open>waits\<close>).
\<close>

section \<open>State\<close>

type_synonym addr = nat

text \<open>
  The two lambdas of \<open>RunningProcess::resume\<close>: the wait on the timer, which captures \<open>this\<close>, and
  the continuation of a promise, which captures \<open>this\<close> and the resume counter.
\<close>

datatype handler = TimerFired addr | WakeFuture addr uint64

text \<open>
  A \<open>ProcessTask\<close> that is not done: the awaitable it is suspended on (none at the initial
  suspension) and its coroutine frames, the innermost first.
\<close>

type_synonym ('st, 'm) ProcessTask = "Awaitable option \<times> ('st, 'm) frame list"

record ('st, 'm) RunningProcess =
  dead :: bool
  rp_pid :: Pid
  rp_process :: Process
  task :: "('st, 'm) ProcessTask option"
  lastWaiting :: "Waiting option"
  resumes :: uint64

record 'm ToProcessItem =
  ti_pid :: Pid
  ti_resume :: "uint64 option"
  ti_message :: "(SendAddress \<times> 'm Message) option"

record ('st, 'm) Context =
  heap :: "addr \<Rightarrow> ('st, 'm) RunningProcess option"
  next_addr :: addr
  slots :: "('m Message, handler) slots"
  next_slot :: SlotId
  promises :: "(nat \<times> addr \<times> handler EslangPromise) list"
  next_promise :: nat
  tombstones :: "Pid list"
  processes :: "addr option list"
  toDestroy :: "(addr \<times> string) list"
  queue :: "'m ToProcessItem list"
  posted :: "handler list"
  waits :: "(addr \<times> int) list"

definition Context_init :: "('st, 'm) Context" where
  "Context_init = \<lparr>heap = (\<lambda>_. None), next_addr = 0, slots = [], next_slot = 0, promises = [],
     next_promise = 0, tombstones = [], processes = [], toDestroy = [], queue = [], posted = [],
     waits = []\<rparr>"

section \<open>Finding processes\<close>

text \<open>
  The non-const \<open>findProc\<close>: the process object, if the entry at the index of \<open>p\<close> is not null and
  has the version of \<open>p\<close>.
\<close>

definition findProc :: "Pid \<Rightarrow> ('st, 'm) Context \<Rightarrow> addr option" where
  "findProc p c =
     (if unat (idx p) \<ge> length (processes c) then None
      else case processes c ! unat (idx p) of
             None \<Rightarrow> None
           | Some a \<Rightarrow>
               (case heap c a of
                  None \<Rightarrow> None
                | Some rp \<Rightarrow> if version (rp_pid rp) \<noteq> version p then None else Some a))"

text \<open>The const \<open>findProc\<close> does not test the entry for null before it reads the version.\<close>

definition findProc_const :: "Pid \<Rightarrow> ('st, 'm) Context \<Rightarrow> (addr option, ('st, 'm) Context) res" where
  "findProc_const p c =
     (if unat (idx p) \<ge> length (processes c) then Ret None c
      else case processes c ! unat (idx p) of
             None \<Rightarrow> Undef NullDeref
           | Some a \<Rightarrow>
               (case heap c a of
                  None \<Rightarrow> Undef UseAfterFree
                | Some rp \<Rightarrow> if version (rp_pid rp) \<noteq> version p then Ret None c else Ret (Some a) c))"

definition upd_proc :: "addr \<Rightarrow> (('st, 'm) RunningProcess \<Rightarrow> ('st, 'm) RunningProcess) \<Rightarrow>
    ('st, 'm) Context \<Rightarrow> ('st, 'm) Context" where
  "upd_proc a f c = c\<lparr>heap := (heap c)(a := map_option f (heap c a))\<rparr>"

section \<open>The work queue\<close>

definition queueResume :: "Pid \<Rightarrow> uint64 \<Rightarrow> ('st, 'm) Context \<Rightarrow> ('st, 'm) Context" where
  "queueResume p n c =
     c\<lparr>queue := queue c @ [\<lparr>ti_pid = p, ti_resume = Some n, ti_message = None\<rparr>]\<rparr>"

definition queueSend :: "SendAddress \<Rightarrow> 'm Message \<Rightarrow> ('st, 'm) Context \<Rightarrow> ('st, 'm) Context" where
  "queueSend a m c =
     c\<lparr>queue := queue c @ [\<lparr>ti_pid = sa_pid a, ti_resume = None, ti_message = Some (a, m)\<rparr>]\<rparr>"

definition waitOnQueue :: "('st, 'm) Context \<Rightarrow> bool" where
  "waitOnQueue c \<longleftrightarrow> length (queue c) > 10"

definition canQueue :: "SendAddress \<Rightarrow> ('st, 'm) Context \<Rightarrow> (promise_ref option, ('st, 'm) Context) res" where
  "canQueue t c =
     res_bind (findProc_const (sa_pid t) c) (\<lambda>it c.
       case it of
         None \<Rightarrow> Ret None c
       | Some _ \<Rightarrow>
           (case slot_queue (slots c) (sa_slot t) of
              None \<Rightarrow> Undef DanglingSlot
            | Some q \<Rightarrow> Ret (if shouldThrottle q then Some (ThrottleP (sa_slot t)) else None) c))"

definition makeSendAddress ::
    "Pid \<Rightarrow> string \<Rightarrow> string \<Rightarrow> ('st, 'm) Context \<Rightarrow> (SendAddress, ('st, 'm) Context) res" where
  "makeSendAddress p cls slot c =
     (case findProc p c of
        None \<Rightarrow> Throw (concatString [PStr ''No process found for pid '', PStr (toString p)]) c
      | Some a \<Rightarrow>
          (case heap c a of
             None \<Rightarrow> Undef UseAfterFree
           | Some rp \<Rightarrow>
               if cls \<notin> set (pr_classes (rp_process rp))
               then Throw (concatString [PStr ''Bad process type for '', PStr (toString p)]) c
               else (case map_of (pr_members (rp_process rp)) slot of
                       None \<Rightarrow> Undef NullDeref
                     | Some sid \<Rightarrow> Ret \<lparr>sa_pid = p, sa_slot = sid\<rparr> c)))"

section \<open>Death\<close>

definition addtoDestroy :: "Pid \<Rightarrow> string \<Rightarrow> ('st, 'm) Context \<Rightarrow> ('st, 'm) Context" where
  "addtoDestroy p s c =
     (case findProc p c of
        None \<Rightarrow> c
      | Some a \<Rightarrow>
          (upd_proc a (\<lambda>rp. rp\<lparr>dead := True\<rparr>) c)
            \<lparr>processes := (processes c)[unat (idx p) := None],
             toDestroy := toDestroy c @ [(a, s)],
             tombstones := tombstones c @ [p]\<rparr>)"

text \<open>
  The destructor of a running process: its timer is destroyed (outstanding waits are cancelled),
  then its coroutine frames and its process object with their slots, the newest first; the queue of
  every slot sets its throttle promise.
\<close>

definition owned_slots :: "addr \<Rightarrow> ('m Message, handler) slots \<Rightarrow> ('m Message, handler) slots" where
  "owned_slots a st = filter (\<lambda>(i, s). slot_parent s = a) st"

definition delete_process :: "addr \<Rightarrow> ('st, 'm) Context \<Rightarrow> ('st, 'm) Context" where
  "delete_process a c =
     c\<lparr>waits := filter (\<lambda>(b, t). b \<noteq> a) (waits c),
       posted := posted c @ concat (map (\<lambda>(i, s). mq_destroy (messages s)) (owned_slots a (slots c))),
       slots := filter (\<lambda>(i, s). slot_parent s \<noteq> a) (slots c),
       promises := filter (\<lambda>(i, b, p). b \<noteq> a) (promises c),
       heap := (heap c)(a := None)\<rparr>"

definition destroy :: "addr \<Rightarrow> string \<Rightarrow> ('st, 'm) Context \<Rightarrow> ('st, 'm) Context" where
  "destroy a reason c =
     (case heap c a of
        None \<Rightarrow> c
      | Some rp \<Rightarrow>
          let pid = rp_pid rp;
              c = fold (\<lambda>to_destroy. addtoDestroy to_destroy reason) (killOnDie (rp_process rp)) c;
              c = fold (\<lambda>to_notify. queueSend to_notify (MPid pid)) (notifyOnDie (rp_process rp)) c
          in delete_process a c)"

text \<open>The inner loop of \<open>run\<close>: destroy until nothing is left to destroy.\<close>

definition destroy_front :: "('st, 'm) Context \<Rightarrow> ('st, 'm) Context" where
  "destroy_front c =
     (case toDestroy c of [] \<Rightarrow> c | (a, s) # rest \<Rightarrow> destroy a s (c\<lparr>toDestroy := rest\<rparr>))"

text \<open>
  The loop ends: \<open>addtoDestroy\<close> only moves processes from the table to the list, and every round
  removes one entry of the list.
\<close>

definition live_count :: "('st, 'm) Context \<Rightarrow> nat" where
  "live_count c = length (filter (\<lambda>e. e \<noteq> None) (processes c)) + length (toDestroy c)"

lemma length_filter_update_None:
  "i < length xs \<Longrightarrow> xs ! i \<noteq> None \<Longrightarrow>
   Suc (length (filter (\<lambda>e. e \<noteq> None) (xs[i := None]))) = length (filter (\<lambda>e. e \<noteq> None) xs)"
  by (induction xs arbitrary: i) (auto split: nat.splits)

lemma findProc_SomeD:
  "findProc p c = Some a \<Longrightarrow> unat (idx p) < length (processes c) \<and> processes c ! unat (idx p) = Some a
    \<and> (\<exists>rp. heap c a = Some rp \<and> version (rp_pid rp) = version p)"
  by (auto simp: findProc_def split: if_splits option.splits)

lemma live_count_addtoDestroy [simp]: "live_count (addtoDestroy p s c) = live_count c"
proof (cases "findProc p c")
  case None
  then show ?thesis by (simp add: addtoDestroy_def)
next
  case (Some a)
  then show ?thesis
    using findProc_SomeD [OF Some] length_filter_update_None [of "unat (idx p)" "processes c"]
    by (simp add: addtoDestroy_def live_count_def upd_proc_def)
qed

lemma live_count_fold_addtoDestroy [simp]:
  "live_count (fold (\<lambda>p. addtoDestroy p s) ps c) = live_count c"
  by (induction ps arbitrary: c) simp_all

lemma live_count_fold_queueSend [simp]:
  "live_count (fold (\<lambda>a. queueSend a m) as c) = live_count c"
  by (induction as arbitrary: c) (simp_all add: queueSend_def live_count_def)

lemma live_count_delete_process [simp]: "live_count (delete_process a c) = live_count c"
  by (simp add: delete_process_def live_count_def)

lemma live_count_destroy: "live_count (destroy a s c) = live_count c"
  by (simp add: destroy_def Let_def split: option.split)

lemma live_count_destroy_front:
  "toDestroy c \<noteq> [] \<Longrightarrow> live_count (destroy_front c) < live_count c"
  by (cases "toDestroy c") (auto simp: destroy_front_def live_count_destroy, simp add: live_count_def)

function destroy_all :: "('st, 'm) Context \<Rightarrow> ('st, 'm) Context" where
  "destroy_all c = (if toDestroy c \<noteq> [] then destroy_all (destroy_front c) else c)"
  by pat_completeness auto
termination
  by (relation "measure live_count") (auto simp: live_count_destroy_front)

declare destroy_all.simps [simp del]

section \<open>Spawning\<close>

definition nextPid :: "('st, 'm) Context \<Rightarrow> (Pid, ('st, 'm) Context) res" where
  "nextPid c =
     (if tombstones c \<noteq> []
      then let back = last (tombstones c)
           in Ret \<lparr>idx = idx back, version = version back + 1\<rparr> (c\<lparr>tombstones := butlast (tombstones c)\<rparr>)
      else if length (processes c) \<ge> vector_max_size then Throw ''vector'' c
      else let c = c\<lparr>processes := processes c @ [None]\<rparr>
           in Ret \<lparr>idx = of_nat (length (processes c) - 1), version = 0\<rparr> c)"

text \<open>A slot constructed in the object at address \<open>a\<close>.\<close>

definition new_slot :: "addr \<Rightarrow> ('st, 'm) Context \<Rightarrow> SlotId \<times> ('st, 'm) Context" where
  "new_slot a c =
     (next_slot c, c\<lparr>slots := (next_slot c, Slot_init a) # slots c, next_slot := next_slot c + 1\<rparr>)"

primrec new_members :: "addr \<Rightarrow> string list \<Rightarrow> Process \<Rightarrow> ('st, 'm) Context \<Rightarrow> Process \<times> ('st, 'm) Context" where
  "new_members a [] p c = (p, c)"
| "new_members a (n # ns) p c =
     (let (sid, c') = new_slot a c in new_members a ns (p\<lparr>pr_members := pr_members p @ [(n, sid)]\<rparr>) c')"

text \<open>
  \<open>Context::link(running, b)\<close> for a process object \<open>running\<close> that is passed by value: the object
  under construction, or the object of the running process.
\<close>

definition link_with :: "Process \<Rightarrow> Pid \<Rightarrow> ('st, 'm) Context \<Rightarrow> (Process, ('st, 'm) Context) res" where
  "link_with running b c =
     (case findProc b c of
        Some a \<Rightarrow>
          Ret (addKillOnDie b running)
            (upd_proc a (\<lambda>rp. rp\<lparr>rp_process := addKillOnDie (pr_pid running) (rp_process rp)\<rparr>) c)
      | None \<Rightarrow> Throw ''Proc is already dead'' c)"

primrec link_all :: "Pid list \<Rightarrow> Process \<Rightarrow> ('st, 'm) Context \<Rightarrow> (Process, ('st, 'm) Context) res" where
  "link_all [] p c = Ret p c"
| "link_all (b # bs) p c = res_bind (link_with p b c) (\<lambda>p c. link_all bs p c)"

text \<open>
  The constructor of the process: \<open>Process(ProcessArgs)\<close>, the member slots, then the body, which
  links and may throw. When it throws, the slots constructed so far are destroyed again.
\<close>

definition construct ::
    "addr \<Rightarrow> ProcessArgs \<Rightarrow> ('st, 'm) SpawnSpec \<Rightarrow> ('st, 'm) Context \<Rightarrow> (Process, ('st, 'm) Context) res" where
  "construct a args sp c =
     (let (p, c) = new_members a (sp_members sp) (Process_init args (sp_classes sp)) c in
      case res_bind (link_all (sp_links sp) p c)
             (\<lambda>p c. case sp_throws sp of None \<Rightarrow> Ret p c | Some e \<Rightarrow> Throw e c) of
        Throw e c \<Rightarrow> Throw e (delete_process a c)
      | r \<Rightarrow> r)"

definition spawnArgs ::
    "ProcessArgs \<Rightarrow> ('st, 'm) SpawnSpec \<Rightarrow> ('st, 'm) Context \<Rightarrow> (Pid, ('st, 'm) Context) res" where
  "spawnArgs args sp c =
     (let a = next_addr c in
      res_bind (construct a args sp (c\<lparr>next_addr := a + 1\<rparr>)) (\<lambda>p c.
        let rp = \<lparr>dead = False, rp_pid = pa_pid args, rp_process = p,
                  task = Some (None, [sp_start sp]), lastWaiting = None, resumes = 0\<rparr>
        in Ret (pa_pid args)
             (queueResume (pa_pid args) 0
               (c\<lparr>heap := (heap c)(a \<mapsto> rp),
                  processes := (processes c)[unat (idx (pa_pid args)) := Some a]\<rparr>))))"

definition spawn :: "('st, 'm) SpawnSpec \<Rightarrow> ('st, 'm) Context \<Rightarrow> (Pid, ('st, 'm) Context) res" where
  "spawn sp c = res_bind (nextPid c) (\<lambda>p c. spawnArgs (ProcessArgs_init p) sp c)"

definition spawnWith :: "(ProcessArgs \<Rightarrow> ProcessArgs) \<Rightarrow> ('st, 'm) SpawnSpec \<Rightarrow> ('st, 'm) Context \<Rightarrow>
    (Pid, ('st, 'm) Context) res" where
  "spawnWith f sp c = res_bind (nextPid c) (\<lambda>p c. spawnArgs (f (ProcessArgs_init p)) sp c)"

end
