(* ===== verification/Scheduler.thy ===== *)
theory Scheduler
  imports Context
begin

text \<open>
  The execution of processes: the requests of process code (\<open>eslang/Process.h\<close>, \<open>Process.cpp\<close> and
  the templates at the end of \<open>Context.h\<close>), \<open>RunningProcess::resume\<close> and \<open>send\<close>, and the loop
  \<open>Context::run\<close> (\<open>Context.cpp\<close>).
\<close>

section \<open>Promises by pointer\<close>

definition promise_at :: "('st, 'm) Context \<Rightarrow> promise_ref \<Rightarrow> handler EslangPromise option" where
  "promise_at c r =
     (case r of
        ThrottleP i \<Rightarrow> map_option mq_promise (slot_queue (slots c) i)
      | UserP n \<Rightarrow> map_option snd (map_of (promises c) n))"

definition put_promise :: "promise_ref \<Rightarrow> handler EslangPromise \<Rightarrow> ('st, 'm) Context \<Rightarrow> ('st, 'm) Context" where
  "put_promise r p c =
     (case r of
        ThrottleP i \<Rightarrow>
          (case slot_queue (slots c) i of
             None \<Rightarrow> c
           | Some q \<Rightarrow> c\<lparr>slots := set_slot_queue i (q\<lparr>mq_promise := p\<rparr>) (slots c)\<rparr>)
      | UserP n \<Rightarrow>
          c\<lparr>promises := map (\<lambda>(i, a, q). if i = n then (i, a, p) else (i, a, q)) (promises c)\<rparr>)"

section \<open>Requests of process code\<close>

text \<open>
  Addresses have protected constructors: code obtains them from a slot or from
  \<open>makeSendAddress\<close>, so an address whose slot exists names the process the slot belongs to.
\<close>

definition addr_genuine :: "SendAddress \<Rightarrow> ('st, 'm) Context \<Rightarrow> bool" where
  "addr_genuine t c \<longleftrightarrow>
     (case map_of (slots c) (sa_slot t) of
        None \<Rightarrow> sa_slot t < next_slot c
      | Some s \<Rightarrow> (case heap c (slot_parent s) of None \<Rightarrow> False | Some rp \<Rightarrow> rp_pid rp = sa_pid t))"

definition send :: "SendAddress \<Rightarrow> 'm Message \<Rightarrow> ('st, 'm) Context \<Rightarrow> bool \<times> ('st, 'm) Context" where
  "send p m c = (let c = queueSend p m c in (waitOnQueue c, c))"

text \<open>\<open>addKillOnDie\<close> on the object of the running process at \<open>this\<close>.\<close>

definition addKillOnDie_at :: "addr \<Rightarrow> Pid \<Rightarrow> ('st, 'm) Context \<Rightarrow> ('st, 'm) Context" where
  "addKillOnDie_at this b c = upd_proc this (\<lambda>rp. rp\<lparr>rp_process := addKillOnDie b (rp_process rp)\<rparr>) c"

definition spawnLink :: "addr \<Rightarrow> Pid \<Rightarrow> ('st, 'm) SpawnSpec \<Rightarrow> ('st, 'm) Context \<Rightarrow> (Pid, ('st, 'm) Context) res" where
  "spawnLink this own sp c =
     res_bind (spawnWith (\<lambda>a. a\<lparr>pa_killOnDie := Some own\<rparr>) sp c) (\<lambda>new_pid c.
       Ret new_pid (addKillOnDie_at this new_pid c))"

definition spawnLinkNotify :: "addr \<Rightarrow> SendAddress \<Rightarrow> ('st, 'm) SpawnSpec \<Rightarrow> ('st, 'm) Context \<Rightarrow>
    (Pid, ('st, 'm) Context) res" where
  "spawnLinkNotify this send_address sp c =
     res_bind (spawnWith (\<lambda>a. a\<lparr>notifyOnDead := Some send_address\<rparr>) sp c) (\<lambda>new_pid c.
       Ret new_pid (addKillOnDie_at this new_pid c))"

text \<open>\<open>Context::link(running, b)\<close> for the running process object at \<open>this\<close>.\<close>

definition link :: "addr \<Rightarrow> Pid \<Rightarrow> Pid \<Rightarrow> ('st, 'm) Context \<Rightarrow> (unit, ('st, 'm) Context) res" where
  "link this own b c =
     (case findProc b c of
        Some procb \<Rightarrow>
          Ret () (upd_proc procb (\<lambda>rp. rp\<lparr>rp_process := addKillOnDie own (rp_process rp)\<rparr>)
                   (addKillOnDie_at this b c))
      | None \<Rightarrow> Throw ''Proc is already dead'' c)"

definition queueKill :: "Pid \<Rightarrow> ('st, 'm) Context \<Rightarrow> ('st, 'm) Context" where
  "queueKill p c = addtoDestroy p '''' c"

definition drop_slot :: "SlotId \<Rightarrow> ('st, 'm) Context \<Rightarrow> ('st, 'm) Context" where
  "drop_slot i c =
     (case map_of (slots c) i of
        None \<Rightarrow> c
      | Some s \<Rightarrow> c\<lparr>posted := posted c @ mq_destroy (messages s),
                    slots := filter (\<lambda>(j, s). j \<noteq> i) (slots c)\<rparr>)"

definition do_call :: "addr \<Rightarrow> ('st, 'm) call \<Rightarrow> ('st, 'm) Context \<Rightarrow> ('m Answer, ('st, 'm) Context) res" where
  "do_call this r c =
     (case heap c this of
        None \<Rightarrow> Undef UseAfterFree
      | Some rp \<Rightarrow>
          let own = rp_pid rp; pid_answer = (\<lambda>p c. Ret (APid p) c) in
          (case r of
             CPid \<Rightarrow> Ret (APid own) c
           | CNewSlot \<Rightarrow> (let (i, c') = new_slot this c in Ret (ASlot i) c')
           | CDropSlot i \<Rightarrow>
               (case map_of (slots c) i of
                  None \<Rightarrow> Undef DanglingSlot
                | Some s \<Rightarrow> if slot_parent s = this then Ret AUnit (drop_slot i c) else Undef DanglingSlot)
           | CSlotAddress i \<Rightarrow>
               (case map_of (slots c) i of
                  None \<Rightarrow> Undef DanglingSlot
                | Some s \<Rightarrow>
                    (case heap c (slot_parent s) of
                       None \<Rightarrow> Undef UseAfterFree
                     | Some parent \<Rightarrow> Ret (AAddr (slot_address (rp_pid parent) i)) c))
           | CNewPromise \<Rightarrow>
               Ret (APromise (Some (UserP (next_promise c))))
                 (c\<lparr>promises := (next_promise c, this, EslangPromise_init) # promises c,
                    next_promise := next_promise c + 1\<rparr>)
           | CSpawn sp \<Rightarrow> res_bind (spawn sp c) pid_answer
           | CSpawnLink sp \<Rightarrow> res_bind (spawnLink this own sp c) pid_answer
           | CSpawnLinkNotify a sp \<Rightarrow>
               if addr_genuine a c then res_bind (spawnLinkNotify this a sp c) pid_answer
               else Undef DanglingSlot
           | CMakeSendAddress p cls slot \<Rightarrow>
               res_bind (makeSendAddress p cls slot c) (\<lambda>a c. Ret (AAddr a) c)
           | CWaitOnQueue \<Rightarrow> Ret (ABool (waitOnQueue c)) c
           | CCanQueue a \<Rightarrow> res_bind (canQueue a c) (\<lambda>p c. Ret (APromise p) c)
           | CQueueSend a m \<Rightarrow>
               if addr_genuine a c then Ret AUnit (queueSend a m c) else Undef DanglingSlot
           | CSend a m \<Rightarrow>
               if addr_genuine a c then (let (b, c') = send a m c in Ret (ABool b) c')
               else Undef DanglingSlot
           | CLink b \<Rightarrow> res_bind (link this own b c) (\<lambda>_ c. Ret AUnit c)
           | CQueueKill p \<Rightarrow> Ret AUnit (queueKill p c)
           | CAddKillOnDie p \<Rightarrow> Ret AUnit (addKillOnDie_at this p c)))"

section \<open>Running a coroutine to its next suspension\<close>

text \<open>
  The value of a \<open>co_await\<close>: \<open>await_resume\<close> on the underlying awaitable; \<open>WaitingMessage\<close> throws
  when there is no message.
\<close>

definition finish_await :: "Awaitable \<Rightarrow> ('st, 'm) Context \<Rightarrow> ('m Answer, ('st, 'm) Context) res" where
  "finish_await w c =
     (case await_resume (underlying w) (slots c) of
        None \<Rightarrow> Undef DanglingSlot
      | Some (vs, st, hs) \<Rightarrow>
          let c = c\<lparr>slots := st, posted := posted c @ hs\<rparr> in
          (case w of
             AWaiting _ \<Rightarrow> Ret (if vs = [] then AUnit else AMsgs vs) c
           | AWaitingMessage _ \<Rightarrow>
               (case WaitingMessage_result vs of Inl e \<Rightarrow> Throw e c | Inr m \<Rightarrow> Ret (AMsg m) c)))"

text \<open>
  Run code above a stack of suspended callers until the process suspends (\<open>Some\<close> of its new task),
  ends (\<open>None\<close>), or throws. Returning from a method task continues its caller. Each request, return
  and ready \<open>co_await\<close> spends one unit of fuel.
\<close>

fun exec_code :: "nat \<Rightarrow> ('st, 'm) program \<Rightarrow> addr \<Rightarrow> ('st, 'm) code \<Rightarrow> ('st, 'm) frame list \<Rightarrow>
    ('st, 'm) Context \<Rightarrow> (('st, 'm) ProcessTask option, ('st, 'm) Context) res" where
  "exec_code 0 P this cd fs c = NoFuel"
| "exec_code (Suc n) P this (CoReturn v) [] c = Ret None c"
| "exec_code (Suc n) P this (CoReturn v) (f # fs) c = exec_code n P this (frame_code P f v) fs c"
| "exec_code (Suc n) P this (CoThrow e) fs c = Throw e c"
| "exec_code (Suc n) P this (CoMethod cd f) fs c = exec_code n P this cd (f # fs) c"
| "exec_code (Suc n) P this (CoCall r k) fs c =
     res_bind (do_call this r c) (\<lambda>v c. exec_code n P this (k v) fs c)"
| "exec_code (Suc n) P this (CoAwait w f) fs c =
     (case await_ready (slots c) (promise_at c) (underlying w) of
        None \<Rightarrow> Undef DanglingSlot
      | Some True \<Rightarrow> res_bind (finish_await w c) (\<lambda>v c. exec_code n P this (frame_code P f v) fs c)
      | Some False \<Rightarrow> Ret (Some (Some w, f # fs)) c)"

text \<open>\<open>ProcessTask::resume\<close>: continue from the initial suspension or from the awaited expression.\<close>

definition task_resume :: "nat \<Rightarrow> ('st, 'm) program \<Rightarrow> addr \<Rightarrow> ('st, 'm) ProcessTask \<Rightarrow>
    ('st, 'm) Context \<Rightarrow> (('st, 'm) ProcessTask option, ('st, 'm) Context) res" where
  "task_resume n P this t c =
     (case t of
        (_, []) \<Rightarrow> Ret None c
      | (None, f # fs) \<Rightarrow> exec_code n P this (frame_code P f AUnit) fs c
      | (Some w, f # fs) \<Rightarrow>
          res_bind (finish_await w c) (\<lambda>v c. exec_code n P this (frame_code P f v) fs c))"

section \<open>RunningProcess\<close>

definition cancel_timer :: "addr \<Rightarrow> ('st, 'm) Context \<Rightarrow> ('st, 'm) Context" where
  "cancel_timer a c = c\<lparr>waits := filter (\<lambda>(b, t). b \<noteq> a) (waits c)\<rparr>"

text \<open>
  The inner \<open>try\<close> block up to the call of \<open>task.resume()\<close>: consume the signal of the promise the
  process waited on, which rethrows its exception, and count the resume.
\<close>

definition process_last :: "addr \<Rightarrow> ('st, 'm) RunningProcess \<Rightarrow> ('st, 'm) Context \<Rightarrow> (unit, ('st, 'm) Context) res" where
  "process_last this rp c =
     (case lastWaiting rp of
        None \<Rightarrow> Ret () c
      | Some w \<Rightarrow>
          (case wakeOnFuture w of
             None \<Rightarrow> Ret () c
           | Some r \<Rightarrow>
               (case promise_at c r of
                  None \<Rightarrow> Undef DanglingPromise
                | Some p \<Rightarrow>
                    (case process p of
                       Inl e \<Rightarrow> Throw e c
                     | Inr p' \<Rightarrow> Ret () (put_promise r p' c)))))"

definition run_task :: "nat \<Rightarrow> ('st, 'm) program \<Rightarrow> addr \<Rightarrow> ('st, 'm) RunningProcess \<Rightarrow> ('st, 'm) Context \<Rightarrow>
    (('st, 'm) ProcessTask option, ('st, 'm) Context) res" where
  "run_task n P this rp c =
     res_bind (process_last this rp c) (\<lambda>_ c.
       let c = upd_proc this (\<lambda>rp. rp\<lparr>resumes := resumes rp + 1\<rparr>) c in
       case task rp of
         None \<Rightarrow> Undef NullDeref
       | Some t \<Rightarrow> task_resume n P this t c)"

text \<open>
  After a suspension: queue a resume at once, or start the timer and install the continuation on
  the promise, whichever the awaitable asks for.
\<close>

definition start_timer :: "addr \<Rightarrow> int \<Rightarrow> ('st, 'm) Context \<Rightarrow> ('st, 'm) Context" where
  "start_timer a t c = (cancel_timer a c)\<lparr>waits := waits (cancel_timer a c) @ [(a, t)]\<rparr>"

definition arm_future :: "addr \<Rightarrow> uint64 \<Rightarrow> promise_ref \<Rightarrow> ('st, 'm) Context \<Rightarrow> (unit, ('st, 'm) Context) res" where
  "arm_future this n r c =
     (case promise_at c r of
        None \<Rightarrow> Undef DanglingPromise
      | Some p \<Rightarrow>
          let (p', hs) = setContinuation (WakeFuture this n) p in
          Ret () ((put_promise r p' c)\<lparr>posted := posted c @ hs\<rparr>))"

definition arm :: "addr \<Rightarrow> Waiting \<Rightarrow> ('st, 'm) Context \<Rightarrow> (unit, ('st, 'm) Context) res" where
  "arm this w c =
     (case heap c this of
        None \<Rightarrow> Undef UseAfterFree
      | Some rp \<Rightarrow>
          if isReadyForResume w then Ret () (queueResume (rp_pid rp) (resumes rp) c)
          else
            let c = (case sleepFor w of None \<Rightarrow> c | Some t \<Rightarrow> start_timer this t c) in
            case wakeOnFuture w of
              None \<Rightarrow> Ret () c
            | Some r \<Rightarrow> arm_future this (resumes rp) r c)"

definition resume :: "nat \<Rightarrow> ('st, 'm) program \<Rightarrow> addr \<Rightarrow> ('st, 'm) Context \<Rightarrow> (unit, ('st, 'm) Context) res" where
  "resume n P this c =
     (case heap c this of
        None \<Rightarrow> Undef UseAfterFree
      | Some rp \<Rightarrow>
          if dead rp then Ret () c
          else
            case run_task n P this rp (cancel_timer this c) of
              Throw e c \<Rightarrow> Ret () (addtoDestroy (rp_pid rp) (concatString [PStr ''Caught exception: '', PStr e]) c)
            | Undef u \<Rightarrow> Undef u
            | NoFuel \<Rightarrow> NoFuel
            | Ret None c \<Rightarrow>
                Ret () (addtoDestroy (rp_pid rp) ''''
                  (upd_proc this (\<lambda>rp. rp\<lparr>lastWaiting := None, task := None\<rparr>) c))
            | Ret (Some (None, fs)) c \<Rightarrow> Undef NullDeref
            | Ret (Some (Some w, fs)) c \<Rightarrow>
                arm this (underlying w)
                  (upd_proc this (\<lambda>rp. rp\<lparr>lastWaiting := Some (underlying w), task := Some (Some w, fs)\<rparr>) c))"

definition waitingFor :: "('st, 'm) RunningProcess \<Rightarrow> SlotId \<Rightarrow> bool" where
  "waitingFor rp s = (case lastWaiting rp of None \<Rightarrow> False | Some w \<Rightarrow> isWaiting w s)"

definition rp_send :: "nat \<Rightarrow> ('st, 'm) program \<Rightarrow> addr \<Rightarrow> SendAddress \<Rightarrow> 'm Message \<Rightarrow> ('st, 'm) Context \<Rightarrow>
    (unit, ('st, 'm) Context) res" where
  "rp_send n P this s m c =
     (case heap c this of
        None \<Rightarrow> Undef UseAfterFree
      | Some rp \<Rightarrow>
          let waiting = waitingFor rp (sa_slot s) in
          case slot_queue (slots c) (sa_slot s) of
            None \<Rightarrow> Undef DanglingSlot
          | Some q \<Rightarrow>
              let c = c\<lparr>slots := set_slot_queue (sa_slot s) (mq_push m q) (slots c)\<rparr> in
              if waiting then resume n P this c else Ret () c)"

section \<open>The loop of the context\<close>

definition processQueueItem :: "nat \<Rightarrow> ('st, 'm) program \<Rightarrow> 'm ToProcessItem \<Rightarrow> ('st, 'm) Context \<Rightarrow>
    (unit, ('st, 'm) Context) res" where
  "processQueueItem n P i c =
     res_bind
       (case ti_message i of
          None \<Rightarrow> Ret () c
        | Some (a, m) \<Rightarrow>
            (case findProc (ti_pid i) c of
               None \<Rightarrow> Ret () c
             | Some it \<Rightarrow> rp_send n P it a m c))
       (\<lambda>_ c.
         case ti_resume i of
           None \<Rightarrow> Ret () c
         | Some k \<Rightarrow>
             (case findProc (ti_pid i) c of
                None \<Rightarrow> Ret () c
              | Some it \<Rightarrow>
                  (case heap c it of
                     None \<Rightarrow> Undef UseAfterFree
                   | Some rp \<Rightarrow> if resumes rp = k then resume n P it c else Ret () c)))"

text \<open>A handler invoked by the io service.\<close>

primrec run_handler :: "nat \<Rightarrow> ('st, 'm) program \<Rightarrow> handler \<Rightarrow> ('st, 'm) Context \<Rightarrow> (unit, ('st, 'm) Context) res" where
  "run_handler n P (TimerFired this) c = resume n P this c"
| "run_handler n P (WakeFuture this k) c =
     (case heap c this of
        None \<Rightarrow> Undef UseAfterFree
      | Some rp \<Rightarrow> if resumes rp = k then resume n P this c else Ret () c)"

text \<open>The condition of the outer loop.\<close>

definition run_again :: "('st, 'm) Context \<Rightarrow> bool" where
  "run_again c \<longleftrightarrow> length (processes c) \<noteq> length (tombstones c)"

text \<open>
  The processes that a program may create, as a condition \<open>S\<close> on the arguments of every spawn in
  its code.
\<close>

primrec call_all :: "(('st, 'm) SpawnSpec \<Rightarrow> bool) \<Rightarrow> ('st, 'm) call \<Rightarrow> bool" where
  "call_all S CPid = True"
| "call_all S CNewSlot = True"
| "call_all S (CDropSlot i) = True"
| "call_all S (CSlotAddress i) = True"
| "call_all S CNewPromise = True"
| "call_all S (CSpawn sp) = S sp"
| "call_all S (CSpawnLink sp) = S sp"
| "call_all S (CSpawnLinkNotify a sp) = S sp"
| "call_all S (CMakeSendAddress p cls slot) = True"
| "call_all S CWaitOnQueue = True"
| "call_all S (CCanQueue a) = True"
| "call_all S (CQueueSend a m) = True"
| "call_all S (CSend a m) = True"
| "call_all S (CLink b) = True"
| "call_all S (CQueueKill p) = True"
| "call_all S (CAddKillOnDie p) = True"

primrec code_all :: "(('st, 'm) SpawnSpec \<Rightarrow> bool) \<Rightarrow> ('st, 'm) code \<Rightarrow> bool" where
  "code_all S (CoReturn v) = True"
| "code_all S (CoThrow e) = True"
| "code_all S (CoAwait w f) = True"
| "code_all S (CoMethod cd f) = code_all S cd"
| "code_all S (CoCall r k) = (call_all S r \<and> (\<forall>v. code_all S (k v)))"

definition program_all :: "(('st, 'm) SpawnSpec \<Rightarrow> bool) \<Rightarrow> ('st, 'm) program \<Rightarrow> bool" where
  "program_all S P \<longleftrightarrow> (\<forall>st v. code_all S (P st v))"

abbreviation any_spec :: "('st, 'm) SpawnSpec \<Rightarrow> bool" where
  "any_spec \<equiv> \<lambda>_. True"

text \<open>
  What the io service may do inside \<open>run_one\<close> and \<open>poll\<close>: a timer wait expires and its handler is
  queued; a queued handler is invoked; an asynchronous operation of a process sets one of its
  promises, or sets it with an exception; or its completion handler makes a request of its own, as
  the read handler of a socket, which sends, and the accept handler of a listener, which spawns. The
  order in which the io service serves its handlers is left open.
\<close>

inductive io_step :: "(('st, 'm) SpawnSpec \<Rightarrow> bool) \<Rightarrow> ('st, 'm) program \<Rightarrow> ('st, 'm) Context \<Rightarrow> ('st, 'm) Context \<Rightarrow> bool"
  for S :: "('st, 'm) SpawnSpec \<Rightarrow> bool" and P :: "('st, 'm) program" where
  expire: "(a, t) \<in> set (waits c) \<Longrightarrow>
     io_step S P c (c\<lparr>waits := remove1 (a, t) (waits c), posted := posted c @ [TimerFired a]\<rparr>)"
| invoke: "posted c = hs @ h # hs' \<Longrightarrow> run_handler n P h (c\<lparr>posted := hs @ hs'\<rparr>) = Ret () c' \<Longrightarrow>
     io_step S P c c'"
| signal: "promise_at c (UserP i) = Some p \<Longrightarrow> (p', hs) = setIfUnset p \<or> (p', hs) = setException e p \<Longrightarrow>
     io_step S P c ((put_promise (UserP i) p' c)\<lparr>posted := posted c @ hs\<rparr>)"
| request: "heap c a = Some rp \<Longrightarrow> call_all S r \<Longrightarrow> do_call a r c = Ret v c' \<Longrightarrow> io_step S P c c'"

inductive io_steps :: "(('st, 'm) SpawnSpec \<Rightarrow> bool) \<Rightarrow> ('st, 'm) program \<Rightarrow> ('st, 'm) Context \<Rightarrow> ('st, 'm) Context \<Rightarrow> bool"
  for S :: "('st, 'm) SpawnSpec \<Rightarrow> bool" and P :: "('st, 'm) program" where
  io_refl: "io_steps S P c c"
| io_trans: "io_steps S P c c' \<Longrightarrow> io_step S P c' c'' \<Longrightarrow> io_steps S P c c''"

text \<open>
  One round of the outer loop: an item of the queue, or, when the queue is empty, the io service
  until it has no handler left to invoke; then everything that is to be destroyed is destroyed.
\<close>

inductive run_step :: "(('st, 'm) SpawnSpec \<Rightarrow> bool) \<Rightarrow> ('st, 'm) program \<Rightarrow> ('st, 'm) Context \<Rightarrow> ('st, 'm) Context \<Rightarrow> bool"
  for S :: "('st, 'm) SpawnSpec \<Rightarrow> bool" and P :: "('st, 'm) program" where
  item: "run_again c \<Longrightarrow> queue c = i # is \<Longrightarrow>
     processQueueItem n P i (c\<lparr>queue := is\<rparr>) = Ret () c' \<Longrightarrow> run_step S P c (destroy_all c')"
| io: "run_again c \<Longrightarrow> queue c = [] \<Longrightarrow> io_steps S P c c' \<Longrightarrow> posted c' = [] \<Longrightarrow>
     run_step S P c (destroy_all c')"

text \<open>
  The states of a context: fresh, after a \<open>spawn\<close> from outside (which may end in an exception of
  the constructor), after a round of \<open>run\<close>.
\<close>

inductive reachable :: "(('st, 'm) SpawnSpec \<Rightarrow> bool) \<Rightarrow> ('st, 'm) program \<Rightarrow> ('st, 'm) Context \<Rightarrow> bool"
  for S :: "('st, 'm) SpawnSpec \<Rightarrow> bool" and P :: "('st, 'm) program" where
  fresh: "reachable S P Context_init"
| spawned: "reachable S P c \<Longrightarrow> S sp \<Longrightarrow> spawn sp c = Ret p c' \<Longrightarrow> reachable S P c'"
| spawn_failed: "reachable S P c \<Longrightarrow> S sp \<Longrightarrow> spawn sp c = Throw e c' \<Longrightarrow> reachable S P c'"
| stepped: "reachable S P c \<Longrightarrow> run_step S P c c' \<Longrightarrow> reachable S P c'"

inductive run_steps :: "(('st, 'm) SpawnSpec \<Rightarrow> bool) \<Rightarrow> ('st, 'm) program \<Rightarrow> ('st, 'm) Context \<Rightarrow> ('st, 'm) Context \<Rightarrow> bool"
  for S :: "('st, 'm) SpawnSpec \<Rightarrow> bool" and P :: "('st, 'm) program" where
  run_refl: "run_steps S P c c"
| run_trans: "run_steps S P c c' \<Longrightarrow> run_step S P c' c'' \<Longrightarrow> run_steps S P c c''"

inductive_cases run_stepE: "run_step S P c c'"
inductive_cases io_stepE: "io_step S P c c'"

end
