(* ===== verification/Coroutine.thy ===== *)
theory Coroutine
  imports Scheduler
begin

text \<open>
  \<open>eslang/ProcessTask.h\<close>, \<open>ProcessTask.cpp\<close> and \<open>IWaiting::await_suspend\<close>: coroutine promises, the
  pointers by which a process finds its innermost suspended coroutine again, and
  \<open>ProcessTask::resume\<close>. The scheduler model keeps the coroutines of a process as a stack of frames;
  here they are objects linked by pointers as in the code, and the pointer program is shown to
  implement the stack.
\<close>

section \<open>Promises of coroutines\<close>

type_synonym cid = nat

text \<open>
  A coroutine: the members of \<open>PromiseBase\<close>, \<open>ProcessPromise\<close> (\<open>nextChild\<close>) and
  \<open>MethodTaskPromise\<close> (\<open>parent\<close>); the suspension point with the awaitable object it is suspended
  on, which lives in the coroutine frame (none at the initial suspension and when it awaits another
  coroutine); and the returned value once it is at its final suspension.
\<close>

record ('st, 'm) Coroutine =
  isProcess :: bool
  waiting :: "Awaitable option"
  subCoroutineChild :: "cid option"
  processPromise :: "cid option"
  nextChild :: "cid option"
  parent :: "cid option"
  suspendedAt :: "(Awaitable option \<times> ('st, 'm) frame) option"
  finalValue :: "'m Answer option"

type_synonym ('st, 'm) coroutines = "cid \<Rightarrow> ('st, 'm) Coroutine option"

record ('st, 'm) CoStore =
  cos :: "('st, 'm) coroutines"
  next_co :: cid

definition MethodTaskPromise_init :: "('st, 'm) Coroutine" where
  "MethodTaskPromise_init = \<lparr>isProcess = False, waiting = None, subCoroutineChild = None,
     processPromise = None, nextChild = None, parent = None, suspendedAt = None, finalValue = None\<rparr>"

definition ProcessPromise_init :: "('st, 'm) frame \<Rightarrow> ('st, 'm) Coroutine" where
  "ProcessPromise_init f = \<lparr>isProcess = True, waiting = None, subCoroutineChild = None,
     processPromise = None, nextChild = None, parent = None, suspendedAt = Some (None, f),
     finalValue = None\<rparr>"

definition upd_co :: "cid \<Rightarrow> (('st, 'm) Coroutine \<Rightarrow> ('st, 'm) Coroutine) \<Rightarrow> ('st, 'm) CoStore \<Rightarrow> ('st, 'm) CoStore" where
  "upd_co x f k = k\<lparr>cos := (cos k)(x := map_option f (cos k x))\<rparr>"

definition del_co :: "cid \<Rightarrow> ('st, 'm) CoStore \<Rightarrow> ('st, 'm) CoStore" where
  "del_co x k = k\<lparr>cos := (cos k)(x := None)\<rparr>"

definition new_co :: "('st, 'm) CoStore \<Rightarrow> cid \<times> ('st, 'm) CoStore" where
  "new_co k = (next_co k, k\<lparr>cos := (cos k)(next_co k \<mapsto> MethodTaskPromise_init), next_co := Suc (next_co k)\<rparr>)"

text \<open>
  \<open>updateProcessPromise\<close> walks down the chain of children; \<open>None\<close> stands for a loop that does not
  end, or for a dangling pointer.
\<close>

partial_function (option) updateProcessPromise ::
    "cid \<Rightarrow> cid \<Rightarrow> ('st, 'm) CoStore \<Rightarrow> ('st, 'm) CoStore option" where
  "updateProcessPromise at process_promise k =
     (case cos k at of
        None \<Rightarrow> None
      | Some co \<Rightarrow>
          let k = upd_co at (\<lambda>co. co\<lparr>processPromise := Some process_promise\<rparr>) k;
              k = upd_co process_promise (\<lambda>co. co\<lparr>nextChild := Some at\<rparr>) k
          in (case subCoroutineChild co of
                None \<Rightarrow> Some k
              | Some at' \<Rightarrow> updateProcessPromise at' process_promise k))"

text \<open>The two overloads: the awaiting coroutine is the process, or another method task.\<close>

definition updateSuspend :: "cid \<Rightarrow> cid \<Rightarrow> ('st, 'm) CoStore \<Rightarrow> ('st, 'm) CoStore option" where
  "updateSuspend par our k =
     (let k = upd_co our (\<lambda>co. co\<lparr>parent := Some par\<rparr>) k;
          k = upd_co par (\<lambda>co. co\<lparr>subCoroutineChild := Some our\<rparr>) k
      in case (cos k par, cos k our) of
           (Some pco, Some oco) \<Rightarrow>
             (if isProcess pco
              then (if processPromise oco = None then updateProcessPromise our par k else Some k)
              else case processPromise pco of
                     Some pp \<Rightarrow> if processPromise oco = None then updateProcessPromise our pp k else Some k
                   | None \<Rightarrow> Some k)
         | _ \<Rightarrow> None)"

text \<open>\<open>IWaiting::await_suspend\<close>.\<close>

definition await_suspend :: "cid \<Rightarrow> Awaitable \<Rightarrow> ('st, 'm) CoStore \<Rightarrow> ('st, 'm) CoStore" where
  "await_suspend h w k =
     (let k = upd_co h (\<lambda>co. co\<lparr>waiting := Some w\<rparr>) k
      in case cos k h of
           None \<Rightarrow> k
         | Some co \<Rightarrow>
             (case processPromise co of
                None \<Rightarrow> k
              | Some pp \<Rightarrow> upd_co pp (\<lambda>co. co\<lparr>nextChild := Some h\<rparr>) k))"

text \<open>\<open>MethodTaskBase::await_ready\<close>.\<close>

definition task_await_ready :: "('st, 'm) Coroutine option \<Rightarrow> bool" where
  "task_await_ready co =
     (case co of
        None \<Rightarrow> True
      | Some co \<Rightarrow> finalValue co \<noteq> None \<or> \<not> (subCoroutineChild co \<noteq> None \<or> waiting co \<noteq> None))"

section \<open>Running coroutines\<close>

text \<open>
  Run the coroutine \<open>self\<close> from code \<open>cd\<close> until control comes back to whoever resumed or called it.
  A method task starts at once; its caller looks at the task when it comes back. A method task that
  ends resumes the coroutine that awaits it from its own final suspension; the task object of the
  \<open>co_await\<close> expression is then destroyed.
\<close>

fun run_coroutine :: "nat \<Rightarrow> ('st, 'm) program \<Rightarrow> addr \<Rightarrow> cid \<Rightarrow> ('st, 'm) code \<Rightarrow> ('st, 'm) CoStore \<Rightarrow>
    ('st, 'm) Context \<Rightarrow> (('st, 'm) CoStore, ('st, 'm) Context) res" where
  "run_coroutine 0 P this self cd k c = NoFuel"
| "run_coroutine (Suc n) P this self (CoReturn v) k c =
     (case cos k self of
        None \<Rightarrow> Undef UseAfterFree
      | Some co \<Rightarrow>
          let k = upd_co self (\<lambda>co. co\<lparr>finalValue := Some v\<rparr>) k in
          if isProcess co then Ret k c
          else
            (case parent co of
               None \<Rightarrow> Ret k c
             | Some p \<Rightarrow>
                 (case cos k p of
                    None \<Rightarrow> Undef UseAfterFree
                  | Some pco \<Rightarrow>
                      (case suspendedAt pco of
                         None \<Rightarrow> Undef NullDeref
                       | Some (_, f) \<Rightarrow>
                           run_coroutine n P this p (frame_code P f v)
                             (del_co self (upd_co p (\<lambda>co. co\<lparr>subCoroutineChild := None\<rparr>) k)) c))))"
| "run_coroutine (Suc n) P this self (CoThrow e) k c = Throw e c"
| "run_coroutine (Suc n) P this self (CoCall r kont) k c =
     res_bind (do_call this r c) (\<lambda>v c. run_coroutine n P this self (kont v) k c)"
| "run_coroutine (Suc n) P this self (CoAwait w f) k c =
     (case await_ready (slots c) (promise_at c) (underlying w) of
        None \<Rightarrow> Undef DanglingSlot
      | Some True \<Rightarrow> res_bind (finish_await w c) (\<lambda>v c. run_coroutine n P this self (frame_code P f v) k c)
      | Some False \<Rightarrow>
          Ret (await_suspend self w (upd_co self (\<lambda>co. co\<lparr>suspendedAt := Some (Some w, f)\<rparr>) k)) c)"
| "run_coroutine (Suc n) P this self (CoMethod cd f) k c =
     (let (q, k) = new_co k in
      res_bind (run_coroutine n P this q cd k c) (\<lambda>k c.
        if task_await_ready (cos k q)
        then
          (case cos k q of
             None \<Rightarrow> Undef NullDeref
           | Some co \<Rightarrow>
               (case finalValue co of
                  None \<Rightarrow> Undef EmptyOptional
                | Some v \<Rightarrow> run_coroutine n P this self (frame_code P f v) (del_co q k) c))
        else
          (case updateSuspend self q (upd_co self (\<lambda>co. co\<lparr>suspendedAt := Some (None, f)\<rparr>) k) of
             None \<Rightarrow> Undef UseAfterFree
           | Some k \<Rightarrow> Ret k c)))"

text \<open>
  \<open>ProcessTask::resume\<close> on the coroutine \<open>root\<close> of the process: \<open>None\<close> when it has ended, otherwise
  the awaitable the process waits for (a null pointer would be \<open>Some None\<close>).
\<close>

definition resume_handle :: "nat \<Rightarrow> ('st, 'm) program \<Rightarrow> addr \<Rightarrow> cid \<Rightarrow> ('st, 'm) CoStore \<Rightarrow>
    ('st, 'm) Context \<Rightarrow> (('st, 'm) CoStore, ('st, 'm) Context) res" where
  "resume_handle n P this x k c =
     (case cos k x of
        None \<Rightarrow> Undef UseAfterFree
      | Some co \<Rightarrow>
          (case suspendedAt co of
             None \<Rightarrow> Undef NullDeref
           | Some (None, f) \<Rightarrow> run_coroutine n P this x (frame_code P f AUnit) k c
           | Some (Some w, f) \<Rightarrow>
               res_bind (finish_await w c) (\<lambda>v c. run_coroutine n P this x (frame_code P f v) k c)))"

definition ProcessTask_resume :: "nat \<Rightarrow> ('st, 'm) program \<Rightarrow> addr \<Rightarrow> cid \<Rightarrow> ('st, 'm) CoStore \<Rightarrow>
    ('st, 'm) Context \<Rightarrow> (Awaitable option option \<times> ('st, 'm) CoStore, ('st, 'm) Context) res" where
  "ProcessTask_resume n P this root k c =
     (case cos k root of
        None \<Rightarrow> Undef NullDeref
      | Some rt \<Rightarrow>
          let child = nextChild rt;
              k = upd_co root (\<lambda>co. co\<lparr>waiting := None, nextChild := None\<rparr>) k
          in res_bind (resume_handle n P this (case child of Some ch \<Rightarrow> ch | None \<Rightarrow> root) k c) (\<lambda>k c.
               case cos k root of
                 None \<Rightarrow> Undef NullDeref
               | Some rt \<Rightarrow>
                   if finalValue rt \<noteq> None then Ret (None, del_co root k) c
                   else (case nextChild rt of
                           Some ch \<Rightarrow>
                             (case cos k ch of
                                None \<Rightarrow> Undef UseAfterFree
                              | Some co \<Rightarrow> Ret (Some (waiting co), k) c)
                         | None \<Rightarrow> Ret (Some (waiting rt), k) c)))"

section \<open>The stack behind the pointers\<close>

text \<open>
  \<open>chain k pp ch w xs fs\<close>: the coroutines \<open>xs\<close>, innermost first, are suspended at the frames \<open>fs\<close>,
  every one awaiting the one before it (the first has child \<open>ch\<close> and is suspended on \<open>w\<close>) and none
  finished. \<open>pp\<close> is the process they are linked to, if they are linked to one.
\<close>

definition own_process :: "cid option \<Rightarrow> cid \<Rightarrow> cid option" where
  "own_process pp x = (if pp = Some x then None else pp)"

fun hd_option :: "'a list \<Rightarrow> 'a option" where
  "hd_option [] = None"
| "hd_option (x # xs) = Some x"

definition linked_co :: "cid option \<Rightarrow> cid option \<Rightarrow> cid list \<Rightarrow> cid \<Rightarrow> ('st, 'm) Coroutine \<Rightarrow> bool" where
  "linked_co pp ch xs x co \<longleftrightarrow> finalValue co = None \<and> subCoroutineChild co = ch \<and> parent co = hd_option xs
     \<and> processPromise co = own_process pp x \<and> isProcess co = (pp = Some x)"

fun chain :: "('st, 'm) coroutines \<Rightarrow> cid option \<Rightarrow> cid option \<Rightarrow> Awaitable option \<Rightarrow> cid list \<Rightarrow>
    ('st, 'm) frame list \<Rightarrow> bool" where
  "chain k pp ch w [] [] = True"
| "chain k pp ch w (x # xs) (f # fs) =
     ((\<exists>co. k x = Some co \<and> linked_co pp ch xs x co \<and> suspendedAt co = Some (w, f))
      \<and> chain k pp (Some x) None xs fs)"
| "chain k pp ch w _ _ = False"

definition store_ok :: "('st, 'm) CoStore \<Rightarrow> bool" where
  "store_ok k \<longleftrightarrow> (\<forall>x\<ge>next_co k. cos k x = None)"

text \<open>The coroutine \<open>self\<close> runs, and the coroutines \<open>xs\<close> wait for it.\<close>

definition running :: "('st, 'm) CoStore \<Rightarrow> cid option \<Rightarrow> cid \<Rightarrow> cid list \<Rightarrow> ('st, 'm) frame list \<Rightarrow> bool" where
  "running k pp self xs fs \<longleftrightarrow> store_ok k \<and> distinct (self # xs)
     \<and> (\<exists>co. cos k self = Some co \<and> linked_co pp None xs self co)
     \<and> chain (cos k) pp (Some self) None xs fs
     \<and> (case pp of
          None \<Rightarrow> xs = []
        | Some r \<Rightarrow> last (self # xs) = r \<and> (\<exists>rt. cos k r = Some rt \<and> nextChild rt = None))"

text \<open>
  All of \<open>xs\<close> are suspended, the innermost on \<open>w\<close>. Unless they are detached, the last one is the
  process, and it knows the innermost one.
\<close>

definition suspended :: "('st, 'm) CoStore \<Rightarrow> cid option \<Rightarrow> Awaitable \<Rightarrow> cid list \<Rightarrow> ('st, 'm) frame list \<Rightarrow> bool" where
  "suspended k pp w xs fs \<longleftrightarrow> store_ok k \<and> distinct xs \<and> xs \<noteq> []
     \<and> chain (cos k) pp None (Some w) xs fs
     \<and> (\<exists>co. cos k (hd xs) = Some co \<and> waiting co = Some w)
     \<and> (case pp of
          None \<Rightarrow> True
        | Some r \<Rightarrow> last xs = r \<and> (\<exists>rt. cos k r = Some rt \<and> nextChild rt = (if hd xs = r then None else Some (hd xs))))"

lemma chain_length: "chain k pp ch w xs fs \<Longrightarrow> length fs = length xs"
  by (induction k pp ch w xs fs rule: chain.induct) auto

text \<open>Changes elsewhere do not matter, nor does a change of the members the chain does not look at.\<close>

lemma chain_cong:
  assumes "\<And>x. x \<in> set xs \<Longrightarrow> k' x = k x"
  shows "chain k' pp ch w xs fs = chain k pp ch w xs fs"
  using assms by (induction k pp ch w xs fs rule: chain.induct) auto

definition same_links :: "('st, 'm) Coroutine \<Rightarrow> ('st, 'm) Coroutine \<Rightarrow> bool" where
  "same_links a b \<longleftrightarrow> finalValue a = finalValue b \<and> subCoroutineChild a = subCoroutineChild b
     \<and> parent a = parent b \<and> processPromise a = processPromise b \<and> isProcess a = isProcess b
     \<and> suspendedAt a = suspendedAt b"

lemma chain_same_links:
  assumes "\<And>x. x \<in> set xs \<Longrightarrow> rel_option same_links (k x) (k' x)"
  shows "chain k pp ch w xs fs \<Longrightarrow> chain k' pp ch w xs fs"
  using assms
proof (induction k pp ch w xs fs rule: chain.induct)
  case (2 k pp ch w x xs f fs)
  from "2.prems"(1) obtain co where co: "k x = Some co" "linked_co pp ch xs x co" "suspendedAt co = Some (w, f)"
    by auto
  from "2.prems"(2) [of x] co(1) obtain co' where "k' x = Some co'" "same_links co co'"
    by (auto simp: option_rel_Some1)
  with co 2 show ?case by (auto simp: same_links_def linked_co_def)
qed simp_all

lemma last_tl_own: "distinct (x # xs) \<Longrightarrow> xs \<noteq> [] \<Longrightarrow> last (x # xs) = r \<Longrightarrow> own_process (Some r) x = Some r \<and> x \<noteq> r"
  by (auto simp: own_process_def)

section \<open>Walking down the chain\<close>

fun down :: "('st, 'm) coroutines \<Rightarrow> cid list \<Rightarrow> bool" where
  "down k [] = False"
| "down k [y] = (\<exists>co. k y = Some co \<and> subCoroutineChild co = None)"
| "down k (y # z # zs) = ((\<exists>co. k y = Some co \<and> subCoroutineChild co = Some z) \<and> down k (z # zs))"

lemma chain_down_append:
  "chain k pp (Some z) w xs fs \<Longrightarrow> down k (z # zs) \<Longrightarrow> down k (rev xs @ z # zs)"
proof (induction k pp "Some z" w xs fs arbitrary: z zs rule: chain.induct)
  case (2 k pp w x xs f fs)
  then have "down k (x # z # zs)" by (auto simp: linked_co_def)
  with 2 show ?case by simp
qed simp_all

lemma chain_down:
  assumes "chain k pp None w xs fs" and "xs \<noteq> []"
  shows "down k (rev xs)"
proof -
  obtain x ys f gs where e: "xs = x # ys" "fs = f # gs" using assms by (cases xs; cases fs) auto
  with assms(1) have "down k [x]" "chain k pp (Some x) None ys gs" by (auto simp: linked_co_def)
  then show ?thesis using chain_down_append [of k pp x None ys gs "[]"] e by simp
qed

definition link_to :: "cid \<Rightarrow> cid list \<Rightarrow> cid \<Rightarrow> ('st, 'm) Coroutine \<Rightarrow> ('st, 'm) Coroutine" where
  "link_to r ys x co =
     (let co = (if x \<in> set ys then co\<lparr>processPromise := Some r\<rparr> else co)
      in if x = r then co\<lparr>nextChild := Some (last ys)\<rparr> else co)"

lemma down_upd:
  assumes "\<And>x. k' x = map_option (g x) (k x)" and "\<And>x co. subCoroutineChild (g x co) = subCoroutineChild co"
  shows "down k ys \<Longrightarrow> down k' ys"
  by (induction ys rule: induct_list012) (auto simp: assms)

text \<open>The walk ends, and it leaves \<open>nextChild\<close> at the innermost coroutine.\<close>

lemma updateProcessPromise_down:
  assumes "down (cos k) ys" and "r \<notin> set ys"
  shows "updateProcessPromise (hd ys) r k
    = Some (k\<lparr>cos := \<lambda>x. map_option (link_to r ys x) (cos k x)\<rparr>)"
  using assms
proof (induction ys arbitrary: k)
  case Nil
  then show ?case by simp
next
  case (Cons y zs)
  let ?k1 = "upd_co r (\<lambda>co. co\<lparr>nextChild := Some y\<rparr>) (upd_co y (\<lambda>co. co\<lparr>processPromise := Some r\<rparr>) k)"
  have ne: "y \<noteq> r" using Cons.prems(2) by auto
  have k1: "cos ?k1 x = map_option (link_to r [y] x) (cos k x)" for x
    using ne by (cases "cos k x") (auto simp: upd_co_def link_to_def Let_def)
  show ?case
  proof (cases zs)
    case Nil
    have "updateProcessPromise y r k = Some ?k1"
      using Cons.prems Nil by (auto simp: updateProcessPromise.simps)
    moreover have "cos ?k1 = (\<lambda>x. map_option (link_to r [y] x) (cos k x))" by (rule ext) (rule k1)
    then have "?k1 = k\<lparr>cos := \<lambda>x. map_option (link_to r [y] x) (cos k x)\<rparr>" by (simp add: upd_co_def)
    ultimately show ?thesis using Nil by simp
  next
    case (Cons z zs')
    have "down (cos k) zs" using Cons.prems(1) \<open>zs = z # zs'\<close> by simp
    then have "down (cos ?k1) zs" by (rule down_upd [OF k1, rotated]) (simp add: link_to_def Let_def)
    from Cons.IH [OF this] Cons.prems \<open>zs = z # zs'\<close> ne
    have "updateProcessPromise y r k = Some (?k1\<lparr>cos := \<lambda>x. map_option (link_to r zs x) (cos ?k1 x)\<rparr>)"
      by (subst updateProcessPromise.simps) (auto simp: Let_def)
    moreover have "map_option (link_to r zs x) (cos ?k1 x) = map_option (link_to r (y # zs) x) (cos k x)" for x
      unfolding k1 using \<open>zs = z # zs'\<close>
      by (auto simp: link_to_def option.map_comp o_def intro!: option.map_cong)
    ultimately show ?thesis by (simp add: upd_co_def)
  qed
qed

section \<open>Attaching a suspended task to the coroutine that awaits it\<close>

definition attached :: "cid option \<Rightarrow> cid \<Rightarrow> cid list \<Rightarrow> cid \<Rightarrow> ('st, 'm) Coroutine \<Rightarrow> ('st, 'm) Coroutine" where
  "attached pp self xs x co =
     (let co = (if x \<in> set xs
                then co\<lparr>processPromise := pp, parent := (if x = last xs then Some self else parent co)\<rparr> else co);
          co = (if x = self then co\<lparr>subCoroutineChild := Some (last xs)\<rparr> else co)
      in if pp = Some x then co\<lparr>nextChild := Some (hd xs)\<rparr> else co)"

lemma waiting_attached:
  "waiting (attached pp self xs x co) = waiting co"
  "nextChild (attached pp self xs x co) = (if pp = Some x then Some (hd xs) else nextChild co)"
  by (simp_all add: attached_def Let_def)

lemma chain_elem:
  "chain k pp ch w xs fs \<Longrightarrow> x \<in> set xs \<Longrightarrow> \<exists>co. k x = Some co \<and> processPromise co = own_process pp x"
  by (induction k pp ch w xs fs rule: chain.induct) (auto simp: linked_co_def)

text \<open>The store after the two pointers between caller and callee are set, and before the walk.\<close>

definition joined :: "cid \<Rightarrow> cid \<Rightarrow> ('st, 'm) CoStore \<Rightarrow> ('st, 'm) CoStore" where
  "joined self q k = upd_co self (\<lambda>co. co\<lparr>subCoroutineChild := Some q\<rparr>) (upd_co q (\<lambda>co. co\<lparr>parent := Some self\<rparr>) k)"

lemma cos_joined:
  "q \<noteq> self \<Longrightarrow> cos (joined self q k) x = map_option (\<lambda>co. if x = q then co\<lparr>parent := Some self\<rparr>
      else if x = self then co\<lparr>subCoroutineChild := Some q\<rparr> else co) (cos k x)"
  by (auto simp: joined_def upd_co_def option.map_ident intro!: option.map_cong)

lemma down_joined:
  assumes "down (cos k) ys" and "self \<notin> set ys" and "q \<noteq> self"
  shows "down (cos (joined self q k)) ys"
proof -
  have "\<exists>co'. cos (joined self q k) x = Some co' \<and> subCoroutineChild co' = subCoroutineChild co"
    if "cos k x = Some co" "x \<noteq> self" for x co
    using that assms(3) by (simp add: cos_joined)
  then show ?thesis using assms(1,2) by (induction ys rule: induct_list012) fastforce+
qed

lemma joined_linked:
  assumes "q = last xs" "xs \<noteq> []" "self \<notin> set xs" "r \<notin> set xs"
  shows "(joined self q k)\<lparr>cos := \<lambda>x. map_option (link_to r (rev xs) x) (cos (joined self q k) x)\<rparr>
    = k\<lparr>cos := \<lambda>x. map_option (attached (Some r) self xs x) (cos k x)\<rparr>"
proof -
  have q: "q \<in> set xs" "q \<noteq> self" using assms by auto
  have "map_option (link_to r (rev xs) x) (cos (joined self q k) x) = map_option (attached (Some r) self xs x) (cos k x)" for x
    unfolding cos_joined [OF q(2)] using q assms
    by (auto simp: attached_def link_to_def option.map_comp o_def last_rev Let_def intro!: option.map_cong)
  then show ?thesis by (simp add: joined_def upd_co_def)
qed

lemma joined_detached:
  assumes c: "chain (cos k) None None w xs fs" and "q = last xs" "xs \<noteq> []" "self \<notin> set xs"
  shows "joined self q k = k\<lparr>cos := \<lambda>x. map_option (attached None self xs x) (cos k x)\<rparr>"
proof -
  have q: "q \<in> set xs" "q \<noteq> self" using assms by auto
  have "cos (joined self q k) x = map_option (attached None self xs x) (cos k x)" for x
  proof (cases "x \<in> set xs")
    case True
    with chain_elem [OF c True] assms q(2) show ?thesis
      by (auto simp: cos_joined attached_def own_process_def Let_def)
  next
    case False
    with q assms show ?thesis by (auto simp: cos_joined attached_def Let_def intro!: option.map_cong)
  qed
  then have "cos (joined self q k) = (\<lambda>x. map_option (attached None self xs x) (cos k x))" by blast
  then show ?thesis by (simp add: joined_def upd_co_def)
qed

lemma updateSuspend_attaches:
  assumes c: "chain (cos k) None None w xs fs" and ne: "xs \<noteq> []"
    and self: "cos k self = Some sco" "processPromise sco = own_process pp self" "isProcess sco = (pp = Some self)"
    and fresh: "self \<notin> set xs" "\<And>r. pp = Some r \<Longrightarrow> r \<notin> set xs"
  shows "updateSuspend self (last xs) k = Some (k\<lparr>cos := \<lambda>x. map_option (attached pp self xs x) (cos k x)\<rparr>)"
proof -
  let ?q = "last xs"
  let ?k = "joined self ?q k"
  have q: "?q \<in> set xs" "?q \<noteq> self" using ne fresh(1) by auto
  obtain qco where qco: "cos k ?q = Some qco" "processPromise qco = None"
    using chain_elem [OF c q(1)] by (auto simp: own_process_def)
  have look: "cos ?k self = Some (sco\<lparr>subCoroutineChild := Some ?q\<rparr>)" "cos ?k ?q = Some (qco\<lparr>parent := Some self\<rparr>)"
    using self(1) qco(1) q(2) by (simp_all add: cos_joined)
  show ?thesis
  proof (cases pp)
    case None
    with look self(2,3) have "updateSuspend self ?q k = Some ?k"
      by (simp add: updateSuspend_def joined_def Let_def own_process_def)
    with joined_detached [OF c refl ne fresh(1)] None show ?thesis by simp
  next
    case (Some r)
    with look self(2,3) qco(2) have "updateSuspend self ?q k = updateProcessPromise ?q r ?k"
      by (simp add: updateSuspend_def joined_def Let_def own_process_def split: if_splits)
    moreover have "down (cos ?k) (rev xs)" using down_joined [OF chain_down [OF c ne]] fresh(1) q(2) by simp
    ultimately show ?thesis
      using updateProcessPromise_down [of ?k "rev xs" r] joined_linked [OF refl ne fresh(1) fresh(2) [OF Some]] Some fresh(2) ne
      by (simp add: hd_rev)
  qed
qed

lemma chain_attached:
  assumes "chain k None ch w ys gs" and "ys \<noteq> []" and "distinct ys"
    and "\<And>x. x \<in> set ys \<Longrightarrow> k' x = map_option (\<lambda>co. co\<lparr>processPromise := pp,
      parent := (if x = last ys then Some y else parent co)\<rparr>) (k x)"
    and "\<And>x. x \<in> set ys \<Longrightarrow> pp \<noteq> Some x"
    and "chain k' pp (Some (last ys)) None (y # xs) (f # fs)"
  shows "chain k' pp ch w (ys @ y # xs) (gs @ f # fs)"
  using assms
proof (induction ys arbitrary: ch w gs)
  case Nil
  then show ?case by simp
next
  case (Cons x zs)
  obtain g hs where gs: "gs = g # hs" using Cons.prems(1) by (cases gs) auto
  show ?case
  proof (cases "zs = []")
    case True
    with Cons.prems gs show ?thesis by (cases hs) (auto simp: linked_co_def own_process_def)
  next
    case False
    have "chain k' pp (Some x) None (zs @ y # xs) (hs @ f # fs)"
      by (rule Cons.IH) (use Cons.prems gs False in \<open>auto\<close>)
    moreover have "x \<noteq> last zs" using Cons.prems(3) False by auto
    moreover obtain z zs' where "zs = z # zs'" using False by (cases zs) auto
    ultimately show ?thesis using Cons.prems(1,4,5) gs by (auto simp: linked_co_def own_process_def)
  qed
qed

lemma running_frame:
  assumes "running k pp self xs fs" and "store_ok k'" and eq: "\<And>x. x \<in> set (self # xs) \<Longrightarrow> cos k' x = cos k x"
  shows "running k' pp self xs fs"
proof -
  have "chain (cos k') pp (Some self) None xs fs = chain (cos k) pp (Some self) None xs fs"
    by (rule chain_cong) (simp add: eq)
  moreover have "cos k' (last (self # xs)) = cos k (last (self # xs))" by (rule eq) (rule last_in_set, simp)
  ultimately show ?thesis using assms by (auto simp: running_def split: option.splits)
qed

lemma upd_co_simps [simp]:
  "cos (upd_co x f k) y = (if y = x then map_option f (cos k x) else cos k y)"
  "next_co (upd_co x f k) = next_co k" "store_ok (upd_co x f k) = store_ok k"
  "cos (del_co x k) y = (if y = x then None else cos k y)" "next_co (del_co x k) = next_co k"
  "store_ok k \<Longrightarrow> store_ok (del_co x k)"
  by (auto simp: upd_co_def del_co_def store_ok_def)

text \<open>A task that came back suspended, awaited by \<open>self\<close>: everything is suspended then.\<close>

lemma attach_suspended:
  assumes run: "running k pp self xs fs" and sus: "suspended k None w ys gs"
    and dis: "set ys \<inter> set (self # xs) = {}"
  shows "\<exists>k2. updateSuspend self (last ys) (upd_co self (\<lambda>co. co\<lparr>suspendedAt := Some (None, f)\<rparr>) k) = Some k2
    \<and> suspended k2 pp w (ys @ self # xs) (gs @ f # fs) \<and> next_co k2 = next_co k
    \<and> (pp = None \<longrightarrow> (\<forall>x. x \<notin> set ys \<longrightarrow> x \<noteq> self \<longrightarrow> cos k2 x = cos k x))"
proof -
  let ?k1 = "upd_co self (\<lambda>co. co\<lparr>suspendedAt := Some (None, f)\<rparr>) k"
  let ?k2 = "?k1\<lparr>cos := \<lambda>x. map_option (attached pp self ys x) (cos ?k1 x)\<rparr>"
  obtain co where co: "cos k self = Some co" "linked_co pp None xs self co"
    using run by (auto simp: running_def)
  have ys: "ys \<noteq> []" "distinct ys" "chain (cos k) None None (Some w) ys gs" "store_ok k"
    using sus by (auto simp: suspended_def)
  have root: "r \<in> set (self # xs)" "last (self # xs) = r" "\<exists>rt. cos k r = Some rt" if "pp = Some r" for r
    using run that last_in_set [of "self # xs"] by (auto simp: running_def)
  have npp: "pp \<noteq> Some x" if "x \<in> set ys" for x using root(1) [of x] dis that by blast
  have "chain (cos ?k1) None None (Some w) ys gs"
    using ys(3) by (subst chain_cong [of ys "cos ?k1" "cos k"]) (use dis in auto)
  then have upd: "updateSuspend self (last ys) ?k1 = Some ?k2"
    by (rule updateSuspend_attaches [where sco = "co\<lparr>suspendedAt := Some (None, f)\<rparr>"])
      (use ys co dis root in \<open>auto simp: linked_co_def\<close>)
  have above: "chain (cos ?k2) pp (Some (last ys)) None (self # xs) (f # fs)"
  proof -
    have "chain (cos k) pp (Some self) None xs fs" using run by (simp add: running_def)
    then have "chain (cos ?k2) pp (Some self) None xs fs"
      by (rule chain_same_links [rotated])
        (use dis run in \<open>auto simp: running_def attached_def Let_def same_links_def option.rel_map
          intro!: option.rel_refl\<close>)
    moreover have "last ys \<noteq> self" "self \<notin> set ys" using dis ys(1) by auto
    ultimately show ?thesis using co by (auto simp: attached_def linked_co_def Let_def)
  qed
  have "chain (cos ?k2) pp None (Some w) (ys @ self # xs) (gs @ f # fs)"
    by (rule chain_attached [OF ys(3,1,2) _ npp above])
      (use dis npp in \<open>auto simp: attached_def Let_def intro!: option.map_cong\<close>)
  moreover have "\<exists>co. cos ?k2 (hd ys) = Some co \<and> waiting co = Some w"
    using sus dis ys(1) hd_in_set [OF ys(1)] by (auto simp: suspended_def waiting_attached)
  moreover have "\<exists>rt. cos ?k2 r = Some rt \<and> nextChild rt = Some (hd ys)" "hd ys \<noteq> r" if "pp = Some r" for r
    using root [OF that] that dis hd_in_set [OF ys(1)] co(1) by (auto simp: waiting_attached)
  moreover have "store_ok ?k2" using ys(4) by (auto simp: store_ok_def)
  moreover have "distinct (ys @ self # xs)" using run dis ys(2) by (auto simp: running_def)
  ultimately have "suspended ?k2 pp w (ys @ self # xs) (gs @ f # fs)"
    using ys(1) root(2) by (auto simp: suspended_def split: option.split)
  moreover have "cos ?k2 x = cos k x" if "pp = None" "x \<notin> set ys" "x \<noteq> self" for x
    using that by (cases "cos k x") (auto simp: attached_def)
  ultimately show ?thesis using upd by auto
qed

section \<open>The pointer program implements the stack\<close>

text \<open>
  What a run of the coroutine \<open>self\<close> achieves, compared with the result \<open>r\<close> that running the same
  code above the stack gives (\<open>gs\<close> are frames further out, on the C++ stack): control comes back with
  everything down to \<open>tp\<close> suspended as \<open>r\<close> says, or \<open>tp\<close> has returned and \<open>r\<close> is what the frames
  further out make of its value.
\<close>

definition run_post :: "nat \<Rightarrow> ('st, 'm) program \<Rightarrow> addr \<Rightarrow> ('st, 'm) frame list \<Rightarrow>
    (('st, 'm) ProcessTask option, ('st, 'm) Context) res \<Rightarrow> ('st, 'm) CoStore \<Rightarrow> cid option \<Rightarrow> cid \<Rightarrow> cid \<Rightarrow>
    ('st, 'm) CoStore \<Rightarrow> ('st, 'm) Context \<Rightarrow> bool" where
  "run_post n P this gs r k pp self tp k' c' \<longleftrightarrow>
     store_ok k' \<and> next_co k \<le> next_co k' \<and> (pp = None \<longrightarrow> (\<forall>x<next_co k. x \<noteq> self \<longrightarrow> cos k' x = cos k x))
     \<and> ((\<exists>w ys hs. suspended k' pp w ys hs \<and> last ys = tp \<and> (pp = None \<longrightarrow> (\<forall>y\<in>set ys. y = self \<or> next_co k \<le> y))
            \<and> r = Ret (Some (Some w, hs @ gs)) c')
        \<or> (\<exists>v m co. m \<le> n \<and> cos k' tp = Some co \<and> finalValue co = Some v
            \<and> exec_code m P this (CoReturn v) gs c' = r))"

primrec refines :: "nat \<Rightarrow> ('st, 'm) program \<Rightarrow> addr \<Rightarrow> ('st, 'm) frame list \<Rightarrow>
    (('st, 'm) ProcessTask option, ('st, 'm) Context) res \<Rightarrow> ('st, 'm) CoStore \<Rightarrow> cid option \<Rightarrow> cid \<Rightarrow> cid \<Rightarrow>
    (('st, 'm) CoStore, ('st, 'm) Context) res \<Rightarrow> bool" where
  "refines n P this gs r k pp self tp (Ret k' c') = run_post n P this gs r k pp self tp k' c'"
| "refines n P this gs r k pp self tp (Throw e c') = (r = Throw e c')"
| "refines n P this gs r k pp self tp (Undef u) = (r = Undef u)"
| "refines n P this gs r k pp self tp NoFuel = False"

lemma run_post_trans:
  assumes "run_post m P this gs r k1 pp self tp k' c'" and "m \<le> n" and "next_co k \<le> next_co k1"
    and "pp = None \<Longrightarrow> (\<forall>x<next_co k. x \<noteq> self \<longrightarrow> cos k1 x = cos k x)"
  shows "run_post n P this gs r k pp self tp k' c'"
proof -
  have "store_ok k'" "next_co k \<le> next_co k'" "pp = None \<longrightarrow> (\<forall>x<next_co k. x \<noteq> self \<longrightarrow> cos k' x = cos k x)"
    using assms by (auto simp: run_post_def)
  moreover from assms(1) consider
      (sus) w ys hs where "suspended k' pp w ys hs" "last ys = tp"
        "pp = None \<Longrightarrow> \<forall>y\<in>set ys. y = self \<or> next_co k1 \<le> y" "r = Ret (Some (Some w, hs @ gs)) c'"
    | (fin) v m' co where "m' \<le> m" "cos k' tp = Some co" "finalValue co = Some v"
        "exec_code m' P this (CoReturn v) gs c' = r"
    unfolding run_post_def by blast
  then have "(\<exists>w ys hs. suspended k' pp w ys hs \<and> last ys = tp \<and> (pp = None \<longrightarrow> (\<forall>y\<in>set ys. y = self \<or> next_co k \<le> y))
            \<and> r = Ret (Some (Some w, hs @ gs)) c')
        \<or> (\<exists>v m co. m \<le> n \<and> cos k' tp = Some co \<and> finalValue co = Some v
            \<and> exec_code m P this (CoReturn v) gs c' = r)"
  proof cases
    case sus
    then have "pp = None \<longrightarrow> (\<forall>y\<in>set ys. y = self \<or> next_co k \<le> y)" using assms(3) le_trans by blast
    with sus show ?thesis by blast
  next
    case fin
    then show ?thesis using le_trans [OF _ assms(2)] by blast
  qed
  ultimately show ?thesis unfolding run_post_def by blast
qed

lemma refines_trans:
  assumes "refines m P this gs r k1 pp self tp q" and "m \<le> n" and "next_co k \<le> next_co k1"
    and "pp = None \<Longrightarrow> (\<forall>x<next_co k. x \<noteq> self \<longrightarrow> cos k1 x = cos k x)"
  shows "refines n P this gs r k pp self tp q"
  using assms(1) run_post_trans [OF _ assms(2-4)] by (cases q) simp_all

lemma running_new_co:
  assumes "running k pp self xs fs" and "new_co k = (q, k1)"
  shows "running k1 None q [] []" and "running k1 pp self xs fs" and "q = next_co k" and "next_co k1 = Suc q"
    and "\<And>x. x < q \<Longrightarrow> cos k1 x = cos k x" and "set (self # xs) \<subseteq> {..<q}"
proof -
  have q: "q = next_co k" "k1 = k\<lparr>cos := (cos k)(q \<mapsto> MethodTaskPromise_init), next_co := Suc q\<rparr>"
    using assms(2) by (auto simp: new_co_def)
  have ok: "store_ok k" using assms(1) by (simp add: running_def)
  show "q = next_co k" "next_co k1 = Suc q" using q by simp_all
  show low: "cos k1 x = cos k x" if "x < q" for x using that q by simp
  have "x < q" if "x \<in> set (self # xs)" for x
  proof -
    have "\<exists>co. cos k x = Some co"
      using assms(1) that chain_elem [of "cos k" pp "Some self" None xs fs x] by (auto simp: running_def)
    then show ?thesis using ok q(1) by (metis not_le option.distinct(1) store_ok_def)
  qed
  then show "set (self # xs) \<subseteq> {..<q}" by auto
  have ok1: "store_ok k1" using ok q by (auto simp: store_ok_def)
  then show "running k1 None q [] []"
    using q by (auto simp: running_def MethodTaskPromise_init_def linked_co_def own_process_def)
  show "running k1 pp self xs fs"
    by (rule running_frame [OF assms(1) ok1]) (use \<open>set (self # xs) \<subseteq> {..<q}\<close> low in auto)
qed

lemma await_suspended:
  assumes run: "running k pp self xs fs"
    and k1_def: "k1 = upd_co self (\<lambda>co. co\<lparr>suspendedAt := Some (Some w, f)\<rparr>) k"
  shows "suspended (await_suspend self w k1) pp w (self # xs) (f # fs)"
    and "next_co (await_suspend self w k1) = next_co k"
    and "pp = None \<Longrightarrow> x \<noteq> self \<Longrightarrow> cos (await_suspend self w k1) x = cos k x"
proof -
  obtain co where co: "cos k self = Some co" "linked_co pp None xs self co"
    using run by (auto simp: running_def)
  let ?k2 = "await_suspend self w k1"
  have look: "cos ?k2 x = map_option (\<lambda>co.
      let co = (if x = self then co\<lparr>suspendedAt := Some (Some w, f), waiting := Some w\<rparr> else co)
      in if pp = Some x \<and> x \<noteq> self then co\<lparr>nextChild := Some self\<rparr> else co) (cos k x)" for x
    using co by (cases "cos k x")
      (auto simp: await_suspend_def k1_def Let_def linked_co_def own_process_def split: option.split)
  have "store_ok k" "distinct (self # xs)" using run by (simp_all add: running_def)
  have "chain (cos k) pp (Some self) None xs fs" using run by (simp add: running_def)
  then have "chain (cos ?k2) pp (Some self) None xs fs"
    by (rule chain_same_links [rotated])
      (use run in \<open>auto simp: look running_def same_links_def option.rel_map Let_def intro!: option.rel_refl\<close>)
  moreover have self: "cos ?k2 self = Some (co\<lparr>suspendedAt := Some (Some w, f), waiting := Some w\<rparr>)"
    using co(1) by (simp add: look)
  ultimately have "chain (cos ?k2) pp None (Some w) (self # xs) (f # fs)"
    using co(2) by (simp add: linked_co_def)
  moreover have "\<exists>rt. cos ?k2 r = Some rt \<and> nextChild rt = (if self = r then None else Some self)"
    if "pp = Some r" for r
    using run that by (auto simp: running_def look Let_def)
  moreover have "store_ok ?k2" using \<open>store_ok k\<close> co(1)
    by (auto simp: await_suspend_def k1_def Let_def split: option.split)
  ultimately show "suspended ?k2 pp w (self # xs) (f # fs)"
    using run self by (auto simp: suspended_def running_def split: option.splits)
  show "next_co ?k2 = next_co k"
    by (simp add: await_suspend_def k1_def Let_def split: option.split)
  show "cos ?k2 x = cos k x" if "pp = None" "x \<noteq> self" for x
    using that by (cases "cos k x") (simp_all add: look)
qed

lemma return_resumes:
  assumes run: "running k pp self (p # ps) (f # fs)"
  shows "running (del_co self (upd_co p (\<lambda>co. co\<lparr>subCoroutineChild := None\<rparr>)
    (upd_co self (\<lambda>co. co\<lparr>finalValue := v\<rparr>) k))) pp p ps fs" (is "running ?k pp p ps fs")
proof -
  have d: "distinct (self # p # ps)" and ok: "store_ok k" using run by (simp_all add: running_def)
  obtain pco where pco: "cos k p = Some pco" "linked_co pp (Some self) ps p pco" "chain (cos k) pp (Some p) None ps fs"
    using run by (auto simp: running_def)
  have "chain (cos ?k) pp (Some p) None ps fs"
    using pco(3) by (subst chain_cong [of ps "cos ?k" "cos k"]) (use d in auto)
  moreover have "cos ?k p = Some (pco\<lparr>subCoroutineChild := None\<rparr>)" using d pco(1) by simp
  moreover obtain r where r: "pp = Some r" "last (p # ps) = r" "\<exists>rt. cos k r = Some rt \<and> nextChild rt = None"
    using run by (auto simp: running_def split: option.splits)
  moreover have "r \<noteq> self" using r(2) d by (metis distinct.simps(2) last_in_set list.distinct(1))
  ultimately show ?thesis using ok d pco(1,2) by (auto simp: running_def linked_co_def)
qed

lemma return_lookup:
  assumes "running k pp self (p # ps) (f # fs)"
  shows "\<exists>co pco. cos k self = Some co \<and> \<not> isProcess co \<and> parent co = Some p \<and> p \<noteq> self
    \<and> cos k p = Some pco \<and> suspendedAt pco = Some (None, f)"
proof -
  obtain r where "pp = Some r" "last (self # p # ps) = r" "distinct (self # p # ps)"
    using assms by (auto simp: running_def split: option.splits)
  then have "pp \<noteq> Some self" by (metis distinct.simps(2) last_ConsR last_in_set list.distinct(1) option.inject)
  with assms show ?thesis by (auto simp: running_def linked_co_def)
qed

lemma refines_process:
  "refines n P this gs r k1 (Some rt) self1 tp q \<Longrightarrow> next_co k \<le> next_co k1 \<Longrightarrow>
   refines n P this gs r k (Some rt) self tp q"
  by (cases q) (auto simp: run_post_def)

lemma chain_last_sub:
  "chain k pp ch w xs fs \<Longrightarrow> xs \<noteq> [] \<Longrightarrow> \<exists>co. k (last xs) = Some co \<and> finalValue co = None
     \<and> (subCoroutineChild co \<noteq> None \<or> length xs = 1)"
proof (induction k pp ch w xs fs rule: chain.induct)
  case (2 k pp ch w x xs f fs)
  show ?case
  proof (cases "length xs = 1")
    case True
    then obtain y where "xs = [y]" by (metis length_0_conv length_Suc_conv One_nat_def)
    with 2 show ?thesis by (cases fs) (auto simp: linked_co_def)
  qed (use 2 in \<open>auto simp: linked_co_def\<close>)
qed simp_all

lemma suspended_not_ready:
  assumes "suspended k pp w ys hs"
  shows "\<not> task_await_ready (cos k (last ys))"
proof -
  have c: "chain (cos k) pp None (Some w) ys hs" "ys \<noteq> []" "\<exists>co. cos k (hd ys) = Some co \<and> waiting co = Some w"
    using assms by (auto simp: suspended_def)
  obtain co where co: "cos k (last ys) = Some co" "finalValue co = None"
      "subCoroutineChild co \<noteq> None \<or> length ys = 1"
    using chain_last_sub [OF c(1,2)] by blast
  have "waiting co \<noteq> None" if "length ys = 1"
    using that c(3) co(1) by (cases ys) auto
  with co show ?thesis by (auto simp: task_await_ready_def)
qed

text \<open>
  The two ways a called task comes back: it has returned, and its caller goes on; or it is suspended,
  and its caller is suspended with it.
\<close>

lemma called_task_suspended:
  assumes run: "running k pp self xs fs" and new: "new_co k = (q, k1)"
    and k2: "store_ok k2" "next_co k1 \<le> next_co k2" "\<forall>x<next_co k1. x \<noteq> q \<longrightarrow> cos k2 x = cos k1 x"
    and sus: "suspended k2 None w ys hs" "last ys = q" "\<forall>y\<in>set ys. y = q \<or> next_co k1 \<le> y"
    and r: "r = Ret (Some (Some w, hs @ f # fs @ gs)) c2"
  shows "\<exists>k3. updateSuspend self q (upd_co self (\<lambda>co. co\<lparr>suspendedAt := Some (None, f)\<rparr>) k2) = Some k3
    \<and> run_post n P this gs r k pp self (last (self # xs)) k3 c2"
proof -
  note new' = running_new_co [OF run new]
  have run2: "running k2 pp self xs fs"
    by (rule running_frame [OF new'(2) k2(1)]) (use new' k2(3) in auto)
  have ys: "q \<le> y" if "y \<in> set ys" for y using sus(3) that new'(4) by auto
  then have dis: "set ys \<inter> set (self # xs) = {}" using new'(6) by fastforce
  obtain k3 where k3: "updateSuspend self q (upd_co self (\<lambda>co. co\<lparr>suspendedAt := Some (None, f)\<rparr>) k2) = Some k3"
      "suspended k3 pp w (ys @ self # xs) (hs @ f # fs)" "next_co k3 = next_co k2"
      "pp = None \<longrightarrow> (\<forall>x. x \<notin> set ys \<longrightarrow> x \<noteq> self \<longrightarrow> cos k3 x = cos k2 x)"
    using attach_suspended [OF run2 sus(1) dis, of f] sus(2) by blast
  have "cos k3 x = cos k x" if "pp = None" "x < next_co k" "x \<noteq> self" for x
  proof -
    have "x < q" using that(2) new'(3) by simp
    then have "x \<notin> set ys" using ys by force
    then show ?thesis using k3(4) that k2(3) new'(3,4,5) by simp
  qed
  moreover have "y = self \<or> next_co k \<le> y" if "pp = None" "y \<in> set (ys @ self # xs)" for y
    using that run ys new'(3) by (auto simp: running_def)
  moreover have "last (ys @ self # xs) = last (self # xs)" by simp
  moreover have "store_ok k3" using k3(2) by (simp add: suspended_def)
  moreover have "next_co k \<le> next_co k3" using k3(3) k2(2) new'(3,4) by simp
  moreover have "r = Ret (Some (Some w, (hs @ f # fs) @ gs)) c2" using r by simp
  ultimately show ?thesis using k3(1,2) unfolding run_post_def by blast
qed

lemma called_task_returned:
  assumes run: "running k pp self xs fs" and new: "new_co k = (q, k1)"
    and k2: "store_ok k2" "next_co k1 \<le> next_co k2" "\<forall>x<next_co k1. x \<noteq> q \<longrightarrow> cos k2 x = cos k1 x"
  shows "running (del_co q k2) pp self xs fs" and "next_co k \<le> next_co (del_co q k2)"
    and "\<forall>x<next_co k. x \<noteq> self \<longrightarrow> cos (del_co q k2) x = cos k x"
proof -
  note new' = running_new_co [OF run new]
  show "running (del_co q k2) pp self xs fs"
    by (rule running_frame [OF new'(2)]) (use new' k2 in auto)
  show "next_co k \<le> next_co (del_co q k2)" using k2(2) new'(3,4) by simp
  show "\<forall>x<next_co k. x \<noteq> self \<longrightarrow> cos (del_co q k2) x = cos k x" using k2(3) new'(3,4,5) by simp
qed

text \<open>
  Whatever the stack semantics computes with fuel \<open>n\<close>, the pointer program computes with the same
  fuel or more.
\<close>

lemma refines_return:
  assumes run: "running k pp self xs fs" and r: "exec_code (Suc n) P this (CoReturn v) (fs @ gs) c = r"
    and IH: "\<And>p ps f fs' k'. exec_code n P this (frame_code P f v) (fs' @ gs) c = r \<Longrightarrow> running k' pp p ps fs' \<Longrightarrow>
      refines (Suc n) P this gs r k' pp p (last (p # ps)) (run_coroutine N P this p (frame_code P f v) k' c)"
  shows "refines (Suc n) P this gs r k pp self (last (self # xs)) (run_coroutine (Suc N) P this self (CoReturn v) k c)"
proof (cases xs)
  case Nil
  then have fs: "fs = []" using run chain_length [of "cos k" pp "Some self" None xs fs] by (simp add: running_def)
  obtain co where "cos k self = Some co" "parent co = None" using run Nil by (auto simp: running_def linked_co_def)
  moreover then have "run_coroutine (Suc N) P this self (CoReturn v) k c = Ret (upd_co self (\<lambda>co. co\<lparr>finalValue := Some v\<rparr>) k) c"
    by (simp add: Let_def)
  moreover have "store_ok k" using run by (simp add: running_def)
  ultimately show ?thesis using r fs Nil by (auto simp: run_post_def)
next
  case (Cons p ps)
  obtain f fs' where fs: "fs = f # fs'"
    using run Cons by (cases fs) (auto simp: running_def)
  obtain co pco where l: "cos k self = Some co" "\<not> isProcess co" "parent co = Some p" "p \<noteq> self"
    "cos k p = Some pco" "suspendedAt pco = Some (None, f)"
    using return_lookup [of k pp self p ps f fs'] run Cons fs by blast
  have "pp \<noteq> None" using run Cons by (auto simp: running_def split: option.splits)
  let ?k = "del_co self (upd_co p (\<lambda>co. co\<lparr>subCoroutineChild := None\<rparr>) (upd_co self (\<lambda>co. co\<lparr>finalValue := Some v\<rparr>) k))"
  have "refines (Suc n) P this gs r ?k pp p (last (p # ps)) (run_coroutine N P this p (frame_code P f v) ?k c)"
    by (rule IH) (use r fs run Cons return_resumes in auto)
  then show ?thesis
    using l Cons \<open>pp \<noteq> None\<close> by (cases pp) (auto simp: Let_def elim!: refines_process)
qed

text \<open>A method task is called: it runs detached from the process, and then its caller looks at it.\<close>

lemma refines_method:
  assumes run: "running k pp self xs fs" and new: "new_co k = (q, k1)" and r: "r \<noteq> NoFuel"
    and called: "refines n P this (f # fs @ gs) r k1 None q q (run_coroutine N P this q cd k1 c)"
    and IH: "\<And>m v k' c'. m \<le> n \<Longrightarrow> exec_code m P this (frame_code P f v) (fs @ gs) c' = r \<Longrightarrow> running k' pp self xs fs \<Longrightarrow>
      refines (Suc n) P this gs r k' pp self (last (self # xs)) (run_coroutine N P this self (frame_code P f v) k' c')"
  shows "refines (Suc n) P this gs r k pp self (last (self # xs)) (run_coroutine (Suc N) P this self (CoMethod cd f) k c)"
proof (cases "run_coroutine N P this q cd k1 c")
  case (Ret k2 c2)
  with called have post: "run_post n P this (f # fs @ gs) r k1 None q q k2 c2" by simp
  then have k2: "store_ok k2" "next_co k1 \<le> next_co k2" "\<forall>x<next_co k1. x \<noteq> q \<longrightarrow> cos k2 x = cos k1 x"
    by (auto simp: run_post_def)
  from post consider (sus) w ys hs where "suspended k2 None w ys hs" "last ys = q"
      "\<forall>y\<in>set ys. y = q \<or> next_co k1 \<le> y" "r = Ret (Some (Some w, hs @ f # fs @ gs)) c2"
    | (fin) v m co where "m \<le> n" "cos k2 q = Some co" "finalValue co = Some v"
      "exec_code m P this (CoReturn v) (f # fs @ gs) c2 = r"
    unfolding run_post_def by blast
  then show ?thesis
  proof cases
    case sus
    obtain k3 where "updateSuspend self q (upd_co self (\<lambda>co. co\<lparr>suspendedAt := Some (None, f)\<rparr>) k2) = Some k3"
      "run_post (Suc n) P this gs r k pp self (last (self # xs)) k3 c2"
      using called_task_suspended [OF run new k2 sus] by blast
    then show ?thesis
      using new Ret suspended_not_ready [OF sus(1)] sus(2) by (simp del: last.simps)
  next
    case fin
    then obtain m' where m: "m = Suc m'" using r by (cases m) auto
    note ret = called_task_returned [OF run new k2]
    have "refines (Suc n) P this gs r (del_co q k2) pp self (last (self # xs))
        (run_coroutine N P this self (frame_code P f v) (del_co q k2) c2)"
      by (rule IH [of m']) (use fin m ret in auto)
    then have "refines (Suc n) P this gs r k pp self (last (self # xs))
        (run_coroutine N P this self (frame_code P f v) (del_co q k2) c2)"
      by (rule refines_trans) (use ret in auto)
    then show ?thesis using new Ret fin by (simp add: task_await_ready_def)
  qed
qed (use called new in auto)

lemma refines_await:
  assumes "running k pp self xs fs"
  shows "run_post n P this gs (Ret (Some (Some w, f # fs @ gs)) c) k pp self (last (self # xs))
    (await_suspend self w (upd_co self (\<lambda>co. co\<lparr>suspendedAt := Some (Some w, f)\<rparr>) k)) c"
  unfolding run_post_def using await_suspended [where w = w and f = f, OF assms refl]
  by (intro conjI disjI1 exI [of _ w] exI [of _ "self # xs"] exI [of _ "f # fs"])
    (use assms in \<open>auto simp: suspended_def running_def\<close>)

lemma run_coroutine_refines:
  fixes P :: "('st, 'm) program"
  assumes "exec_code n P this cd (fs @ gs) c = r" and "r \<noteq> NoFuel" and "n \<le> N" and "running k pp self xs fs"
  shows "refines n P this gs r k pp self (last (self # xs)) (run_coroutine N P this self cd k c)"
  using assms
proof (induction n arbitrary: N cd fs gs c k pp self xs rule: less_induct)
  case (less n)
  note run = less.prems(4)
  obtain n' where n: "n = Suc n'" using less.prems(1,2) by (cases n) auto
  obtain N' where N: "N = Suc N'" "n' \<le> N'" using less.prems(3) n by (cases N) auto
  have IH: "refines n P this gs' r k' pp' self' (last (self' # xs')) (run_coroutine N' P this self' cd' k' c')"
    if "exec_code m P this cd' (fs' @ gs') c' = r" "m \<le> n'" "running k' pp' self' xs' fs'"
    for m cd' fs' gs' c' k' pp' self' xs'
    using less.IH [of m cd' fs' gs' c' N' k' pp' self' xs'] that less.prems(2) n N
    by (auto intro: refines_trans)
  have step: "refines n P this gs r k pp self (last (self # xs)) (res_bind q (\<lambda>v c. run_coroutine N' P this self (g v) k c))"
    if "res_bind q (\<lambda>v c. exec_code n' P this (g v) (fs @ gs) c) = r"
    for q :: "('m Answer, ('st, 'm) Context) res" and g
  proof (cases q)
    case (Ret v c')
    have "refines n P this gs r k pp self (last (self # xs)) (run_coroutine N' P this self (g v) k c')"
      by (rule IH [of n']) (use Ret that run in auto)
    then show ?thesis using Ret by simp
  qed (use that less.prems(2) in auto)
  show ?case
  proof (cases cd)
    case (CoThrow e)
    then show ?thesis using less.prems n N by simp
  next
    case (CoCall q g)
    then show ?thesis using less.prems(1) n N(1) step by simp
  next
    case (CoReturn v)
    then show ?thesis
      using refines_return [OF run, of n' P this v gs c r N'] less.prems(1) IH [of n'] n N(1) by simp
  next
    case (CoAwait w f)
    then show ?thesis using refines_await [OF run, of n P this gs w f c] less.prems(1,2) n N(1) step
      by (cases "await_ready (slots c) (promise_at c) (underlying w)") (auto split: bool.splits)
  next
    case (CoMethod cd' f)
    obtain q k1 where new: "new_co k = (q, k1)" by (cases "new_co k")
    have "refines n' P this (f # fs @ gs) r k1 None q (last [q]) (run_coroutine N' P this q cd' k1 c)"
      by (rule less.IH [where fs = "[]"])
        (use less.prems(1,2) CoMethod n N running_new_co(1) [OF run new] in auto)
    then show ?thesis
      using refines_method [OF run new less.prems(2), of n' P this f gs N' cd' c] IH CoMethod n N(1) by simp
  qed
qed

section \<open>ProcessTask::resume\<close>

text \<open>
  A task of the scheduler model (the awaitable it is suspended on and its stack of frames) and the
  coroutine objects that implement it.
\<close>

definition task_rep :: "('st, 'm) CoStore \<Rightarrow> cid \<Rightarrow> ('st, 'm) ProcessTask \<Rightarrow> bool" where
  "task_rep k root t \<longleftrightarrow>
     (case t of
        (Some w, fs) \<Rightarrow> \<exists>xs. suspended k (Some root) w xs fs
      | (None, fs) \<Rightarrow> store_ok k \<and> (\<exists>f. fs = [f] \<and> cos k root = Some (ProcessPromise_init f)))"

text \<open>The result of \<open>ProcessTask::resume\<close> that corresponds to a result of the stack semantics.\<close>

definition task_result :: "cid \<Rightarrow> (('st, 'm) ProcessTask option, ('st, 'm) Context) res \<Rightarrow>
    (Awaitable option option \<times> ('st, 'm) CoStore, ('st, 'm) Context) res \<Rightarrow> bool" where
  "task_result root r q \<longleftrightarrow>
     (case r of
        Ret (Some (w, fs)) c' \<Rightarrow> w \<noteq> None \<and> (\<exists>k'. q = Ret (Some w, k') c' \<and> task_rep k' root (w, fs))
      | Ret None c' \<Rightarrow> \<exists>k'. q = Ret (None, k') c' \<and> cos k' root = None
      | Throw e c' \<Rightarrow> q = Throw e c'
      | Undef u \<Rightarrow> q = Undef u
      | NoFuel \<Rightarrow> False)"

text \<open>Taking the innermost coroutine off the list of suspended ones.\<close>

lemma innermost_resumes:
  assumes sus: "suspended k (Some root) w xs fs"
    and k1: "k1 = upd_co root (\<lambda>co. co\<lparr>waiting := None, nextChild := None\<rparr>) k"
  shows "\<exists>x ys f gs rt co. xs = x # ys \<and> fs = f # gs \<and> cos k root = Some rt
    \<and> (case nextChild rt of Some ch \<Rightarrow> ch | None \<Rightarrow> root) = x
    \<and> cos k1 x = Some co \<and> suspendedAt co = Some (Some w, f) \<and> running k1 (Some root) x ys gs
    \<and> last (x # ys) = root"
proof -
  have s: "store_ok k" "distinct xs" "xs \<noteq> []" "chain (cos k) (Some root) None (Some w) xs fs" "last xs = root"
    "\<exists>rt. cos k root = Some rt \<and> nextChild rt = (if hd xs = root then None else Some (hd xs))"
    using sus by (auto simp: suspended_def)
  obtain x ys where xs: "xs = x # ys" using s(3) by (cases xs) auto
  obtain f gs where fs: "fs = f # gs" using s(4) xs by (cases fs) auto
  obtain rt where rt: "cos k root = Some rt" "nextChild rt = (if x = root then None else Some x)"
    using s(6) xs by auto
  have "chain (cos k) (Some root) (Some x) None ys gs" using s(4) xs fs by simp
  then have ch: "chain (cos k1) (Some root) (Some x) None ys gs"
    by (rule chain_same_links [rotated])
      (auto simp: k1 same_links_def option.rel_map intro!: option.rel_refl)
  obtain co where co: "cos k x = Some co" "linked_co (Some root) None ys x co" "suspendedAt co = Some (Some w, f)"
    using s(4) xs fs by auto
  then obtain co' where co': "cos k1 x = Some co'" "linked_co (Some root) None ys x co'" "suspendedAt co' = Some (Some w, f)"
    by (auto simp: k1 linked_co_def)
  have "running k1 (Some root) x ys gs"
    using s xs ch co' rt by (auto simp: running_def k1)
  with xs fs rt co' s(5) show ?thesis by auto
qed

text \<open>What \<open>ProcessTask::resume\<close> makes of the end of the run.\<close>

lemma resume_result:
  assumes "refines n P this [] r k1 (Some root) x root q" and "r \<noteq> NoFuel"
  shows "task_result root r (res_bind q (\<lambda>k c.
      case cos k root of
        None \<Rightarrow> Undef NullDeref
      | Some rt \<Rightarrow>
          if finalValue rt \<noteq> None then Ret (None, del_co root k) c
          else (case nextChild rt of
                  Some ch \<Rightarrow> (case cos k ch of None \<Rightarrow> Undef UseAfterFree | Some co \<Rightarrow> Ret (Some (waiting co), k) c)
                | None \<Rightarrow> Ret (Some (waiting rt), k) c)))"
proof (cases q)
  case (Ret k2 c2)
  with assms(1) have "run_post n P this [] r k1 (Some root) x root k2 c2" by simp
  then consider (sus) w ys hs where "suspended k2 (Some root) w ys hs" "r = Ret (Some (Some w, hs)) c2"
    | (fin) v m co where "cos k2 root = Some co" "finalValue co = Some v" "exec_code m P this (CoReturn v) [] c2 = r"
    unfolding run_post_def by auto
  then show ?thesis
  proof cases
    case sus
    obtain co where co: "cos k2 root = Some co" "finalValue co = None"
      using chain_last_sub [of "cos k2" "Some root" None "Some w" ys hs] sus(1) by (auto simp: suspended_def)
    then have "nextChild co = (if hd ys = root then None else Some (hd ys))"
      "\<exists>co. cos k2 (hd ys) = Some co \<and> waiting co = Some w"
      using sus(1) by (auto simp: suspended_def)
    then show ?thesis using co sus Ret by (auto simp: task_result_def task_rep_def)
  next
    case fin
    then have "r = Ret None c2" using assms(2) by (cases m) auto
    then show ?thesis using fin Ret by (simp add: task_result_def)
  qed
qed (use assms in \<open>auto simp: task_result_def\<close>)

lemma ProcessTask_resume_eq:
  assumes "cos k root = Some rt"
  shows "ProcessTask_resume n P this root k c =
    res_bind (resume_handle n P this (case nextChild rt of Some ch \<Rightarrow> ch | None \<Rightarrow> root)
        (upd_co root (\<lambda>co. co\<lparr>waiting := None, nextChild := None\<rparr>) k) c) (\<lambda>k c.
      case cos k root of
        None \<Rightarrow> Undef NullDeref
      | Some rt \<Rightarrow>
          if finalValue rt \<noteq> None then Ret (None, del_co root k) c
          else (case nextChild rt of
                  Some ch \<Rightarrow> (case cos k ch of None \<Rightarrow> Undef UseAfterFree | Some co \<Rightarrow> Ret (Some (waiting co), k) c)
                | None \<Rightarrow> Ret (Some (waiting rt), k) c))"
  using assms by (simp add: ProcessTask_resume_def Let_def)

lemma task_first_resume:
  assumes "store_ok k" and "cos k root = Some (ProcessPromise_init f)"
    and "exec_code n P this (frame_code P f AUnit) [] c = r" and "r \<noteq> NoFuel" and "n \<le> N"
  shows "task_result root r (ProcessTask_resume N P this root k c)"
proof -
  let ?k1 = "upd_co root (\<lambda>co. co\<lparr>waiting := None, nextChild := None\<rparr>) k"
  have "running ?k1 (Some root) root [] []"
    using assms(1,2) by (auto simp: running_def ProcessPromise_init_def linked_co_def own_process_def)
  then have "refines n P this [] r ?k1 (Some root) root root
      (run_coroutine N P this root (frame_code P f AUnit) ?k1 c)"
    using run_coroutine_refines [of n P this "frame_code P f AUnit" "[]" "[]" c r N ?k1 "Some root" root "[]"]
      assms(3-5) by simp
  from resume_result [OF this assms(4)] show ?thesis
    using assms(2) by (simp add: ProcessTask_resume_eq [OF assms(2)] resume_handle_def ProcessPromise_init_def)
qed

lemma task_later_resume:
  assumes "suspended k (Some root) w xs fs" and "task_resume n P this (Some w, fs) c = r"
    and "r \<noteq> NoFuel" and "n \<le> N"
  shows "task_result root r (ProcessTask_resume N P this root k c)"
proof -
  let ?k1 = "upd_co root (\<lambda>co. co\<lparr>waiting := None, nextChild := None\<rparr>) k"
  obtain x ys f gs rt co where x: "fs = f # gs" "cos k root = Some rt"
    "(case nextChild rt of Some ch \<Rightarrow> ch | None \<Rightarrow> root) = x"
    "cos ?k1 x = Some co" "suspendedAt co = Some (Some w, f)" "running ?k1 (Some root) x ys gs" "last (x # ys) = root"
    using innermost_resumes [OF assms(1) refl] by metis
  have r: "res_bind (finish_await w c) (\<lambda>v c. exec_code n P this (frame_code P f v) gs c) = r"
    using assms(2) x(1) by (simp add: task_resume_def)
  have "refines n P this [] r ?k1 (Some root) x root
      (res_bind (finish_await w c) (\<lambda>v c. run_coroutine N P this x (frame_code P f v) ?k1 c))"
  proof (cases "finish_await w c")
    case (Ret v c')
    then show ?thesis
      using run_coroutine_refines [of n P this "frame_code P f v" gs "[]" c' r N ?k1 "Some root" x ys] r x(6,7) assms(3,4)
      by (simp del: last.simps)
  qed (use r assms(3) in auto)
  from resume_result [OF this assms(3)] show ?thesis
    using x by (simp add: ProcessTask_resume_eq [OF x(2)] resume_handle_def)
qed

text \<open>C4: The pointer program of \<open>ProcessTask::resume\<close> implements the stack of frames of the scheduler.
  For coroutine objects that implement a task (the innermost coroutine is \<open>nextChild\<close> of the process,
  parents and children point to each other), resuming runs the innermost coroutine, a method task that
  ends continues exactly the coroutine that awaits it, no destroyed coroutine is touched, and
  \<open>resume\<close> returns the awaitable that the innermost suspended coroutine waits for, with the objects
  implementing the new stack; it says that the process is done exactly when the stack is empty.\<close>

theorem process_task_resume_refines_stack:
  assumes "task_rep k root t" and "task_resume n P this t c = r" and "r \<noteq> NoFuel" and "n \<le> N"
  shows "task_result root r (ProcessTask_resume N P this root k c)"
proof -
  obtain w fs where t: "t = (w, fs)" by (cases t)
  show ?thesis
  proof (cases w)
    case None
    with assms t obtain f where "fs = [f]" "store_ok k" "cos k root = Some (ProcessPromise_init f)"
      by (auto simp: task_rep_def)
    with assms None t show ?thesis by (auto simp: task_resume_def intro: task_first_resume)
  next
    case (Some v)
    with assms t show ?thesis by (auto simp: task_rep_def intro: task_later_resume)
  qed
qed

text \<open>A process that awaits a method task that yields, resumed twice.\<close>

definition nest_prog :: "(nat, nat) program" where
  "nest_prog st v = (if st = 0 then CoMethod (CoAwait (AWaiting WaitingYield) (UserFrame 1)) (UserFrame 2)
     else CoReturn AUnit)"

definition nest_store :: "(nat, nat) CoStore" where
  "nest_store = \<lparr>cos = [0 \<mapsto> ProcessPromise_init (UserFrame 0)], next_co = 1\<rparr>"

theorem process_task_resume_refines_stack_witness:
  "\<exists>k'. ProcessTask_resume 5 nest_prog 0 0 nest_store Context_init
      = Ret (Some (Some (AWaiting WaitingYield)), k') Context_init
    \<and> task_rep k' 0 (Some (AWaiting WaitingYield), [UserFrame 1, UserFrame 2])"
proof -
  have rep: "task_rep nest_store 0 (None, [UserFrame 0])"
    by (simp add: task_rep_def nest_store_def store_ok_def)
  have "task_resume 3 nest_prog 0 (None, [UserFrame 0]) Context_init
      = Ret (Some (Some (AWaiting WaitingYield), [UserFrame 1, UserFrame 2])) (Context_init :: (nat, nat) Context)"
    by (simp add: task_resume_def nest_prog_def numeral_3_eq_3)
  from process_task_resume_refines_stack [OF rep this, of 5] show ?thesis by (simp add: task_result_def)
qed

end
