(* ===== verification/Generator.thy ===== *)
theory Generator
  imports Coroutine
begin

text \<open>
  \<open>eslang/ProcessTask.h\<close>: generators (\<open>GenPromise\<close>, \<open>GenTask\<close>). A generator is a coroutine that another
  coroutine resumes itself, by \<open>next()\<close>, until it has a value; when it has been suspended on an awaitable
  in between, the process resumes it, and \<open>co_yield\<close> resumes its consumer, so that the stack is inverted.

  Modelled is a process that loops over one generator, with \<open>while (co_await gen.next())\<close> or with
  \<open>for co_await\<close> over its iterators. The promises are those of theory \<open>Coroutine\<close>, in the same store, and
  are linked by the same functions.
\<close>

section \<open>State\<close>

text \<open>
  The code of a generator between two suspension points: \<open>co_yield v\<close>, an awaitable that is not ready (one
  that is ready does not suspend), \<open>co_return\<close>, or an exception. The next state of the generator is a
  value of type \<open>'g\<close>.
\<close>

datatype ('g, 'v) gen_code = GYield 'v 'g | GAwait Awaitable 'g | GReturn | GThrow string

type_synonym ('g, 'v) generator = "'g \<Rightarrow> ('g, 'v) gen_code"

text \<open>Where the consumer is suspended, or at its start.\<close>

datatype consumer_loc = ConsumerStart | InLoop

text \<open>
  The coroutines (the process \<open>proc_id\<close> and the generator \<open>gen_id\<close>), the member \<open>t_\<close> of \<open>GenPromise\<close>, the
  iterator of a \<open>for co_await\<close> loop (the generator it points to, or null), and the values the loop body
  has been given.
\<close>

record ('g, 'v) GenRun =
  promises_of :: "('g + consumer_loc, unit) CoStore"
  gen_t :: "'v option"
  iter :: "cid option"
  taken :: "'v list"

definition proc_id :: cid where
  "proc_id = 0"

definition gen_id :: cid where
  "gen_id = 1"

definition upd_promise :: "cid \<Rightarrow> (('g + consumer_loc, unit) Coroutine \<Rightarrow> ('g + consumer_loc, unit) Coroutine) \<Rightarrow>
    ('g, 'v) GenRun \<Rightarrow> ('g, 'v) GenRun" where
  "upd_promise x f s = s\<lparr>promises_of := upd_co x f (promises_of s)\<rparr>"

text \<open>A generator that has just been called: it is suspended before its first statement.\<close>

definition GenPromise_init :: "'g \<Rightarrow> ('g + consumer_loc, unit) Coroutine" where
  "GenPromise_init st = MethodTaskPromise_init\<lparr>suspendedAt := Some (None, UserFrame (Inl st))\<rparr>"

definition gen_init :: "'g \<Rightarrow> ('g, 'v) GenRun" where
  "gen_init st =
     \<lparr>promises_of = \<lparr>cos = (\<lambda>_. None)(proc_id \<mapsto> ProcessPromise_init (UserFrame (Inr ConsumerStart)), gen_id \<mapsto> GenPromise_init st),
        next_co = 2\<rparr>,
      gen_t = None, iter = None, taken = []\<rparr>"

section \<open>NextAwaitable and Iterator\<close>

definition at_final :: "cid \<Rightarrow> ('g, 'v) GenRun \<Rightarrow> bool" where
  "at_final x s = (case cos (promises_of s) x of None \<Rightarrow> False | Some co \<Rightarrow> finalValue co \<noteq> None)"

definition next_await_ready :: "('g, 'v) GenRun \<Rightarrow> bool" where
  "next_await_ready s =
     (case cos (promises_of s) gen_id of
        None \<Rightarrow> False
      | Some co \<Rightarrow> \<not> (subCoroutineChild co \<noteq> None \<or> waiting co \<noteq> None))"

definition next_await_resume :: "('g, 'v) GenRun \<Rightarrow> bool" where
  "next_await_resume s \<longleftrightarrow> \<not> at_final gen_id s"

definition next_await_suspend :: "('g, 'v) GenRun \<Rightarrow> (unit, ('g, 'v) GenRun) res" where
  "next_await_suspend s =
     (case updateSuspend proc_id gen_id (promises_of s) of
        None \<Rightarrow> Undef UseAfterFree
      | Some k \<Rightarrow> Ret () (s\<lparr>promises_of := k\<rparr>))"

text \<open>
  \<open>take()\<close>; the iterator that \<open>begin()\<close> gives, the one after \<open>++\<close>, and the comparison with \<open>end()\<close>, which is
  the null iterator.
\<close>

definition gen_take :: "('g, 'v) GenRun \<Rightarrow> (unit, ('g, 'v) GenRun) res" where
  "gen_take s = (case gen_t s of None \<Rightarrow> Undef EmptyOptional | Some v \<Rightarrow> Ret () (s\<lparr>taken := taken s @ [v]\<rparr>))"

definition begin_await_resume :: "('g, 'v) GenRun \<Rightarrow> ('g, 'v) GenRun" where
  "begin_await_resume s = s\<lparr>iter := (if next_await_resume s then Some gen_id else None)\<rparr>"

definition iter_await_resume :: "('g, 'v) GenRun \<Rightarrow> ('g, 'v) GenRun" where
  "iter_await_resume s = (if \<not> next_await_resume s then s\<lparr>iter := None\<rparr> else s)"

definition at_end :: "('g, 'v) GenRun \<Rightarrow> bool" where
  "at_end s \<longleftrightarrow> iter s = None"

text \<open>
  The condition of the loop, after its \<open>co_await\<close>: of \<open>while (co_await gen.next())\<close>, or of \<open>for co_await\<close>, in
  its first round (\<open>begin()\<close>) or a later one (\<open>++\<close>).
\<close>

definition loop_goes_on :: "bool \<Rightarrow> ('g, 'v) GenRun \<Rightarrow> bool \<times> ('g, 'v) GenRun" where
  "loop_goes_on each s =
     (if each
      then let s = (if taken s = [] then begin_await_resume s else iter_await_resume s) in (\<not> at_end s, s)
      else (next_await_resume s, s))"

section \<open>Running the two coroutines\<close>

text \<open>
  \<open>gen_run\<close> runs the generator from its state until control comes back to whoever resumed it, \<open>cons_run\<close> the
  consumer from the end of its \<open>co_await\<close>, and \<open>cons_next\<close> from the call of \<open>next()\<close>. Each spends one unit of
  fuel per step.
\<close>

fun gen_run :: "nat \<Rightarrow> ('g, 'v) generator \<Rightarrow> bool \<Rightarrow> 'g \<Rightarrow> ('g, 'v) GenRun \<Rightarrow> (unit, ('g, 'v) GenRun) res"
and cons_run :: "nat \<Rightarrow> ('g, 'v) generator \<Rightarrow> bool \<Rightarrow> ('g, 'v) GenRun \<Rightarrow> (unit, ('g, 'v) GenRun) res"
and cons_next :: "nat \<Rightarrow> ('g, 'v) generator \<Rightarrow> bool \<Rightarrow> ('g, 'v) GenRun \<Rightarrow> (unit, ('g, 'v) GenRun) res" where
  "gen_run 0 P each st s = NoFuel"
| "gen_run (Suc n) P each st s =
     (case P st of
        GYield v st' \<Rightarrow>
          let s = upd_promise gen_id (\<lambda>co. co\<lparr>waiting := None, suspendedAt := Some (None, UserFrame (Inl st'))\<rparr>) (s\<lparr>gen_t := Some v\<rparr>) in
          (case cos (promises_of s) gen_id of
             None \<Rightarrow> Undef UseAfterFree
           | Some co \<Rightarrow>
               (case parent co of
                  None \<Rightarrow> Ret () s
                | Some p \<Rightarrow>
                    cons_run n P each
                      (upd_promise p (\<lambda>co. co\<lparr>subCoroutineChild := None\<rparr>) (upd_promise gen_id (\<lambda>co. co\<lparr>parent := None\<rparr>) s))))
      | GAwait w st' \<Rightarrow>
          let s = upd_promise gen_id (\<lambda>co. co\<lparr>suspendedAt := Some (Some w, UserFrame (Inl st'))\<rparr>) s
          in Ret () (s\<lparr>promises_of := await_suspend gen_id w (promises_of s)\<rparr>)
      | GReturn \<Rightarrow> Ret () (upd_promise gen_id (\<lambda>co. co\<lparr>finalValue := Some AUnit\<rparr>) s)
      | GThrow e \<Rightarrow> Throw e s)"
| "cons_run 0 P each s = NoFuel"
| "cons_run (Suc n) P each s =
     (let (go, s) = loop_goes_on each s in
      if go then res_bind (gen_take s) (\<lambda>_ s. cons_next n P each s)
      else Ret () (upd_promise proc_id (\<lambda>co. co\<lparr>finalValue := Some AUnit\<rparr>) s))"
| "cons_next 0 P each s = NoFuel"
| "cons_next (Suc n) P each s =
     (case cos (promises_of s) gen_id of
        Some co \<Rightarrow>
          (case suspendedAt co of
             Some (_, UserFrame (Inl st)) \<Rightarrow>
               res_bind (gen_run n P each st s) (\<lambda>_ s.
                 if next_await_ready s then cons_run n P each s
                 else next_await_suspend (upd_promise proc_id (\<lambda>co. co\<lparr>suspendedAt := Some (None, UserFrame (Inr InLoop))\<rparr>) s))
           | _ \<Rightarrow> Undef NullDeref)
      | None \<Rightarrow> Undef NullDeref)"

text \<open>\<open>ProcessTask::resume\<close>, on the innermost coroutine the process knows.\<close>

definition resume_innermost :: "nat \<Rightarrow> ('g, 'v) generator \<Rightarrow> bool \<Rightarrow> cid \<Rightarrow> ('g, 'v) GenRun \<Rightarrow> (unit, ('g, 'v) GenRun) res" where
  "resume_innermost n P each x s =
     (case cos (promises_of s) x of
        Some co \<Rightarrow>
          (case suspendedAt co of
             Some (_, UserFrame (Inl st)) \<Rightarrow> gen_run n P each st s
           | Some (_, UserFrame (Inr ConsumerStart)) \<Rightarrow> cons_next n P each s
           | Some (_, UserFrame (Inr InLoop)) \<Rightarrow> cons_run n P each s
           | _ \<Rightarrow> Undef NullDeref)
      | None \<Rightarrow> Undef UseAfterFree)"

text \<open>What it returns: nothing when the process has ended, else the awaitable of the innermost coroutine, which may be null.\<close>

definition resume_result :: "('g, 'v) GenRun \<Rightarrow> (Awaitable option option, ('g, 'v) GenRun) res" where
  "resume_result s =
     (case cos (promises_of s) proc_id of
        None \<Rightarrow> Undef NullDeref
      | Some rt \<Rightarrow>
          if finalValue rt \<noteq> None then Ret None (s\<lparr>promises_of := del_co proc_id (promises_of s)\<rparr>)
          else (case nextChild rt of
                  Some ch \<Rightarrow>
                    (case cos (promises_of s) ch of
                       None \<Rightarrow> Undef UseAfterFree
                     | Some co \<Rightarrow> Ret (Some (waiting co)) s)
                | None \<Rightarrow> Ret (Some (waiting rt)) s))"

definition gen_task_resume :: "nat \<Rightarrow> ('g, 'v) generator \<Rightarrow> bool \<Rightarrow> ('g, 'v) GenRun \<Rightarrow>
    (Awaitable option option, ('g, 'v) GenRun) res" where
  "gen_task_resume n P each s =
     (case cos (promises_of s) proc_id of
        None \<Rightarrow> Undef NullDeref
      | Some rt \<Rightarrow>
          let child = nextChild rt;
              s = upd_promise proc_id (\<lambda>co. co\<lparr>waiting := None, nextChild := None\<rparr>) s
          in res_bind (resume_innermost n P each (case child of Some ch \<Rightarrow> ch | None \<Rightarrow> proc_id) s) (\<lambda>_ s. resume_result s))"

text \<open>The process resumed up to \<open>k\<close> times: the awaitables it suspends on, until it has ended.\<close>

primrec drive :: "nat \<Rightarrow> nat \<Rightarrow> ('g, 'v) generator \<Rightarrow> bool \<Rightarrow> ('g, 'v) GenRun \<Rightarrow> (Awaitable option list, ('g, 'v) GenRun) res" where
  "drive 0 n P each s = Ret [] s"
| "drive (Suc k) n P each s =
     res_bind (gen_task_resume n P each s) (\<lambda>w s.
       case w of
         None \<Rightarrow> Ret [] s
       | Some w \<Rightarrow> res_bind (drive k n P each s) (\<lambda>ws s. Ret (w # ws) s))"

end
