(* ===== verification/Generator_Ok.thy ===== *)
theory Generator_Ok
  imports Generator
begin

text \<open>
  The loop over a generator gives its body exactly the values that the generator yields, however often
  the generator suspends in between; and the one way in which this fails.
\<close>

section \<open>What a generator does\<close>

text \<open>
  The actions of a generator that ends, in order: the values it yields (\<open>Inl\<close>) and the awaitables it
  suspends on (\<open>Inr\<close>).
\<close>

inductive emits :: "('g, 'v) generator \<Rightarrow> 'g \<Rightarrow> ('v + Awaitable) list \<Rightarrow> bool" for P :: "('g, 'v) generator" where
  emits_return: "P st = GReturn \<Longrightarrow> emits P st []"
| emits_yield: "P st = GYield v st' \<Longrightarrow> emits P st' as \<Longrightarrow> emits P st (Inl v # as)"
| emits_await: "P st = GAwait w st' \<Longrightarrow> emits P st' as \<Longrightarrow> emits P st (Inr w # as)"

inductive_cases emits_NilE: "emits P st []"
inductive_cases emits_InlE: "emits P st (Inl v # as)"
inductive_cases emits_InrE: "emits P st (Inr w # as)"

fun values_of :: "('v + Awaitable) list \<Rightarrow> 'v list" where
  "values_of [] = []"
| "values_of (Inl v # as) = v # values_of as"
| "values_of (Inr w # as) = values_of as"

fun awaits_of :: "('v + Awaitable) list \<Rightarrow> Awaitable list" where
  "awaits_of [] = []"
| "awaits_of (Inl v # as) = awaits_of as"
| "awaits_of (Inr w # as) = w # awaits_of as"

section \<open>The two places control comes to\<close>

text \<open>
  \<open>calling st lg s\<close>: the consumer has been given the values \<open>lg\<close> and calls \<open>next()\<close> on the generator in state
  \<open>st\<close>. \<open>sleeping st w lg s\<close>: the generator is suspended on \<open>w\<close>, the consumer waits for it, and the process
  knows that the generator is to be resumed. \<open>ended lg s\<close>: the consumer is at its end.
\<close>

definition calling :: "bool \<Rightarrow> 'g \<Rightarrow> 'v list \<Rightarrow> ('g, 'v) GenRun \<Rightarrow> bool" where
  "calling each st lg s \<longleftrightarrow> taken s = lg \<and> (each \<longrightarrow> lg \<noteq> [] \<longrightarrow> iter s = Some gen_id) \<and>
     (\<exists>rt co x. cos (promises_of s) proc_id = Some rt \<and> cos (promises_of s) gen_id = Some co
        \<and> isProcess rt \<and> finalValue rt = None \<and> nextChild rt = None \<and> waiting rt = None
        \<and> finalValue co = None \<and> waiting co = None \<and> subCoroutineChild co = None \<and> parent co = None
        \<and> processPromise co \<in> {None, Some proc_id} \<and> suspendedAt co = Some (x, UserFrame (Inl st)))"

definition sleeping :: "bool \<Rightarrow> 'g \<Rightarrow> Awaitable \<Rightarrow> 'v list \<Rightarrow> ('g, 'v) GenRun \<Rightarrow> bool" where
  "sleeping each st w lg s \<longleftrightarrow> taken s = lg \<and> (each \<longrightarrow> lg \<noteq> [] \<longrightarrow> iter s = Some gen_id) \<and>
     (\<exists>rt co x. cos (promises_of s) proc_id = Some rt \<and> cos (promises_of s) gen_id = Some co
        \<and> isProcess rt \<and> finalValue rt = None \<and> nextChild rt = Some gen_id \<and> waiting rt = None
        \<and> finalValue co = None \<and> waiting co = Some w \<and> subCoroutineChild co = None \<and> parent co = Some proc_id
        \<and> processPromise co = Some proc_id \<and> suspendedAt co = Some (x, UserFrame (Inl st)))"

definition ended :: "'v list \<Rightarrow> ('g, 'v) GenRun \<Rightarrow> bool" where
  "ended lg s \<longleftrightarrow> taken s = lg \<and> (\<exists>rt. cos (promises_of s) proc_id = Some rt \<and> finalValue rt = Some AUnit)"

lemma ids_neq [simp]: "proc_id \<noteq> gen_id" "gen_id \<noteq> proc_id"
  by (simp_all add: proc_id_def gen_id_def)

lemmas promise_simps = upd_promise_def upd_co_def loop_goes_on_def begin_await_resume_def iter_await_resume_def
  at_end_def next_await_resume_def at_final_def gen_take_def next_await_ready_def

lemma next_return:
  assumes "calling each st lg s" and "P st = GReturn"
  shows "\<exists>s'. cons_next (Suc (Suc (Suc n))) P each s = Ret () s' \<and> ended lg s'"
  using assms by (cases each; cases "lg = []") (auto simp: calling_def promise_simps ended_def Let_def)

text \<open>The consumer takes the value that the generator has left.\<close>

lemma run_given:
  assumes "calling each st lg s" and "gen_t s = Some v"
  shows "\<exists>s'. cons_run (Suc n) P each s = cons_next n P each s' \<and> calling each st (lg @ [v]) s'"
proof -
  obtain go s1 where g: "loop_goes_on each s = (go, s1)" by (cases "loop_goes_on each s")
  have s1: "go \<and> gen_t s1 = Some v \<and> promises_of s1 = promises_of s \<and> taken s1 = lg \<and> (each \<longrightarrow> iter s1 = Some gen_id)"
    using assms g by (cases each; cases "lg = []") (auto simp: calling_def promise_simps)
  then have "cons_run (Suc n) P each s = cons_next n P each (s1\<lparr>taken := lg @ [v]\<rparr>)" using g by (simp add: gen_take_def)
  moreover have "calling each st (lg @ [v]) (s1\<lparr>taken := lg @ [v]\<rparr>)" using assms(1) s1 by (simp add: calling_def)
  ultimately show ?thesis by blast
qed

lemma next_yield:
  assumes "calling each st lg s" and "P st = GYield v st'"
  shows "\<exists>s'. cons_next (Suc (Suc n)) P each s = cons_next n P each s' \<and> calling each st' (lg @ [v]) s'"
proof -
  from assms obtain s1 where "gen_run (Suc n) P each st s = Ret () s1" "calling each st' lg s1" "gen_t s1 = Some v" "next_await_ready s1"
    by (auto simp: calling_def promise_simps)
  moreover from assms(1) obtain co x where "cos (promises_of s) gen_id = Some co" "suspendedAt co = Some (x, UserFrame (Inl st))"
    by (auto simp: calling_def)
  ultimately have "cons_next (Suc (Suc n)) P each s = cons_run (Suc n) P each s1" by (simp del: gen_run.simps cons_run.simps)
  with run_given [OF \<open>calling each st' lg s1\<close> \<open>gen_t s1 = Some v\<close>] show ?thesis by metis
qed

lemma next_await:
  assumes "calling each st lg s" and "P st = GAwait w st'"
  shows "\<exists>s'. cons_next (Suc (Suc n)) P each s = Ret () s' \<and> sleeping each st' w lg s'"
  using assms
  by (auto simp: calling_def promise_simps Let_def await_suspend_def next_await_suspend_def updateSuspend_def
      updateProcessPromise.simps sleeping_def)

section \<open>From one suspension to the next\<close>

text \<open>
  Where a run leads that starts with the actions \<open>as\<close> ahead: to the end of the loop when they are all
  yields, else to the first awaitable among them.
\<close>

definition reaches :: "('g, 'v) generator \<Rightarrow> bool \<Rightarrow> ('v + Awaitable) list \<Rightarrow> 'v list \<Rightarrow> ('g, 'v) GenRun \<Rightarrow> bool" where
  "reaches P each as lg s \<longleftrightarrow>
     (\<exists>vs. as = map Inl vs \<and> ended (lg @ vs) s)
     \<or> (\<exists>vs w rest st. as = map Inl vs @ Inr w # rest \<and> sleeping each st w (lg @ vs) s \<and> emits P st rest)"

lemma reaches_Inl: "reaches P each as (lg @ [v]) s \<Longrightarrow> reaches P each (Inl v # as) lg s"
proof -
  assume "reaches P each as (lg @ [v]) s"
  then consider vs where "as = map Inl vs" "ended (lg @ v # vs) s"
    | vs w rest st where "as = map Inl vs @ Inr w # rest" "sleeping each st w (lg @ v # vs) s" "emits P st rest"
    by (auto simp: reaches_def)
  then show ?thesis
  proof cases
    case 1
    then have "Inl v # as = map Inl (v # vs)" by simp
    with 1(2) show ?thesis unfolding reaches_def by (intro disjI1 exI [of _ "v # vs"]) simp
  next
    case 2
    then have "Inl v # as = map Inl (v # vs) @ Inr w # rest" by simp
    with 2(2,3) show ?thesis
      unfolding reaches_def by (intro disjI2 exI [of _ "v # vs"] exI [of _ w] exI [of _ rest] exI [of _ st]) simp
  qed
qed

lemma reaches_Inr: "sleeping each st w lg s \<Longrightarrow> emits P st as \<Longrightarrow> reaches P each (Inr w # as) lg s"
  unfolding reaches_def by (rule disjI2, rule exI [of _ "[]"]) auto

lemma calling_reaches:
  "emits P st as \<Longrightarrow> calling each st lg s \<Longrightarrow> 2 * length as + 3 \<le> n \<Longrightarrow>
   \<exists>s'. cons_next n P each s = Ret () s' \<and> reaches P each as lg s'"
proof (induction arbitrary: lg s n rule: emits.induct)
  case (emits_return st)
  have "n = Suc (Suc (Suc (n - 3)))" using emits_return.prems(2) by simp
  with next_return [where P = P and st = st, OF emits_return.prems(1) emits_return.hyps, of "n - 3"] show ?case by (auto simp: reaches_def)
next
  case (emits_yield st v st' as)
  define m where "m = n - 2"
  have n: "n = Suc (Suc m)" "2 * length as + 3 \<le> m" using emits_yield.prems(2) by (simp_all add: m_def)
  from next_yield [where P = P and st = st, OF emits_yield.prems(1) emits_yield.hyps(1)] obtain s1
    where s1: "cons_next n P each s = cons_next m P each s1" "calling each st' (lg @ [v]) s1" unfolding n(1) by blast
  with emits_yield.IH [OF s1(2) n(2)] show ?case by (auto intro: reaches_Inl)
next
  case (emits_await st w st' as)
  have "n = Suc (Suc (n - 2))" using emits_await.prems(2) by simp
  with next_await [where P = P and st = st, OF emits_await.prems(1) emits_await.hyps(1), of "n - 2"] obtain s'
    where "cons_next n P each s = Ret () s'" "sleeping each st' w lg s'" by metis
  then show ?case using reaches_Inr [OF _ emits_await.hyps(2)] by blast
qed

text \<open>The generator resumed by the process.\<close>

lemma sleeping_reaches:
  assumes "sleeping each st w lg s" and "emits P st as" and "as \<noteq> []" and "2 * length as + 3 \<le> n"
  shows "\<exists>s'. gen_task_resume n P each s = resume_result s' \<and> reaches P each as lg s'"
proof -
  define m where "m = n - 2"
  have n: "n = Suc (Suc m)" using assms(4) by (simp add: m_def)
  let ?s = "upd_promise proc_id (\<lambda>co. co\<lparr>waiting := None, nextChild := None\<rparr>) s"
  have r: "gen_task_resume n P each s = res_bind (gen_run n P each st ?s) (\<lambda>_ s. resume_result s)"
    using assms(1) by (auto simp: sleeping_def gen_task_resume_def resume_innermost_def upd_promise_def upd_co_def)
  from assms(2,3) show ?thesis
  proof (cases rule: emits.cases)
    case (emits_yield v st' as')
    let ?s1 = "upd_promise proc_id (\<lambda>co. co\<lparr>subCoroutineChild := None\<rparr>) (upd_promise gen_id (\<lambda>co. co\<lparr>parent := None\<rparr>)
      (upd_promise gen_id (\<lambda>co. co\<lparr>waiting := None, suspendedAt := Some (None, UserFrame (Inl st'))\<rparr>) (?s\<lparr>gen_t := Some v\<rparr>)))"
    have "gen_run n P each st ?s = cons_run (Suc m) P each ?s1"
      using assms(1) emits_yield(2) unfolding n by (auto simp: sleeping_def upd_promise_def upd_co_def simp del: cons_run.simps)
    moreover have c: "calling each st' lg ?s1" "gen_t ?s1 = Some v"
      using assms(1) by (auto simp: sleeping_def calling_def upd_promise_def upd_co_def)
    moreover from run_given [OF c] obtain s2 where "cons_run (Suc m) P each ?s1 = cons_next m P each s2" "calling each st' (lg @ [v]) s2"
      by blast
    moreover have "2 * length as' + 3 \<le> m" using assms(4) emits_yield(1) n by simp
    ultimately show ?thesis
      using r calling_reaches [OF emits_yield(3)] emits_yield(1) by (metis reaches_Inl res_bind.simps(1))
  next
    case (emits_await w' st' as')
    with assms(1) obtain s1 where "gen_run n P each st ?s = Ret () s1" "sleeping each st' w' lg s1"
      unfolding n by (auto simp: sleeping_def promise_simps await_suspend_def Let_def)
    then show ?thesis using r reaches_Inr [OF _ emits_await(3)] emits_await(1) by auto
  qed simp
qed

lemma result_ended: "ended lg s \<Longrightarrow> \<exists>s'. resume_result s = Ret None s' \<and> taken s' = lg \<and> cos (promises_of s') proc_id = None"
  by (auto simp: ended_def resume_result_def del_co_def)

lemma result_sleeping: "sleeping each st w lg s \<Longrightarrow> resume_result s = Ret (Some (Some w)) s"
  by (auto simp: sleeping_def resume_result_def)

section \<open>The whole run\<close>

lemma actions_yields [simp]: "values_of (map Inl vs @ as) = vs @ values_of as" "awaits_of (map Inl vs @ as) = awaits_of as"
  by (induction vs) simp_all

lemma actions_only_yields [simp]: "values_of (map Inl vs) = vs" "awaits_of (map Inl vs) = []"
  using actions_yields [of vs "[]"] by simp_all

text \<open>The generator does not end right after an awaitable.\<close>

definition ends_clean :: "('v + Awaitable) list \<Rightarrow> bool" where
  "ends_clean as \<longleftrightarrow> as = [] \<or> (\<exists>v. last as = Inl v)"

text \<open>The resumes of the process that are still to come, once the first of them has come to \<open>s\<close>.\<close>

definition rest_of_run :: "nat \<Rightarrow> nat \<Rightarrow> ('g, 'v) generator \<Rightarrow> bool \<Rightarrow> ('g, 'v) GenRun \<Rightarrow> (Awaitable option list, ('g, 'v) GenRun) res" where
  "rest_of_run k n P each s =
     res_bind (resume_result s) (\<lambda>w s. case w of
         None \<Rightarrow> Ret [] s
       | Some w \<Rightarrow> res_bind (drive k n P each s) (\<lambda>ws s. Ret (w # ws) s))"

lemma sleeping_return:
  assumes "sleeping each st w lg s" and "P st = GReturn"
  shows "\<exists>s'. gen_task_resume (Suc n) P each s = Ret (Some None) s' \<and> taken s' = lg
    \<and> (\<exists>rt. cos (promises_of s') proc_id = Some rt \<and> finalValue rt = None)"
  using assms by (auto simp: sleeping_def gen_task_resume_def resume_innermost_def resume_result_def upd_promise_def upd_co_def)

text \<open>
  Every awaitable of the generator costs one resume. A run that ends right after an awaitable makes one
  more, which returns a null pointer with the process not ended.
\<close>

definition outcome :: "('v + Awaitable) list \<Rightarrow> 'v list \<Rightarrow> Awaitable option list \<Rightarrow> ('g, 'v) GenRun \<Rightarrow> bool" where
  "outcome as lg ws s \<longleftrightarrow> taken s = lg @ values_of as \<and>
     (if ends_clean as then ws = map Some (awaits_of as) \<and> cos (promises_of s) proc_id = None
      else ws = map Some (awaits_of as) @ [None] \<and> (\<exists>rt. cos (promises_of s) proc_id = Some rt \<and> finalValue rt = None))"

lemma outcome_suspended:
  "outcome as (lg @ vs) ws s \<Longrightarrow> as \<noteq> [] \<Longrightarrow> outcome (map Inl vs @ Inr w # as) lg (Some w # ws) s"
  by (auto simp: outcome_def ends_clean_def split: if_splits)

lemma rest_of_run_outcome:
  "reaches P each as lg s \<Longrightarrow> 2 * length as + 3 \<le> n \<Longrightarrow>
   \<exists>ws s'. rest_of_run (length (awaits_of as)) n P each s = Ret ws s' \<and> outcome as lg ws s'"
proof (induction "length as" arbitrary: as lg s rule: less_induct)
  case less
  from less.prems(1) consider (all) vs where "as = map Inl vs" "ended (lg @ vs) s"
    | (await) vs w rest st where "as = map Inl vs @ Inr w # rest" "sleeping each st w (lg @ vs) s" "emits P st rest"
    by (auto simp: reaches_def)
  then show ?case
  proof cases
    case all
    then have "ends_clean as" by (auto simp: ends_clean_def) (metis last_map)
    then show ?thesis using result_ended [OF all(2)] all(1) by (auto simp: rest_of_run_def outcome_def)
  next
    case await
    have n: "n = Suc (n - 1)" and l: "length rest < length as" "2 * length rest + 3 \<le> n"
      using less.prems(2) await(1) by simp_all
    have "\<exists>ws s'. drive (Suc (length (awaits_of rest))) n P each s = Ret ws s' \<and> outcome as lg (Some w # ws) s'"
    proof (cases "rest = []")
      case True
      then have ret: "P st = GReturn" using await(3) by (auto elim: emits_NilE)
      have "\<not> ends_clean as" using True await(1) by (simp add: ends_clean_def)
      moreover from sleeping_return [where P = P and n = "n - 1", OF await(2) ret] n obtain s' where
        "gen_task_resume n P each s = Ret (Some None) s'" "taken s' = lg @ vs"
        "\<exists>rt. cos (promises_of s') proc_id = Some rt \<and> finalValue rt = None" by metis
      ultimately show ?thesis using await(1) True by (simp add: outcome_def)
    next
      case False
      from sleeping_reaches [OF await(2,3) False l(2)] obtain s1
        where s1: "gen_task_resume n P each s = resume_result s1" "reaches P each rest (lg @ vs) s1" by blast
      with less.hyps [OF l(1) s1(2) l(2)] outcome_suspended [OF _ False, of lg vs] await(1) show ?thesis
        by (simp add: rest_of_run_def) blast
    qed
    then show ?thesis using result_sleeping [OF await(2)] await(1) by (auto simp: rest_of_run_def)
  qed
qed

lemma first_resume:
  assumes "emits P st as" and "2 * length as + 3 \<le> n"
  shows "\<exists>s. gen_task_resume n P each (gen_init st) = resume_result s \<and> reaches P each as [] s"
proof -
  let ?s = "upd_promise proc_id (\<lambda>co. co\<lparr>waiting := None, nextChild := None\<rparr>) (gen_init st)"
  have "calling each st [] ?s"
    by (simp add: calling_def gen_init_def upd_promise_def upd_co_def ProcessPromise_init_def GenPromise_init_def MethodTaskPromise_init_def)
  from calling_reaches [OF assms(1) this assms(2)] obtain s where "cons_next n P each ?s = Ret () s" "reaches P each as [] s" by blast
  moreover have "gen_task_resume n P each (gen_init st) = res_bind (cons_next n P each ?s) (\<lambda>_ s. resume_result s)"
    by (simp add: gen_task_resume_def resume_innermost_def gen_init_def upd_promise_def upd_co_def ProcessPromise_init_def Let_def)
  ultimately show ?thesis by auto
qed

text \<open>C9: A loop over a generator sees exactly what the generator yields: whether written with \<open>next()\<close> or as
  \<open>for co_await\<close>, for every generator that ends, and does not end right after an awaitable, the loop body
  is given the yielded values in order and nothing else, the process suspends exactly on the awaitables
  of the generator in their order, and it then ends; the fuel that is enough is linear in the number of
  actions.\<close>

theorem generator_loop_is_fold:
  assumes "emits P st as" and "ends_clean as" and "2 * length as + 3 \<le> n"
  shows "\<exists>s. drive (Suc (length (awaits_of as))) n P each (gen_init st) = Ret (map Some (awaits_of as)) s
    \<and> taken s = values_of as \<and> cos (promises_of s) proc_id = None"
proof -
  obtain s where "gen_task_resume n P each (gen_init st) = resume_result s" "reaches P each as [] s"
    using first_resume [OF assms(1,3)] by blast
  with rest_of_run_outcome [OF _ assms(3), of P each "[]" s] assms(2) show ?thesis
    by (auto simp: rest_of_run_def outcome_def)
qed

text \<open>A generator that yields 99, sleeps, and yields 0.\<close>

definition demo_gen :: "(nat, int) generator" where
  "demo_gen k = (if k = 0 then GYield 99 1 else if k = 1 then GAwait (sleep 2000) 2 else if k = 2 then GYield 0 3 else GReturn)"

lemma demo_gen_emits: "emits demo_gen 0 [Inl 99, Inr (sleep 2000), Inl 0]"
  by (rule emits_yield [where st' = 1], simp add: demo_gen_def, rule emits_await [where st' = 2], simp add: demo_gen_def,
      rule emits_yield [where st' = 3], simp add: demo_gen_def, rule emits_return, simp add: demo_gen_def)

theorem generator_loop_is_fold_witness:
  "\<exists>s. drive 2 9 demo_gen True (gen_init 0) = Ret [Some (sleep 2000)] s \<and> taken s = [99, 0]"
  using generator_loop_is_fold [OF demo_gen_emits, of 9 True] by (auto simp: ends_clean_def numeral_2_eq_2)

section \<open>A generator that ends after an awaitable\<close>

text \<open>C39: A generator that ends right after an awaitable breaks the process that loops over it: its final
  suspension resumes nobody, so after the resume for its last awaitable \<open>ProcessTask::resume\<close> returns a
  null pointer although the process has not ended, and the loop never learns that there are no more
  values. \<open>RunningProcess::resume\<close> dereferences this pointer.\<close>

theorem generator_end_after_await_gives_null:
  assumes "emits P st as" and "\<not> ends_clean as" and "2 * length as + 3 \<le> n"
  shows "\<exists>s. drive (Suc (length (awaits_of as))) n P each (gen_init st) = Ret (map Some (awaits_of as) @ [None]) s
    \<and> taken s = values_of as \<and> (\<exists>rt. cos (promises_of s) proc_id = Some rt \<and> finalValue rt = None)"
proof -
  obtain s where "gen_task_resume n P each (gen_init st) = resume_result s" "reaches P each as [] s"
    using first_resume [OF assms(1,3)] by blast
  with rest_of_run_outcome [OF _ assms(3), of P each "[]" s] assms(2) show ?thesis
    by (auto simp: rest_of_run_def outcome_def)
qed

definition bad_gen :: "(nat, int) generator" where
  "bad_gen k = (if k = 0 then GYield 99 1 else if k = 1 then GAwait (sleep 2000) 2 else GReturn)"

theorem generator_end_after_await_gives_null_witness:
  "\<exists>s. drive 2 7 bad_gen False (gen_init 0) = Ret [Some (sleep 2000), None] s \<and> taken s = [99]"
proof -
  have "emits bad_gen 0 [Inl 99, Inr (sleep 2000)]"
    by (rule emits_yield [where st' = 1], simp add: bad_gen_def, rule emits_await [where st' = 2], simp add: bad_gen_def,
        rule emits_return, simp add: bad_gen_def)
  from generator_end_after_await_gives_null [OF this, of 7 False] show ?thesis
    by (auto simp: ends_clean_def numeral_2_eq_2)
qed

end
