(* ===== verification/Invariants.thy ===== *)
theory Invariants
  imports Scheduler
begin

text \<open>
  How invariants of the context are proved. The locale \<open>code_preserved\<close> collects what a property has
  to satisfy for the pieces of \<open>RunningProcess::resume\<close> and derives that resuming a process keeps it;
  \<open>io_preserved\<close> adds the steps of the io service, \<open>round_preserved\<close> the items of the work queue and
  the destruction of processes; \<open>scheduler_preserved\<close> is both and derives that every run keeps the
  property, and \<open>scheduler_invariant\<close> adds the fresh context.
\<close>

section \<open>Invariants of the scheduler\<close>

text \<open>
  \<open>J None\<close> is the invariant between two pieces of process code; \<open>J (Some (a, pid))\<close> holds while
  the process object at \<open>a\<close> with identifier \<open>pid\<close> runs, from the moment its timer is cancelled to the moment
  it has suspended and is armed again, has ended or has failed.
\<close>

locale code_preserved =
  fixes S :: "('st, 'm) SpawnSpec \<Rightarrow> bool"
    and J :: "(addr \<times> Pid) option \<Rightarrow> ('st, 'm) Context \<Rightarrow> bool"
  assumes J_enter: "J None c \<Longrightarrow> heap c a = Some rp \<Longrightarrow> \<not> dead rp \<Longrightarrow> J (Some (a, rp_pid rp)) (cancel_timer a c)"
    and J_process: "J (Some (a, p)) c \<Longrightarrow> keeps (J (Some (a, p))) (process_last a rp c)"
    and J_count: "J (Some (a, p)) c \<Longrightarrow>
      J (Some (a, p)) (upd_proc a (\<lambda>rp. rp\<lparr>resumes := resumes rp + 1\<rparr>) c)"
    and J_call: "J (Some (a, p)) c \<Longrightarrow> call_all S r \<Longrightarrow> keeps (J (Some (a, p))) (do_call a r c)"
    and J_await: "J (Some (a, p)) c \<Longrightarrow> keeps (J (Some (a, p))) (finish_await aw c)"
    and J_suspend: "J (Some (a, p)) c \<Longrightarrow>
      await_ready (slots c) (promise_at c) (underlying aw) = Some False \<Longrightarrow>
      keeps (J None) (arm a (underlying aw)
        (upd_proc a (\<lambda>rp. rp\<lparr>lastWaiting := Some (underlying aw), task := Some (Some aw, fs)\<rparr>) c))"
    and J_end: "J (Some (a, p)) c \<Longrightarrow>
      J None (addtoDestroy p s (upd_proc a (\<lambda>rp. rp\<lparr>lastWaiting := None, task := None\<rparr>) c))"
    and J_throw: "J (Some (a, p)) c \<Longrightarrow> J None (addtoDestroy p s c)"
begin

lemma frame_code_all: "program_all S P \<Longrightarrow> code_all S (frame_code P f v)"
  by (cases f) (auto simp: program_all_def sendThrottled_loop_def split: Answer.split option.split)

text \<open>Running code keeps the invariant, and a suspension happens on something not ready.\<close>

definition suspended_post :: "addr \<times> Pid \<Rightarrow> ('st, 'm) ProcessTask option \<Rightarrow> ('st, 'm) Context \<Rightarrow> bool" where
  "suspended_post R t c \<longleftrightarrow> J (Some R) c \<and>
     (\<forall>aw fs. t = Some (Some aw, fs) \<longrightarrow> await_ready (slots c) (promise_at c) (underlying aw) = Some False)"

lemma exec_code_post:
  "program_all S P \<Longrightarrow> code_all S cd \<Longrightarrow> J (Some (a, p)) c \<Longrightarrow>
   res_post (suspended_post (a, p)) (J (Some (a, p))) (exec_code n P a cd fs c)"
proof (induction n P a cd fs c rule: exec_code.induct)
  case (3 n P a v f fs c)
  then show ?case by (simp add: frame_code_all)
next
  case (6 n P a r k fs c)
  have "keeps (J (Some (a, p))) (do_call a r c)" using 6 by (intro J_call) auto
  then show ?case using 6 by (auto intro: res_post_bind)
next
  case (7 n P a aw f fs c)
  note J = 7(4)
  consider "await_ready (slots c) (promise_at c) (underlying aw) = None"
    | "await_ready (slots c) (promise_at c) (underlying aw) = Some False"
    | (ready) "await_ready (slots c) (promise_at c) (underlying aw) = Some True"
    by (metis option.exhaust)
  then show ?case
  proof cases
    case ready
    have "res_post (suspended_post (a, p)) (J (Some (a, p)))
        (exec_code n P a (frame_code P f v) fs c')" if "J (Some (a, p)) c'" for v c'
      using 7(1) [OF ready] 7(2) that by (simp add: frame_code_all)
    then show ?thesis using ready J_await [OF J] by (auto intro: res_post_bind)
  qed (use J in \<open>simp_all add: suspended_post_def\<close>)
qed (simp_all add: suspended_post_def)

lemma run_task_post:
  assumes "program_all S P" and "J (Some (a, p)) c"
  shows "res_post (suspended_post (a, p)) (J (Some (a, p))) (run_task n P a rp c)"
  unfolding run_task_def
proof (rule res_post_bind [OF J_process [OF assms(2)]])
  fix u c
  assume J: "J (Some (a, p)) c"
  let ?c = "upd_proc a (\<lambda>rp. rp\<lparr>resumes := resumes rp + 1\<rparr>) c"
  have J': "J (Some (a, p)) ?c" using J by (rule J_count)
  have ex: "res_post (suspended_post (a, p)) (J (Some (a, p))) (exec_code n P a (frame_code P f v) fs c)"
    if "J (Some (a, p)) c" for f v fs c
    using assms(1) frame_code_all [OF assms(1)] that by (rule exec_code_post)
  have "res_post (suspended_post (a, p)) (J (Some (a, p))) (task_resume n P a t ?c)" for t
    using J' ex res_post_bind [OF J_await [OF J'] ex]
    by (cases t) (auto simp: task_resume_def suspended_post_def split: option.split list.split)
  then show "res_post (suspended_post (a, p)) (J (Some (a, p)))
      (let c = ?c in case task rp of None \<Rightarrow> Undef NullDeref | Some t \<Rightarrow> task_resume n P a t c)"
    by (simp split: option.split)
qed

text \<open>\<open>resume\<close> of a live process, entered with its own exemption, leads back to the invariant.\<close>

lemma resume_running:
  assumes "program_all S P" and "heap c a = Some rp" and "\<not> dead rp"
    and "J (Some (a, rp_pid rp)) (cancel_timer a c)"
  shows "keeps (J None) (resume n P a c)"
proof -
  have "res_post (suspended_post (a, rp_pid rp)) (J (Some (a, rp_pid rp)))
      (run_task n P a rp (cancel_timer a c))"
    using assms(1,4) by (rule run_task_post)
  then show ?thesis
    using assms(2,3)
    by (auto simp: resume_def suspended_post_def split: res.split option.split
        intro: J_end J_throw J_suspend)
qed

lemma resume_keeps:
  assumes "program_all S P" and "J None c"
  shows "keeps (J None) (resume n P a c)"
proof (cases "heap c a")
  case None
  then show ?thesis by (simp add: resume_def)
next
  case (Some rp)
  show ?thesis
  proof (cases "dead rp")
    case True
    with Some assms(2) show ?thesis by (simp add: resume_def)
  next
    case False
    with Some assms show ?thesis by (blast intro: resume_running J_enter)
  qed
qed

lemma run_handler_keeps:
  "program_all S P \<Longrightarrow> J None c \<Longrightarrow> keeps (J None) (run_handler n P h c)"
  by (cases h) (auto split: option.split intro: resume_keeps)

end

text \<open>What the io service does inside \<open>run_one\<close> and \<open>poll\<close>.\<close>

locale io_preserved = code_preserved +
  assumes J_expire: "J None c \<Longrightarrow> (a, t) \<in> set (waits c) \<Longrightarrow>
      J None (c\<lparr>waits := remove1 (a, t) (waits c), posted := posted c @ [TimerFired a]\<rparr>)"
    and J_take: "J None c \<Longrightarrow> posted c = hs @ h # hs' \<Longrightarrow>
      (\<And>a rp. h = TimerFired a \<Longrightarrow> heap c a = Some rp \<Longrightarrow> dead rp) \<Longrightarrow> J None (c\<lparr>posted := hs @ hs'\<rparr>)"
    and J_fire: "J None c \<Longrightarrow> posted c = hs @ TimerFired a # hs' \<Longrightarrow> heap c a = Some rp \<Longrightarrow> \<not> dead rp \<Longrightarrow>
      J (Some (a, rp_pid rp)) (cancel_timer a (c\<lparr>posted := hs @ hs'\<rparr>))"
    and J_signal: "J None c \<Longrightarrow> promise_at c (UserP k) = Some q \<Longrightarrow>
      (q', hs) = setIfUnset q \<or> (q', hs) = setException e q \<Longrightarrow>
      J None ((put_promise (UserP k) q' c)\<lparr>posted := posted c @ hs\<rparr>)"
    and J_request: "J None c \<Longrightarrow> heap c a = Some rp \<Longrightarrow> call_all S r \<Longrightarrow> keeps (J None) (do_call a r c)"
begin

lemma invoke_keeps:
  assumes P: "program_all S P" and J: "J None c" and h: "posted c = hs @ h # hs'"
  shows "keeps (J None) (run_handler n P h (c\<lparr>posted := hs @ hs'\<rparr>))"
proof (cases h)
  case (TimerFired a)
  show ?thesis
  proof (cases "heap c a")
    case (Some rp)
    show ?thesis
    proof (cases "dead rp")
      case True
      have "J None (c\<lparr>posted := hs @ hs'\<rparr>)" by (rule J_take [OF J h]) (use TimerFired Some True in simp)
      then show ?thesis using TimerFired resume_keeps [OF P] by simp
    next
      case False
      have "J (Some (a, rp_pid rp)) (cancel_timer a (c\<lparr>posted := hs @ hs'\<rparr>))"
        by (rule J_fire [OF J _ Some False]) (use h TimerFired in simp)
      then show ?thesis using TimerFired Some False by (auto intro: resume_running [OF P])
    qed
  qed (use TimerFired in \<open>simp add: resume_def\<close>)
next
  case (WakeFuture a k)
  have "J None (c\<lparr>posted := hs @ hs'\<rparr>)" by (rule J_take [OF J h]) (use WakeFuture in simp)
  then show ?thesis by (rule run_handler_keeps [OF P])
qed

lemma io_step_keeps: "io_step S P c c' \<Longrightarrow> program_all S P \<Longrightarrow> J None c \<Longrightarrow> J None c'"
proof (induction rule: io_step.induct)
  case (expire a t c)
  then show ?case by (simp add: J_expire)
next
  case (invoke c hs h hs' n c')
  then show ?case using invoke_keeps [OF invoke.prems invoke.hyps(1), of n] by simp
next
  case (signal c i p p' hs e)
  then show ?case by (blast intro: J_signal)
next
  case (request c a rp r v c')
  then show ?case using J_request [of c a rp r] by simp
qed

lemma io_steps_keeps: "io_steps S P c c' \<Longrightarrow> program_all S P \<Longrightarrow> J None c \<Longrightarrow> J None c'"
  by (induction rule: io_steps.induct) (auto intro: io_step_keeps)

end

text \<open>Queue items, destruction, and spawns from outside: what happens when the io service is idle.\<close>

locale round_preserved = code_preserved +
  assumes J_spawn: "J None c \<Longrightarrow> S sp \<Longrightarrow> keeps (J None) (spawn sp c)"
    and J_push: "J None c \<Longrightarrow> queue c = item # items \<Longrightarrow> ti_message item = Some (t, m) \<Longrightarrow>
      findProc (ti_pid item) c = Some a \<Longrightarrow> heap c a = Some rp \<Longrightarrow>
      slot_queue (slots c) (sa_slot t) = Some mq \<Longrightarrow> \<not> (waitingFor rp (sa_slot t) \<and> \<not> dead rp) \<Longrightarrow>
      J None (c\<lparr>queue := items, slots := set_slot_queue (sa_slot t) (mq_push m mq) (slots c)\<rparr>)"
    and J_wake: "J None c \<Longrightarrow> queue c = item # items \<Longrightarrow> ti_message item = Some (t, m) \<Longrightarrow>
      findProc (ti_pid item) c = Some a \<Longrightarrow> heap c a = Some rp \<Longrightarrow>
      slot_queue (slots c) (sa_slot t) = Some mq \<Longrightarrow> waitingFor rp (sa_slot t) \<Longrightarrow> \<not> dead rp \<Longrightarrow>
      J (Some (a, rp_pid rp)) (cancel_timer a
        (c\<lparr>queue := items, slots := set_slot_queue (sa_slot t) (mq_push m mq) (slots c)\<rparr>))"
    and J_queue: "J None c \<Longrightarrow> queue c = item # items \<Longrightarrow> J None (c\<lparr>queue := items\<rparr>)"
    and J_destroy: "J None c \<Longrightarrow> J None (destroy_front c)"
begin

lemma destroy_all_keeps: "J None c \<Longrightarrow> J None (destroy_all c)"
proof (induction c rule: destroy_all.induct)
  case (1 c)
  then show ?case by (cases "toDestroy c = []") (auto simp: destroy_all.simps [of c] J_destroy)
qed

text \<open>An item taken from the queue: the message is delivered, then the resume is considered.\<close>

lemma deliver_keeps:
  assumes "program_all S P" and "J None c" and "queue c = item # items"
    and "ti_message item = Some (t, m)" and "findProc (ti_pid item) c = Some a"
  shows "keeps (J None) (rp_send n P a t m (c\<lparr>queue := items\<rparr>))"
proof (cases "heap c a")
  case None
  then show ?thesis by (simp add: rp_send_def)
next
  case (Some rp)
  show ?thesis
  proof (cases "slot_queue (slots c) (sa_slot t)")
    case None
    with Some show ?thesis by (simp add: rp_send_def Let_def)
  next
    case (Some mq)
    let ?c = "c\<lparr>queue := items, slots := set_slot_queue (sa_slot t) (mq_push m mq) (slots c)\<rparr>"
    note push = J_push [OF assms(2-5) \<open>heap c a = Some rp\<close> Some] and wake = J_wake [OF assms(2-5) \<open>heap c a = Some rp\<close> Some]
    have "keeps (J None) (resume n P a ?c)" if "waitingFor rp (sa_slot t)"
      using that push wake \<open>heap c a = Some rp\<close> resume_running [OF assms(1), of ?c a rp]
      by (cases "dead rp") (simp_all add: resume_def)
    then show ?thesis using Some \<open>heap c a = Some rp\<close> push by (simp add: rp_send_def Let_def)
  qed
qed

lemma wake_up_keeps:
  assumes "program_all S P" and "J None c"
  shows "keeps (J None)
    (case findProc p c of
       None \<Rightarrow> Ret () c
     | Some it \<Rightarrow>
         (case heap c it of
            None \<Rightarrow> Undef UseAfterFree
          | Some rp \<Rightarrow> if resumes rp = k then resume n P it c else Ret () c))"
  using assms resume_keeps [OF assms] by (simp split: option.split)

lemma processQueueItem_keeps:
  assumes "program_all S P" and "J None c" and "queue c = item # items"
  shows "keeps (J None) (processQueueItem n P item (c\<lparr>queue := items\<rparr>))"
  unfolding processQueueItem_def
proof (rule res_post_bind)
  have "J None (c\<lparr>queue := items\<rparr>)" using assms(2,3) by (rule J_queue)
  then show "keeps (J None)
     (case ti_message item of
        None \<Rightarrow> Ret () (c\<lparr>queue := items\<rparr>)
      | Some (t, m) \<Rightarrow>
          (case findProc (ti_pid item) (c\<lparr>queue := items\<rparr>) of
             None \<Rightarrow> Ret () (c\<lparr>queue := items\<rparr>)
           | Some it \<Rightarrow> rp_send n P it t m (c\<lparr>queue := items\<rparr>)))"
    using deliver_keeps [OF assms] by (auto simp: findProc_def split: option.split if_splits)
qed (auto split: option.split intro: resume_keeps [OF assms(1)])

end

text \<open>The whole loop of \<open>run\<close>.\<close>

locale scheduler_preserved = io_preserved S J + round_preserved S J
  for S :: "('st, 'm) SpawnSpec \<Rightarrow> bool" and J :: "(addr \<times> Pid) option \<Rightarrow> ('st, 'm) Context \<Rightarrow> bool"
begin

lemma run_step_keeps: "run_step S P c c' \<Longrightarrow> program_all S P \<Longrightarrow> J None c \<Longrightarrow> J None c'"
proof (induction rule: run_step.induct)
  case (item c i "is" n c')
  from processQueueItem_keeps [OF item.prems item.hyps(2), of n] item.hyps(3)
  show ?case by (auto intro: destroy_all_keeps)
next
  case (io c c')
  then show ?case by (blast intro: destroy_all_keeps io_steps_keeps)
qed

lemma run_steps_keeps: "run_steps S P c c' \<Longrightarrow> program_all S P \<Longrightarrow> J None c \<Longrightarrow> J None c'"
  by (induction rule: run_steps.induct) (auto intro: run_step_keeps)

end

text \<open>An invariant holds at the start as well, and so in every reachable state.\<close>

locale scheduler_invariant = scheduler_preserved +
  assumes J_init: "J None Context_init"
begin

lemma reachable_keeps: "reachable S P c \<Longrightarrow> program_all S P \<Longrightarrow> J None c"
proof (induction rule: reachable.induct)
  case fresh
  show ?case by (rule J_init)
next
  case (spawned c sp p c')
  then show ?case using J_spawn [of c sp] by simp
next
  case (spawn_failed c sp e c')
  then show ?case using J_spawn [of c sp] by simp
next
  case (stepped c c')
  then show ?case by (blast intro: run_step_keeps)
qed

end

end
