(* ===== verification/Table.thy ===== *)
theory Table
  imports Invariants
begin

text \<open>
  The process table: \<open>processes\<close>, \<open>tombstones\<close>, \<open>toDestroy\<close> and the ownership of process objects.
  The locale \<open>table_preserved\<close> reduces a property of the table to the four actions that change
  it: killing, destroying, spawning, and a spawn whose constructor throws.
\<close>

section \<open>Operations that leave the table alone\<close>

text \<open>A process object keeps its identity, and its links only grow.\<close>

definition same_proc :: "('st, 'm) RunningProcess \<Rightarrow> ('st, 'm) RunningProcess \<Rightarrow> bool" where
  "same_proc rp rp' \<longleftrightarrow> dead rp' = dead rp \<and> rp_pid rp' = rp_pid rp
     \<and> pr_pid (rp_process rp') = pr_pid (rp_process rp)
     \<and> set (killOnDie (rp_process rp)) \<subseteq> set (killOnDie (rp_process rp'))"

definition same_table :: "('st, 'm) Context \<Rightarrow> ('st, 'm) Context \<Rightarrow> bool" where
  "same_table c c' \<longleftrightarrow> processes c' = processes c \<and> tombstones c' = tombstones c
     \<and> toDestroy c' = toDestroy c \<and> next_addr c' = next_addr c
     \<and> (\<forall>a. rel_option same_proc (heap c a) (heap c' a))"

abbreviation keeps_table :: "('st, 'm) Context \<Rightarrow> ('a, ('st, 'm) Context) res \<Rightarrow> bool" where
  "keeps_table c \<equiv> keeps (same_table c)"

lemma same_proc_refl [simp]: "same_proc rp rp"
  by (simp add: same_proc_def)

lemma rel_same_proc_refl [simp]: "rel_option same_proc x x"
  by (cases x) simp_all

lemma same_table_refl [simp]: "same_table c c"
  by (simp add: same_table_def)

lemma same_proc_trans: "same_proc a b \<Longrightarrow> same_proc b c \<Longrightarrow> same_proc a c"
  by (auto simp: same_proc_def)

lemma same_table_trans: "same_table a b \<Longrightarrow> same_table b c \<Longrightarrow> same_table a c"
  using option.rel_transp [OF transpI, of same_proc] same_proc_trans
  unfolding same_table_def by (metis transpD)

lemma same_table_heap:
  assumes "same_table c c'"
  shows "heap c' a = None \<longleftrightarrow> heap c a = None"
    and "heap c a = Some rp \<Longrightarrow> \<exists>rp'. heap c' a = Some rp' \<and> same_proc rp rp'"
    and "heap c' a = Some rp' \<Longrightarrow> \<exists>rp. heap c a = Some rp \<and> same_proc rp rp'"
  using assms unfolding same_table_def by (metis option.rel_sel, metis option_rel_Some1, metis option_rel_Some2)

lemma findProc_same_table:
  assumes "same_table c c'"
  shows "findProc p c' = findProc p c"
proof (cases "unat (idx p) < length (processes c) \<and> processes c ! unat (idx p) \<noteq> None")
  case False
  then show ?thesis using assms by (auto simp: findProc_def same_table_def)
next
  case True
  then obtain a where a: "processes c ! unat (idx p) = Some a" by auto
  show ?thesis
    using True a assms same_table_heap(1,2) [OF assms, of a]
    by (cases "heap c a") (auto simp: findProc_def same_table_def same_proc_def)
qed

lemma same_table_upd_proc:
  "(\<And>rp. same_proc rp (f rp)) \<Longrightarrow> same_table c (upd_proc a f c)"
  by (auto simp: same_table_def upd_proc_def option.rel_map(2) rel_option_iff split: option.split)

lemma same_proc_updates [simp]:
  "same_proc rp (rp\<lparr>resumes := n\<rparr>)" "same_proc rp (rp\<lparr>lastWaiting := w, task := t\<rparr>)"
  "same_proc rp (rp\<lparr>rp_process := addKillOnDie b (rp_process rp)\<rparr>)"
  by (auto simp: same_proc_def addKillOnDie_def)

named_theorems table_frame

lemma same_table_fields [simp, table_frame]:
  "same_table c (c\<lparr>queue := q\<rparr>)" "same_table c (c\<lparr>posted := hs\<rparr>)" "same_table c (c\<lparr>waits := ws\<rparr>)"
  "same_table c (c\<lparr>slots := st\<rparr>)" "same_table c (c\<lparr>promises := ps\<rparr>)"
  "same_table c (c\<lparr>waits := ws, posted := hs\<rparr>)" "same_table c (c\<lparr>queue := q, slots := st\<rparr>)"
  "same_table c (c\<lparr>slots := st, posted := hs\<rparr>)" "same_table c (c\<lparr>slots := st, next_slot := k\<rparr>)"
  "same_table c (c\<lparr>posted := hs, slots := st\<rparr>)"
  "same_table c (c\<lparr>promises := ps, next_promise := k\<rparr>)"
  by (simp_all add: same_table_def)

lemma same_table_basic [simp, table_frame]:
  "same_table c (queueSend d m c)" "same_table c (queueResume p n c)" "same_table c (cancel_timer a c)"
  "same_table c (start_timer a t c)" "same_table c (put_promise r q c)" "same_table c (drop_slot i c)"
  "same_table c (snd (new_slot a c))" "same_table c (addKillOnDie_at a b c)"
  by (simp_all add: queueSend_def queueResume_def cancel_timer_def start_timer_def put_promise_def
      drop_slot_def new_slot_def addKillOnDie_at_def same_table_upd_proc
      split: promise_ref.split option.split)

lemma same_table_signal [simp, table_frame]: "same_table c ((put_promise r q c)\<lparr>posted := hs\<rparr>)"
  by (rule same_table_trans [OF same_table_basic(5) same_table_fields(2)])

lemma findProc_const_table [table_frame]: "keeps_table c (findProc_const p c)"
  by (simp add: findProc_const_def split: option.split)

lemma canQueue_table [table_frame]: "keeps_table c (canQueue t c)"
  unfolding canQueue_def
  by (rule res_post_bind [OF findProc_const_table]) (simp split: option.split)

lemma makeSendAddress_table [table_frame]: "keeps_table c (makeSendAddress p cls slot c)"
  by (simp add: makeSendAddress_def split: option.split)

lemma link_table [table_frame]: "keeps_table c (link this own b c)"
  by (auto simp: link_def split: option.split
      intro: same_table_trans [OF same_table_basic(8) same_table_upd_proc])

lemma finish_await_table [table_frame]: "keeps_table c (finish_await aw c)"
  by (simp add: finish_await_def Let_def split: option.split Awaitable.split sum.split)

lemma process_last_table [table_frame]: "keeps_table c (process_last a rp c)"
  by (simp add: process_last_def split: option.split sum.split)

lemma arm_future_table [table_frame]: "keeps_table c (arm_future a n r c)"
  by (simp add: arm_future_def split: option.split prod.split)

lemma arm_table [table_frame]: "keeps_table c (arm a w c)"
  using arm_future_table [of "start_timer a _ c"] arm_future_table [of c]
  by (auto simp: arm_def Let_def split: option.split
      intro: res_post_mono [OF arm_future_table] same_table_trans [OF same_table_basic(4)])

section \<open>Construction\<close>

lemma new_members_table:
  "same_table c (snd (new_members a ns p c)) \<and> pr_pid (fst (new_members a ns p c)) = pr_pid p"
proof (induction ns arbitrary: p c)
  case Nil
  show ?case by simp
next
  case (Cons n ns)
  obtain sid c1 where ns: "new_slot a c = (sid, c1)" by (cases "new_slot a c")
  with same_table_basic(7) [of c a] have "same_table c c1" by simp
  with Cons.IH [of c1 "p\<lparr>pr_members := pr_members p @ [(n, sid)]\<rparr>"] ns show ?case
    by (auto intro: same_table_trans)
qed

lemma link_with_table:
  "res_post (\<lambda>q c'. same_table c c' \<and> pr_pid q = pr_pid p) (same_table c) (link_with p b c)"
  by (auto simp: link_with_def addKillOnDie_def split: option.split intro!: same_table_upd_proc)
    (auto simp: same_proc_def)

lemma link_all_table:
  "res_post (\<lambda>q c'. same_table c c' \<and> pr_pid q = pr_pid p) (same_table c) (link_all bs p c)"
proof (induction bs arbitrary: p c)
  case Nil
  show ?case by simp
next
  case (Cons b bs)
  show ?case
    unfolding link_all.simps
  proof (rule res_post_bind [OF link_with_table])
    fix q :: Process and c1
    assume q: "same_table c c1 \<and> pr_pid q = pr_pid p"
    show "res_post (\<lambda>q c'. same_table c c' \<and> pr_pid q = pr_pid p) (same_table c) (link_all bs q c1)"
      using q by (intro res_post_mono [OF Cons.IH]) (auto intro: same_table_trans)
  qed
qed

text \<open>When does a construction throw: never, without links and without an exception of its own.\<close>

definition may_throw :: "('st, 'm) SpawnSpec \<Rightarrow> bool" where
  "may_throw sp \<longleftrightarrow> sp_links sp \<noteq> [] \<or> sp_throws sp \<noteq> None"

lemma delete_process_fresh: "heap c a = None \<Longrightarrow> same_table c (delete_process a c)"
  by (simp add: same_table_def delete_process_def)

lemma Process_init_pid [simp]: "pr_pid (Process_init args cls) = pa_pid args"
  by (simp add: Process_init_def addKillOnDie_def Let_def split: option.split)

lemma construct_table:
  assumes "heap c a = None"
  shows "res_post (\<lambda>q c'. same_table c c' \<and> pr_pid q = pa_pid args)
    (\<lambda>c'. same_table c c' \<and> may_throw sp) (construct a args sp c)"
proof -
  obtain p c1 where m: "new_members a (sp_members sp) (Process_init args (sp_classes sp)) c = (p, c1)"
    by (cases "new_members a (sp_members sp) (Process_init args (sp_classes sp)) c")
  have c1: "same_table c c1" and p: "pr_pid p = pa_pid args"
    using new_members_table [of c a "sp_members sp" "Process_init args (sp_classes sp)"] m by simp_all
  define r where "r = res_bind (link_all (sp_links sp) p c1)
    (\<lambda>p c. case sp_throws sp of None \<Rightarrow> Ret p c | Some e \<Rightarrow> Throw e c)"
  have r: "res_post (\<lambda>q c'. same_table c c' \<and> pr_pid q = pa_pid args) (same_table c) r"
    unfolding r_def
    by (rule res_post_bind [OF res_post_mono [OF link_all_table]])
      (use c1 p in \<open>auto intro: same_table_trans split: option.split\<close>)
  have th: "r = Throw e c2 \<Longrightarrow> may_throw sp" for e c2
    unfolding r_def may_throw_def by (cases "sp_links sp"; cases "sp_throws sp") simp_all
  have del: "same_table c c2 \<Longrightarrow> same_table c (delete_process a c2)" for c2
    using assms same_table_heap(1) [of c c2 a]
    by (blast intro: same_table_trans delete_process_fresh)
  have "construct a args sp c = (case r of Throw e c \<Rightarrow> Throw e (delete_process a c) | r \<Rightarrow> r)"
    by (simp add: construct_def m r_def Let_def)
  then show ?thesis using r th del by (cases r) auto
qed

section \<open>The table invariant\<close>

definition null_idx :: "('st, 'm) Context \<Rightarrow> nat set" where
  "null_idx c = {i. i < length (processes c) \<and> processes c ! i = None}"

definition tomb_idx :: "('st, 'm) Context \<Rightarrow> nat set" where
  "tomb_idx c = (\<lambda>p. unat (idx p)) ` set (tombstones c)"

text \<open>Indices that hold no process and have no tombstone, so that they are not free for reuse either.\<close>

definition leaked :: "('st, 'm) Context \<Rightarrow> nat set" where
  "leaked c = null_idx c - tomb_idx c"

text \<open>
  \<open>owned_by X c\<close>: every entry of the table is a live process object that carries its own index;
  every entry of \<open>toDestroy\<close> is a dead object, no object is listed twice; and every object of the
  heap is owned by the table, by \<open>toDestroy\<close>, or by a local variable (the addresses \<open>X\<close>).
\<close>

definition owned_by :: "addr set \<Rightarrow> ('st, 'm) Context \<Rightarrow> bool" where
  "owned_by X c \<longleftrightarrow>
     (\<forall>i<length (processes c). \<forall>a. processes c ! i = Some a \<longrightarrow>
        (\<exists>rp. heap c a = Some rp \<and> \<not> dead rp \<and> unat (idx (rp_pid rp)) = i))
     \<and> distinct (map fst (toDestroy c)) \<and> X \<inter> fst ` set (toDestroy c) = {}
     \<and> (\<forall>a\<in>X \<union> fst ` set (toDestroy c). \<exists>rp. heap c a = Some rp \<and> dead rp)
     \<and> (\<forall>a rp. heap c a = Some rp \<longrightarrow> a < next_addr c \<and> pr_pid (rp_process rp) = rp_pid rp
          \<and> (a \<in> X \<union> fst ` set (toDestroy c) \<or> Some a \<in> set (processes c)))"

definition table_ok :: "('st, 'm) Context \<Rightarrow> bool" where
  "table_ok c \<longleftrightarrow> owned_by {} c \<and> length (processes c) \<le> vector_max_size
     \<and> distinct (map idx (tombstones c)) \<and> tomb_idx c \<subseteq> null_idx c"

text \<open>The four actions on the table.\<close>

definition add_process :: "Pid \<Rightarrow> addr \<Rightarrow> ('st, 'm) RunningProcess \<Rightarrow> ('st, 'm) Context \<Rightarrow> ('st, 'm) Context" where
  "add_process p a rp c =
     c\<lparr>heap := (heap c)(a \<mapsto> rp), processes := (processes c)[unat (idx p) := Some a]\<rparr>"

locale table_preserved =
  fixes S :: "('st, 'm) SpawnSpec \<Rightarrow> bool"
    and T :: "('st, 'm) Context \<Rightarrow> bool"
  assumes T_table: "T c \<Longrightarrow> table_ok c"
    and T_frame: "T c \<Longrightarrow> same_table c c' \<Longrightarrow> T c'"
    and T_kill: "T c \<Longrightarrow> T (addtoDestroy p s c)"
    and T_destroy: "T c \<Longrightarrow> T (destroy_front c)"
    and T_spawn: "T c \<Longrightarrow> nextPid c = Ret p c1 \<Longrightarrow>
      same_table (c1\<lparr>next_addr := Suc (next_addr c1)\<rparr>) c2 \<Longrightarrow>
      rp_pid rp = p \<Longrightarrow> \<not> dead rp \<Longrightarrow> pr_pid (rp_process rp) = p \<Longrightarrow>
      T (add_process p (next_addr c1) rp c2)"
    and T_leak: "T c \<Longrightarrow> nextPid c = Ret p c1 \<Longrightarrow>
      same_table (c1\<lparr>next_addr := Suc (next_addr c1)\<rparr>) c2 \<Longrightarrow> S sp \<Longrightarrow> may_throw sp \<Longrightarrow> T c2"
begin

lemma T_keeps: "T c \<Longrightarrow> keeps_table c r \<Longrightarrow> keeps T r"
  by (erule res_post_mono) (auto intro: T_frame)

lemma T_arm: "T c \<Longrightarrow> keeps T (arm a w c)"
  by (erule T_keeps) (rule arm_table)

lemma T_fresh: "T c \<Longrightarrow> heap c (next_addr c) = None"
  using T_table [of c] unfolding table_ok_def owned_by_def
  by (metis less_irrefl option.exhaust)

lemma T_upd: "T c \<Longrightarrow> (\<And>rp. same_proc rp (f rp)) \<Longrightarrow> T (upd_proc a f c)"
  by (blast intro: T_frame same_table_upd_proc)

lemma T_spawnWith:
  assumes "T c" and "S sp" and f: "\<And>a. pa_pid (f a) = pa_pid a"
  shows "keeps T (spawnWith f sp c)"
proof (cases "nextPid c")
  case (Ret p c1)
  let ?c1 = "c1\<lparr>next_addr := Suc (next_addr c1)\<rparr>"
  have n: "next_addr c1 = next_addr c" and h: "heap c1 = heap c"
    using Ret by (auto simp: nextPid_def Let_def split: if_splits)
  have "heap ?c1 (next_addr c1) = None" using T_fresh [OF assms(1)] n h by simp
  from construct_table [OF this, of "f (ProcessArgs_init p)" sp]
  have con: "res_post (\<lambda>q c'. same_table ?c1 c' \<and> pr_pid q = p) (\<lambda>c'. same_table ?c1 c' \<and> may_throw sp)
      (construct (next_addr c1) (f (ProcessArgs_init p)) sp ?c1)"
    by (simp add: f ProcessArgs_init_def)
  have "keeps T (spawnArgs (f (ProcessArgs_init p)) sp c1)"
  proof (cases "construct (next_addr c1) (f (ProcessArgs_init p)) sp ?c1")
    case (Ret q c2)
    let ?rp = "\<lparr>dead = False, rp_pid = p, rp_process = q, task = Some (None, [sp_start sp]),
      lastWaiting = None, resumes = 0\<rparr>"
    have "T (add_process p (next_addr c1) ?rp c2)"
      using con Ret by (intro T_spawn [OF assms(1) \<open>nextPid c = Ret p c1\<close>]) simp_all
    then have "T (queueResume p 0 (add_process p (next_addr c1) ?rp c2))"
      by (rule T_frame) simp
    then show ?thesis
      using Ret by (simp add: spawnArgs_def Let_def add_process_def f ProcessArgs_init_def)
  next
    case (Throw e c2)
    then show ?thesis
      using con T_leak [OF assms(1) \<open>nextPid c = Ret p c1\<close> _ assms(2)]
      by (simp add: spawnArgs_def Let_def)
  qed (simp_all add: spawnArgs_def Let_def)
  then show ?thesis using Ret by (simp add: spawnWith_def)
next
  case (Throw e c1)
  then have "c1 = c" by (auto simp: nextPid_def Let_def split: if_splits)
  with Throw assms(1) show ?thesis by (simp add: spawnWith_def)
qed (simp_all add: spawnWith_def)

lemma T_spawn_plain: "T c \<Longrightarrow> S sp \<Longrightarrow> keeps T (spawn sp c)"
  using T_spawnWith [of c sp "\<lambda>a. a"] by (simp add: spawnWith_def spawn_def)

lemma T_spawn_then_link:
  assumes "T c" and "S sp" and "\<And>a. pa_pid (f a) = pa_pid a"
  shows "keeps T (res_bind (spawnWith f sp c) (\<lambda>p c. Ret p (addKillOnDie_at this p c)))"
  by (rule res_post_bind [OF T_spawnWith [OF assms]]) (auto intro: T_frame)

lemma T_call: "T c \<Longrightarrow> call_all S r \<Longrightarrow> keeps T (do_call a r c)"
proof (cases "heap c a")
  case None
  then show ?thesis by (simp add: do_call_def)
next
  case (Some rp)
  assume T: "T c" and S: "call_all S r"
  have fr: "keeps T q" if "keeps_table c q" for q :: "('z, ('st, 'm) Context) res"
    using T that by (rule T_keeps)
  have pid: "keeps T r \<Longrightarrow> keeps T (res_bind r (\<lambda>p c. Ret (g p) c))" for r :: "('z, ('st, 'm) Context) res"
    and g :: "'z \<Rightarrow> 'm Answer"
    by (rule res_post_bind) simp_all
  show ?thesis
    using T S Some T_frame [OF T] fr [OF canQueue_table] fr [OF makeSendAddress_table] fr [OF link_table]
      T_kill [OF T] T_spawn_plain [OF T] T_spawn_then_link [OF T]
    by (cases r) (auto simp: do_call_def Let_def send_def new_slot_def queueKill_def spawnLink_def
        spawnLinkNotify_def split: option.split prod.split intro!: pid)
qed

end

sublocale table_preserved \<subseteq> sched: scheduler_preserved S "\<lambda>_. T"
proof
  fix c :: "('st, 'm) Context" and sp
  show "T c \<Longrightarrow> S sp \<Longrightarrow> keeps T (spawn sp c)" by (rule T_spawn_plain)
  show "T c \<Longrightarrow> call_all S r \<Longrightarrow> keeps T (do_call a r c)"
    "T c \<Longrightarrow> heap c a = Some rp \<Longrightarrow> call_all S r \<Longrightarrow> keeps T (do_call a r c)" for r a rp
    by (rule T_call, assumption+)+
  show "T c \<Longrightarrow> T (destroy_front c)" by (rule T_destroy)
  show "T c \<Longrightarrow> T (addtoDestroy p s c)" for p s by (rule T_kill)
  show "T c \<Longrightarrow> T (upd_proc a (\<lambda>rp. rp\<lparr>resumes := resumes rp + 1\<rparr>) c)" for a
    by (rule T_upd) simp_all
  show "T c \<Longrightarrow> keeps T (arm a (underlying aw)
      (upd_proc a (\<lambda>rp. rp\<lparr>lastWaiting := Some (underlying aw), task := Some (Some aw, fs)\<rparr>) c))" for a aw fs
    by (rule T_arm, rule T_upd) simp_all
  show "T c \<Longrightarrow> T (cancel_timer a (c\<lparr>posted := hs @ hs'\<rparr>))" for a hs hs'
    by (erule T_frame) (rule same_table_trans [OF same_table_fields(2) same_table_basic(3)])
  show "T c \<Longrightarrow> T (cancel_timer a (c\<lparr>queue := items, slots := set_slot_queue i (mq_push m mq) (slots c)\<rparr>))" for a items i m mq
    by (erule T_frame) (rule same_table_trans [OF same_table_fields(7) same_table_basic(3)])
  show "T c \<Longrightarrow> T (addtoDestroy p s (upd_proc a (\<lambda>rp. rp\<lparr>lastWaiting := None, task := None\<rparr>) c))" for a p s
    by (rule T_kill, rule T_upd) simp_all
qed (auto intro: T_frame T_keeps table_frame)

locale table_invariant = table_preserved +
  assumes T_init: "T Context_init"

sublocale table_invariant \<subseteq> sched: scheduler_invariant S "\<lambda>_. T"
  by unfold_locales (rule T_init)

end
