(* ===== verification/Table_Ok.thy ===== *)
theory Table_Ok
  imports Table
begin

text \<open>
  The invariant of the process table holds in every reachable state, whatever the processes do:
  objects are owned by exactly one place, dead processes are not in the table, and every index that
  is free for reuse is empty.
\<close>

section \<open>Ownership\<close>

lemma owned_byD:
  assumes "owned_by X c"
  shows "i < length (processes c) \<Longrightarrow> processes c ! i = Some a \<Longrightarrow>
      \<exists>rp. heap c a = Some rp \<and> \<not> dead rp \<and> unat (idx (rp_pid rp)) = i"
    and "distinct (map fst (toDestroy c))" and "X \<inter> fst ` set (toDestroy c) = {}"
    and "a \<in> X \<union> fst ` set (toDestroy c) \<Longrightarrow> \<exists>rp. heap c a = Some rp \<and> dead rp"
    and "heap c a = Some rp \<Longrightarrow> a < next_addr c"
    and "heap c a = Some rp \<Longrightarrow> pr_pid (rp_process rp) = rp_pid rp"
    and "heap c a = Some rp \<Longrightarrow> a \<in> X \<union> fst ` set (toDestroy c) \<or> Some a \<in> set (processes c)"
  using assms unfolding owned_by_def by blast+

lemma owned_byI:
  assumes "\<And>i a. i < length (processes c) \<Longrightarrow> processes c ! i = Some a \<Longrightarrow>
      \<exists>rp. heap c a = Some rp \<and> \<not> dead rp \<and> unat (idx (rp_pid rp)) = i"
    and "distinct (map fst (toDestroy c))" and "X \<inter> fst ` set (toDestroy c) = {}"
    and "\<And>a. a \<in> X \<union> fst ` set (toDestroy c) \<Longrightarrow> \<exists>rp. heap c a = Some rp \<and> dead rp"
    and "\<And>a rp. heap c a = Some rp \<Longrightarrow> a < next_addr c"
    and "\<And>a rp. heap c a = Some rp \<Longrightarrow> pr_pid (rp_process rp) = rp_pid rp"
    and "\<And>a rp. heap c a = Some rp \<Longrightarrow> a \<in> X \<union> fst ` set (toDestroy c) \<or> Some a \<in> set (processes c)"
  shows "owned_by X c"
  unfolding owned_by_def by (intro conjI allI impI ballI; (rule assms; assumption))

lemma owned_by_table_entry:
  assumes "owned_by X c" and "heap c a = Some rp" and "\<not> dead rp"
  shows "unat (idx (rp_pid rp)) < length (processes c) \<and> processes c ! unat (idx (rp_pid rp)) = Some a"
proof -
  have "a \<notin> X \<union> fst ` set (toDestroy c)" using owned_byD(4) [OF assms(1), of a] assms(2,3) by auto
  then have "Some a \<in> set (processes c)" using owned_byD(7) [OF assms(1,2)] by blast
  then obtain i where i: "i < length (processes c)" "processes c ! i = Some a"
    by (auto simp: in_set_conv_nth)
  with owned_byD(1) [OF assms(1) i] assms(2) show ?thesis by auto
qed

text \<open>Under the invariant, \<open>findProc\<close> finds exactly the live process with that identifier.\<close>

lemma findProc_iff:
  assumes "owned_by X c"
  shows "findProc p c = Some a \<longleftrightarrow> (\<exists>rp. heap c a = Some rp \<and> \<not> dead rp \<and> rp_pid rp = p)"
proof
  assume f: "findProc p c = Some a"
  from findProc_SomeD [OF f] obtain rp where
    i: "unat (idx p) < length (processes c)" "processes c ! unat (idx p) = Some a"
    and rp: "heap c a = Some rp" "version (rp_pid rp) = version p" by blast
  from owned_byD(1) [OF assms i] rp(1) have "\<not> dead rp" "unat (idx (rp_pid rp)) = unat (idx p)" by auto
  with rp show "\<exists>rp. heap c a = Some rp \<and> \<not> dead rp \<and> rp_pid rp = p"
    by (auto intro: Pid_eqI)
next
  assume "\<exists>rp. heap c a = Some rp \<and> \<not> dead rp \<and> rp_pid rp = p"
  then obtain rp where rp: "heap c a = Some rp" "\<not> dead rp" "rp_pid rp = p" by blast
  from owned_by_table_entry [OF assms rp(1,2)] rp show "findProc p c = Some a"
    by (simp add: findProc_def)
qed

lemma owned_by_frame:
  assumes "owned_by X c" and "same_table c c'"
  shows "owned_by X c'"
proof -
  have eq: "processes c' = processes c" "toDestroy c' = toDestroy c" "next_addr c' = next_addr c"
    using assms(2) by (simp_all add: same_table_def)
  have fwd: "heap c a = Some rp \<Longrightarrow> \<exists>rp'. heap c' a = Some rp' \<and> same_proc rp rp'" for a rp
    by (rule same_table_heap(2) [OF assms(2)])
  have bwd: "heap c' a = Some rp' \<Longrightarrow> \<exists>rp. heap c a = Some rp \<and> same_proc rp rp'" for a rp'
    by (rule same_table_heap(3) [OF assms(2)])
  show ?thesis
    unfolding owned_by_def eq
    using owned_byD [OF assms(1)] fwd bwd unfolding same_proc_def by (intro conjI) metis+
qed

lemma owned_by_addtoDestroy:
  assumes "owned_by X c"
  shows "owned_by X (addtoDestroy p s c)"
proof (cases "findProc p c")
  case None
  with assms show ?thesis by (simp add: addtoDestroy_def)
next
  case (Some a)
  let ?c = "addtoDestroy p s c"
  obtain rp where rp: "heap c a = Some rp" "\<not> dead rp" "rp_pid rp = p"
    using findProc_iff [OF assms, of p a] Some by blast
  have i: "unat (idx p) < length (processes c)" "processes c ! unat (idx p) = Some a"
    using findProc_SomeD [OF Some] by simp_all
  have new: "a \<notin> X \<union> fst ` set (toDestroy c)" using owned_byD(4) [OF assms, of a] rp by auto
  have flds: "heap ?c = (heap c)(a \<mapsto> rp\<lparr>dead := True\<rparr>)" "processes ?c = (processes c)[unat (idx p) := None]"
    "toDestroy ?c = toDestroy c @ [(a, s)]" "next_addr ?c = next_addr c"
    using Some rp by (simp_all add: addtoDestroy_def upd_proc_def)
  have other: "b \<noteq> a" if "k < length (processes c)" "k \<noteq> unat (idx p)" "processes c ! k = Some b" for k b
    using owned_byD(1) [OF assms that(1,3)] rp that(2) by auto
  have mem: "Some b \<in> set ((processes c)[unat (idx p) := None])" if sb: "Some b \<in> set (processes c)" and ne: "b \<noteq> a" for b
  proof -
    obtain k where k: "k < length (processes c)" "processes c ! k = Some b"
      using sb by (auto simp: in_set_conv_nth)
    with ne i have "(processes c)[unat (idx p) := None] ! k = Some b"
      by (auto simp: nth_list_update)
    with k(1) show ?thesis by (metis length_list_update nth_mem)
  qed
  show ?thesis
    unfolding owned_by_def flds
  proof (intro conjI allI impI ballI)
    fix k b
    assume "k < length ((processes c)[unat (idx p) := None])" and "(processes c)[unat (idx p) := None] ! k = Some b"
    then have k: "k < length (processes c)" "k \<noteq> unat (idx p)" "processes c ! k = Some b"
      using i(1) by (auto simp: nth_list_update split: if_splits)
    then show "\<exists>rp'. ((heap c)(a \<mapsto> rp\<lparr>dead := True\<rparr>)) b = Some rp' \<and> \<not> dead rp' \<and> unat (idx (rp_pid rp')) = k"
      using owned_byD(1) [OF assms k(1,3)] other [OF k] by simp
  next
    fix b rp'
    assume h: "((heap c)(a \<mapsto> rp\<lparr>dead := True\<rparr>)) b = Some rp'"
    show "b \<in> X \<union> fst ` set (toDestroy c @ [(a, s)]) \<or> Some b \<in> set ((processes c)[unat (idx p) := None])"
      using owned_byD(7) [OF assms, of b] mem h by (cases "b = a") auto
  qed (use assms rp new in \<open>auto simp: owned_by_def split: if_splits\<close>)
qed

lemma owned_by_fold_addtoDestroy: "owned_by X c \<Longrightarrow> owned_by X (fold (\<lambda>p. addtoDestroy p s) ps c)"
  by (induction ps arbitrary: c) (simp_all add: owned_by_addtoDestroy)

lemma same_table_fold_queueSend: "same_table c (fold (\<lambda>d. queueSend d m) ds c)"
  by (induction ds arbitrary: c) (simp, simp, metis same_table_basic(1) same_table_trans)

lemma owned_by_pop:
  "owned_by {} c \<Longrightarrow> toDestroy c = (a, s) # rest \<Longrightarrow> owned_by {a} (c\<lparr>toDestroy := rest\<rparr>)"
  unfolding owned_by_def by auto

lemma owned_by_delete:
  assumes "owned_by {a} c"
  shows "owned_by {} (delete_process a c)"
proof -
  have "processes c ! i \<noteq> Some a" if "i < length (processes c)" for i
    using owned_byD(1) [OF assms that] owned_byD(4) [OF assms, of a] by auto
  moreover have "b \<in> fst ` set (toDestroy c)"
    if "heap c b = Some rp" "b \<noteq> a" "Some b \<notin> set (processes c)" for b rp
    using owned_byD(7) [OF assms that(1)] that by simp
  ultimately show ?thesis
    using owned_byD(1-6) [OF assms] by (auto simp: owned_by_def delete_process_def)
qed

lemma owned_by_destroy_front:
  assumes "owned_by {} c"
  shows "owned_by {} (destroy_front c)"
proof (cases "toDestroy c")
  case Nil
  with assms show ?thesis by (simp add: destroy_front_def)
next
  case (Cons e rest)
  obtain a s where e: "e = (a, s)" by (cases e)
  let ?c = "c\<lparr>toDestroy := rest\<rparr>"
  have o: "owned_by {a} ?c" using owned_by_pop [OF assms] Cons e by simp
  then obtain rp where rp: "heap ?c a = Some rp" using owned_byD(4) [OF o, of a] by auto
  have "owned_by {a} (fold (\<lambda>d. queueSend d (MPid (rp_pid rp))) (notifyOnDie (rp_process rp))
      (fold (\<lambda>p. addtoDestroy p s) (killOnDie (rp_process rp)) ?c))"
    using owned_by_frame [OF owned_by_fold_addtoDestroy [OF o] same_table_fold_queueSend] .
  then show ?thesis
    using Cons e rp by (simp add: destroy_front_def destroy_def Let_def owned_by_delete)
qed

section \<open>Free indices\<close>

definition tombs_ok :: "('st, 'm) Context \<Rightarrow> bool" where
  "tombs_ok c \<longleftrightarrow> length (processes c) \<le> vector_max_size
     \<and> distinct (map idx (tombstones c)) \<and> tomb_idx c \<subseteq> null_idx c"

lemma table_ok_iff: "table_ok c \<longleftrightarrow> owned_by {} c \<and> tombs_ok c"
  by (auto simp: table_ok_def tombs_ok_def)

lemma idx_table_frame:
  assumes "same_table c c'"
  shows "null_idx c' = null_idx c" "tomb_idx c' = tomb_idx c" "leaked c' = leaked c"
    "tombs_ok c' = tombs_ok c"
  using assms by (auto simp: same_table_def null_idx_def tomb_idx_def leaked_def tombs_ok_def)

lemma null_idx_addtoDestroy:
  "findProc p c = Some a \<Longrightarrow> null_idx (addtoDestroy p s c) = insert (unat (idx p)) (null_idx c)"
  using findProc_SomeD [of p c a]
  by (auto simp: null_idx_def addtoDestroy_def upd_proc_def nth_list_update)

lemma tomb_idx_addtoDestroy:
  "findProc p c = Some a \<Longrightarrow> tomb_idx (addtoDestroy p s c) = insert (unat (idx p)) (tomb_idx c)"
  by (simp add: tomb_idx_def addtoDestroy_def)

lemma findProc_not_null: "findProc p c = Some a \<Longrightarrow> unat (idx p) \<notin> null_idx c"
  using findProc_SomeD [of p c a] by (simp add: null_idx_def)

lemma tombs_ok_addtoDestroy:
  assumes "tombs_ok c"
  shows "tombs_ok (addtoDestroy p s c) \<and> leaked (addtoDestroy p s c) = leaked c"
proof (cases "findProc p c")
  case None
  with assms show ?thesis by (simp add: addtoDestroy_def)
next
  case (Some a)
  have n: "unat (idx p) \<notin> null_idx c" using Some by (rule findProc_not_null)
  then have "unat (idx p) \<notin> tomb_idx c" using assms by (auto simp: tombs_ok_def)
  then have "idx p \<notin> idx ` set (tombstones c)" by (auto simp: tomb_idx_def)
  moreover have "tombstones (addtoDestroy p s c) = tombstones c @ [p]"
    and "length (processes (addtoDestroy p s c)) = length (processes c)"
    using Some by (simp_all add: addtoDestroy_def upd_proc_def)
  ultimately show ?thesis
    using assms n null_idx_addtoDestroy [OF Some] tomb_idx_addtoDestroy [OF Some]
    by (auto simp: tombs_ok_def leaked_def)
qed

lemma tombs_ok_fold_addtoDestroy:
  "tombs_ok c \<Longrightarrow> tombs_ok (fold (\<lambda>p. addtoDestroy p s) ps c)
     \<and> leaked (fold (\<lambda>p. addtoDestroy p s) ps c) = leaked c"
  by (induction ps arbitrary: c) (simp_all add: tombs_ok_addtoDestroy)

lemma tombs_fields:
  "tombs_ok (delete_process a c) = tombs_ok c" "leaked (delete_process a c) = leaked c"
  "tombs_ok (c\<lparr>toDestroy := rest\<rparr>) = tombs_ok c" "leaked (c\<lparr>toDestroy := rest\<rparr>) = leaked c"
  by (simp_all add: tombs_ok_def leaked_def null_idx_def tomb_idx_def delete_process_def)

lemma tombs_ok_destroy_front:
  assumes "tombs_ok c"
  shows "tombs_ok (destroy_front c) \<and> leaked (destroy_front c) = leaked c"
  using assms
  by (auto simp: destroy_front_def destroy_def Let_def tombs_fields tombs_ok_fold_addtoDestroy
      idx_table_frame [OF same_table_fold_queueSend] split: list.split option.split)

text \<open>A new identifier comes from an empty index, the last tombstone or the end of the table; until the
  process is stored, the index is in use by nobody.\<close>

lemma nextPid_cases:
  assumes "nextPid c = Ret p c1"
  obtains (reuse) "tombstones c \<noteq> []" "c1 = c\<lparr>tombstones := butlast (tombstones c)\<rparr>" "idx p = idx (last (tombstones c))"
    | (grow) "tombstones c = []" "length (processes c) < vector_max_size" "c1 = c\<lparr>processes := processes c @ [None]\<rparr>"
      "unat (idx p) = length (processes c)"
  using assms vector_max_size_less [of "length (processes c)"]
  by (auto simp: nextPid_def Let_def unat_of_nat split: if_splits)

lemma tomb_reused:
  assumes "tombs_ok c" and "tombstones c \<noteq> []" and "c1 = c\<lparr>tombstones := butlast (tombstones c)\<rparr>" and "i = unat (idx (last (tombstones c)))"
  shows "tomb_idx c = insert i (tomb_idx c1)" and "i \<notin> tomb_idx c1" and "distinct (map idx (tombstones c1))"
proof -
  have ts: "tombstones c = tombstones c1 @ [last (tombstones c)]" using assms(2,3) by simp
  have "distinct (map idx (tombstones c1) @ [idx (last (tombstones c))])"
    using assms(1) ts unfolding tombs_ok_def by (metis list.simps(8) list.simps(9) map_append)
  then show "i \<notin> tomb_idx c1" "distinct (map idx (tombstones c1))" by (auto simp: tomb_idx_def word_unat_eq_iff assms(4))
  have "set (tombstones c) = insert (last (tombstones c)) (set (tombstones c1))" by (subst ts) simp
  then show "tomb_idx c = insert i (tomb_idx c1)" by (simp add: tomb_idx_def assms(4))
qed

lemma nextPid_idx:
  assumes "tombs_ok c" and "nextPid c = Ret p c1"
  shows "tombs_ok c1" and "leaked c1 = insert (unat (idx p)) (leaked c)"
    and "unat (idx p) \<notin> leaked c" and "unat (idx p) < length (processes c1)"
proof -
  from assms(2) have "tombs_ok c1 \<and> leaked c1 = insert (unat (idx p)) (leaked c) \<and> unat (idx p) \<notin> leaked c
    \<and> unat (idx p) < length (processes c1)"
  proof (cases rule: nextPid_cases)
    case reuse
    note t = tomb_reused [OF assms(1) reuse(1,2), of "unat (idx p)"]
    have "null_idx c1 = null_idx c" using reuse(2) by (simp add: null_idx_def)
    moreover have "unat (idx p) \<in> null_idx c" using t(1) assms(1) reuse(3) by (auto simp: tombs_ok_def)
    ultimately show ?thesis using assms(1) reuse(2,3) t by (auto simp: tombs_ok_def leaked_def null_idx_def)
  next
    case grow
    have "null_idx c1 = insert (length (processes c)) (null_idx c)"
      using grow(3) by (auto simp: null_idx_def nth_append)
    moreover have "tomb_idx c1 = {}" "tomb_idx c = {}" using grow(1,3) by (simp_all add: tomb_idx_def)
    ultimately show ?thesis using grow by (auto simp: tombs_ok_def leaked_def null_idx_def nth_append)
  qed
  then show "tombs_ok c1" "leaked c1 = insert (unat (idx p)) (leaked c)" "unat (idx p) \<notin> leaked c"
    "unat (idx p) < length (processes c1)" by blast+
qed

lemma nextPid_table:
  assumes "nextPid c = Ret p c1"
  shows "heap c1 = heap c" and "toDestroy c1 = toDestroy c" and "next_addr c1 = next_addr c"
    and "set (processes c1) = set (processes c) \<or> set (processes c1) = insert None (set (processes c))"
    and "\<forall>i<length (processes c). processes c1 ! i = processes c ! i"
    and "length (processes c) \<le> length (processes c1)"
  using assms by (auto elim!: nextPid_cases simp: nth_append)

section \<open>Spawning\<close>

lemma owned_by_nextPid:
  assumes "owned_by X c" and "tombs_ok c" and "nextPid c = Ret p c1"
  shows "owned_by X (c1\<lparr>next_addr := Suc (next_addr c1)\<rparr>)"
proof -
  note n = nextPid_idx [OF assms(2,3)] nextPid_table [OF assms(3)]
  have entry: "processes c ! i = Some a \<and> i < length (processes c)"
    if "i < length (processes c1)" "processes c1 ! i = Some a" for i a
    using that assms(3) by (auto simp: nextPid_def Let_def nth_append less_Suc_eq split: if_splits)
  have mem: "Some a \<in> set (processes c) \<Longrightarrow> Some a \<in> set (processes c1)" for a
    using n(8) by auto
  note o = owned_byD [OF assms(1)]
  let ?c1 = "c1\<lparr>next_addr := Suc (next_addr c1)\<rparr>"
  have f: "heap ?c1 = heap c" "toDestroy ?c1 = toDestroy c" "next_addr ?c1 = Suc (next_addr c)"
    "processes ?c1 = processes c1" using n(5-7) by simp_all
  show ?thesis
  proof (rule owned_byI; unfold f)
    show "heap c a = Some rp \<Longrightarrow> a < Suc (next_addr c)" for a rp using o(5) [of a rp] by simp
    show "heap c a = Some rp \<Longrightarrow> a \<in> X \<union> fst ` set (toDestroy c) \<or> Some a \<in> set (processes c1)" for a rp
      using o(7) [of a rp] mem [of a] by blast
    show "i < length (processes c1) \<Longrightarrow> processes c1 ! i = Some a \<Longrightarrow>
        \<exists>rp. heap c a = Some rp \<and> \<not> dead rp \<and> unat (idx (rp_pid rp)) = i" for i a
      using entry [of i a] o(1) [of i a] by blast
  qed (rule o(2) o(3) o(4) o(6); assumption?)+
qed

lemma owned_by_add_process:
  assumes "owned_by {} c" and "a < next_addr c" and "heap c a = None"
    and "unat (idx p) < length (processes c)" and "processes c ! unat (idx p) = None"
    and "rp_pid rp = p" "\<not> dead rp" "pr_pid (rp_process rp) = p"
  shows "owned_by {} (add_process p a rp c)"
proof -
  have entry: "\<exists>rp'. ((heap c)(a \<mapsto> rp)) b = Some rp' \<and> \<not> dead rp' \<and> unat (idx (rp_pid rp')) = i"
    if "i < length (processes c)" "(processes c)[unat (idx p) := Some a] ! i = Some b" for i b
    using that owned_byD(1) [OF assms(1), of i b] assms(3,4,6,7)
    by (auto simp: nth_list_update split: if_splits)
  have mem: "Some b \<in> set ((processes c)[unat (idx p) := Some a])" if "Some b \<in> set (processes c)" for b
  proof -
    obtain k where k: "k < length (processes c)" "processes c ! k = Some b"
      using \<open>Some b \<in> set (processes c)\<close> by (auto simp: in_set_conv_nth)
    then have "(processes c)[unat (idx p) := Some a] ! k = Some b"
      using assms(4,5) by (auto simp: nth_list_update)
    with k(1) show ?thesis by (metis length_list_update nth_mem)
  qed
  have new: "Some a \<in> set ((processes c)[unat (idx p) := Some a])"
    using assms(4) by (simp add: set_update_memI)
  have nd: "a \<notin> fst ` set (toDestroy c)" using owned_byD(4) [OF assms(1), of a] assms(3) by auto
  note o = owned_byD [OF assms(1)]
  let ?c = "add_process p a rp c"
  have f: "heap ?c = (heap c)(a \<mapsto> rp)" "toDestroy ?c = toDestroy c" "next_addr ?c = next_addr c"
    "processes ?c = (processes c)[unat (idx p) := Some a]" by (simp_all add: add_process_def)
  show ?thesis
  proof (rule owned_byI; unfold f)
    show "((heap c)(a \<mapsto> rp)) b = Some rp' \<Longrightarrow>
        b \<in> {} \<union> fst ` set (toDestroy c) \<or> Some b \<in> set ((processes c)[unat (idx p) := Some a])" for b rp'
      using o(7) [of b rp'] mem [of b] new by (cases "b = a") auto
    show "b \<in> {} \<union> fst ` set (toDestroy c) \<Longrightarrow> \<exists>rp'. ((heap c)(a \<mapsto> rp)) b = Some rp' \<and> dead rp'" for b
      using o(4) [of b] nd by auto
  qed (use o(2,5,6) assms entry in \<open>auto split: if_splits\<close>)
qed

lemma leaked_add_process:
  "unat (idx p) \<in> leaked c \<Longrightarrow> leaked (add_process p a rp c) = leaked c - {unat (idx p)}"
  by (auto simp: leaked_def null_idx_def tomb_idx_def add_process_def nth_list_update)

lemma tombs_ok_add_process:
  "unat (idx p) \<in> leaked c \<Longrightarrow> tombs_ok c \<Longrightarrow> tombs_ok (add_process p a rp c)"
  by (auto simp: tombs_ok_def leaked_def null_idx_def tomb_idx_def add_process_def nth_list_update)

lemma table_ok_started:
  assumes "table_ok c" and "nextPid c = Ret p c1"
    and "same_table (c1\<lparr>next_addr := Suc (next_addr c1)\<rparr>) c2"
  shows "table_ok c2" and "leaked c2 = insert (unat (idx p)) (leaked c)"
proof -
  have ok: "owned_by {} c" "tombs_ok c" using assms(1) by (simp_all add: table_ok_iff)
  let ?c1 = "c1\<lparr>next_addr := Suc (next_addr c1)\<rparr>"
  have "owned_by {} c2" using owned_by_frame [OF owned_by_nextPid [OF ok assms(2)] assms(3)] .
  moreover have "tombs_ok ?c1 = tombs_ok c1" "leaked ?c1 = leaked c1"
    by (simp_all add: tombs_ok_def leaked_def null_idx_def tomb_idx_def)
  ultimately show "table_ok c2" "leaked c2 = insert (unat (idx p)) (leaked c)"
    using nextPid_idx(1,2) [OF ok(2) assms(2)] idx_table_frame(3,4) [OF assms(3)]
    by (simp_all add: table_ok_iff)
qed

lemma table_ok_spawned:
  assumes "table_ok c" and "nextPid c = Ret p c1"
    and "same_table (c1\<lparr>next_addr := Suc (next_addr c1)\<rparr>) c2"
    and "rp_pid rp = p" "\<not> dead rp" "pr_pid (rp_process rp) = p"
  shows "table_ok (add_process p (next_addr c1) rp c2)"
    and "leaked (add_process p (next_addr c1) rp c2) = leaked c"
proof -
  note st = table_ok_started [OF assms(1-3)]
  have ok: "owned_by {} c" "tombs_ok c" using assms(1) by (simp_all add: table_ok_iff)
  note n = nextPid_idx [OF ok(2) assms(2)] nextPid_table [OF assms(2)]
  have leak: "unat (idx p) \<in> leaked c2" using st(2) by simp
  then have i: "unat (idx p) < length (processes c2)" "processes c2 ! unat (idx p) = None"
    by (simp_all add: leaked_def null_idx_def)
  have na: "next_addr c2 = Suc (next_addr c1)" using assms(3) by (simp add: same_table_def)
  have "heap c (next_addr c) = None" using owned_byD(5) [OF ok(1)] by (metis less_irrefl option.exhaust)
  then have "heap c2 (next_addr c1) = None"
    using same_table_heap(1) [OF assms(3)] n(5,7) by simp
  then have "owned_by {} (add_process p (next_addr c1) rp c2)"
    using owned_by_add_process [of c2 "next_addr c1" p rp] st(1) na i assms(4-6)
    by (simp add: table_ok_iff)
  then show "table_ok (add_process p (next_addr c1) rp c2)"
    using tombs_ok_add_process [OF leak] st(1) by (simp add: table_ok_iff)
  show "leaked (add_process p (next_addr c1) rp c2) = leaked c"
    using leaked_add_process [OF leak] st(2) n(3) by auto
qed

section \<open>The table invariant holds\<close>

lemma table_ok_frame: "table_ok c \<Longrightarrow> same_table c c' \<Longrightarrow> table_ok c'"
  by (auto simp: table_ok_iff idx_table_frame(4) intro: owned_by_frame)

lemma table_ok_kill: "table_ok c \<Longrightarrow> table_ok (addtoDestroy p s c)"
  by (simp add: table_ok_iff owned_by_addtoDestroy tombs_ok_addtoDestroy)

lemma table_ok_destroy: "table_ok c \<Longrightarrow> table_ok (destroy_front c)"
  by (simp add: table_ok_iff owned_by_destroy_front tombs_ok_destroy_front)

lemma leaked_kill: "table_ok c \<Longrightarrow> leaked (addtoDestroy p s c) = leaked c"
  by (simp add: table_ok_iff tombs_ok_addtoDestroy)

lemma leaked_destroy: "table_ok c \<Longrightarrow> leaked (destroy_front c) = leaked c"
  by (simp add: table_ok_iff tombs_ok_destroy_front)

lemma table_ok_init: "table_ok Context_init"
  by (simp add: table_ok_def owned_by_def Context_init_def tomb_idx_def)

interpretation table: table_invariant any_spec table_ok
  by unfold_locales
    (auto intro: table_ok_init table_ok_frame table_ok_kill table_ok_destroy
      table_ok_started(1) table_ok_spawned(1))

text \<open>Programs whose constructors cannot throw never lose an index.\<close>

abbreviation quiet_spec :: "('st, 'm) SpawnSpec \<Rightarrow> bool" where
  "quiet_spec sp \<equiv> \<not> may_throw sp"

definition no_leak :: "('st, 'm) Context \<Rightarrow> bool" where
  "no_leak c \<longleftrightarrow> table_ok c \<and> leaked c = {}"

interpretation quiet: table_invariant quiet_spec no_leak
proof
  show "no_leak Context_init"
    by (simp add: no_leak_def table_ok_init) (simp add: leaked_def null_idx_def Context_init_def)
  fix c :: "('st, 'm) Context" and p s
  show "no_leak c \<Longrightarrow> no_leak (addtoDestroy p s c)" "no_leak c \<Longrightarrow> no_leak (destroy_front c)"
    using leaked_kill [of c p s] leaked_destroy [of c]
    by (auto simp: no_leak_def intro: table_ok_kill table_ok_destroy)
qed (auto simp: no_leak_def idx_table_frame(3) table_ok_spawned(2)
    intro: table_ok_frame table_ok_spawned(1))

text \<open>A lost index stays lost.\<close>

definition lost :: "nat \<Rightarrow> ('st, 'm) Context \<Rightarrow> bool" where
  "lost i c \<longleftrightarrow> table_ok c \<and> i \<in> leaked c"

interpretation lost: table_preserved any_spec "lost i" for i
proof
  fix c c1 c2 :: "('st, 'm) Context" and p s rp sp
  show "lost i c \<Longrightarrow> lost i (addtoDestroy p s c)" "lost i c \<Longrightarrow> lost i (destroy_front c)"
    using leaked_kill [of c p s] leaked_destroy [of c]
    by (auto simp: lost_def intro: table_ok_kill table_ok_destroy)
  show "lost i c \<Longrightarrow> nextPid c = Ret p c1 \<Longrightarrow> same_table (c1\<lparr>next_addr := Suc (next_addr c1)\<rparr>) c2 \<Longrightarrow>
      any_spec sp \<Longrightarrow> may_throw sp \<Longrightarrow> lost i c2"
    using table_ok_started [of c p c1 c2] by (simp add: lost_def)
qed (auto simp: lost_def idx_table_frame(3) table_ok_spawned(2)
    intro: table_ok_frame table_ok_spawned(1))

section \<open>Identifiers are not reused\<close>

text \<open>
  Versions stay below the number of processes spawned so far, so they cannot wrap around before
  \<open>2 ^ 64\<close> processes have been spawned.
\<close>

definition versions_ok :: "('st, 'm) Context \<Rightarrow> bool" where
  "versions_ok c \<longleftrightarrow>
     (\<forall>a rp. heap c a = Some rp \<longrightarrow> unat (version (rp_pid rp)) < next_addr c)
     \<and> (\<forall>t\<in>set (tombstones c). unat (version t) < next_addr c)"

text \<open>
  \<open>bounded R p c\<close>: the index of \<open>p\<close> has been handed out, and whatever process lives there or died
  there last has a version above that of \<open>p\<close> (in the sense of \<open>R\<close> for the living one).
\<close>

definition bounded :: "(uint64 \<Rightarrow> uint64 \<Rightarrow> bool) \<Rightarrow> Pid \<Rightarrow> ('st, 'm) Context \<Rightarrow> bool" where
  "bounded R p c \<longleftrightarrow> unat (idx p) < length (processes c)
     \<and> (\<forall>a rp. heap c a = Some rp \<longrightarrow> \<not> dead rp \<longrightarrow> idx (rp_pid rp) = idx p \<longrightarrow> R (version p) (version (rp_pid rp)))
     \<and> (\<forall>t\<in>set (tombstones c). idx t = idx p \<longrightarrow> version p \<le> version t)"

definition pid_bounded :: "(uint64 \<Rightarrow> uint64 \<Rightarrow> bool) \<Rightarrow> Pid \<Rightarrow> ('st, 'm) Context \<Rightarrow> bool" where
  "pid_bounded R p c \<longleftrightarrow> table_ok c \<and> (next_addr c < 2 ^ 64 \<longrightarrow> versions_ok c \<and> bounded R p c)"

lemma addtoDestroy_effect:
  assumes "owned_by X c" and "findProc q c = Some b"
  obtains rp where "heap c b = Some rp" "\<not> dead rp" "rp_pid rp = q"
    and "heap (addtoDestroy q s c) = (heap c)(b \<mapsto> rp\<lparr>dead := True\<rparr>)"
    and "tombstones (addtoDestroy q s c) = tombstones c @ [q]"
    and "length (processes (addtoDestroy q s c)) = length (processes c)"
    and "next_addr (addtoDestroy q s c) = next_addr c"
proof -
  obtain rp where "heap c b = Some rp" "\<not> dead rp" "rp_pid rp = q"
    using assms findProc_iff by blast
  then show ?thesis using that assms(2) by (simp add: addtoDestroy_def upd_proc_def)
qed

lemma versions_kill:
  assumes "owned_by X c"
  shows "next_addr (addtoDestroy q s c) = next_addr c"
    and "versions_ok c \<Longrightarrow> versions_ok (addtoDestroy q s c)"
    and "(\<And>x y. R x y \<Longrightarrow> x \<le> y) \<Longrightarrow> bounded R p c \<Longrightarrow> bounded R p (addtoDestroy q s c)"
proof (atomize (full), cases "findProc q c")
  case None
  then show "next_addr (addtoDestroy q s c) = next_addr c
    \<and> (versions_ok c \<longrightarrow> versions_ok (addtoDestroy q s c))
    \<and> ((\<forall>x y. R x y \<longrightarrow> x \<le> y) \<longrightarrow> bounded R p c \<longrightarrow> bounded R p (addtoDestroy q s c))"
    by (simp add: addtoDestroy_def)
next
  case (Some b)
  obtain rp where rp: "heap c b = Some rp" "\<not> dead rp" "rp_pid rp = q"
    and f: "heap (addtoDestroy q s c) = (heap c)(b \<mapsto> rp\<lparr>dead := True\<rparr>)"
      "tombstones (addtoDestroy q s c) = tombstones c @ [q]"
      "length (processes (addtoDestroy q s c)) = length (processes c)"
      "next_addr (addtoDestroy q s c) = next_addr c"
    by (rule addtoDestroy_effect [OF assms Some, of s]) (rule that, assumption+)
  have v: "versions_ok c \<longrightarrow> versions_ok (addtoDestroy q s c)"
    unfolding versions_ok_def f using rp by auto
  have "(\<forall>x y. R x y \<longrightarrow> x \<le> y) \<longrightarrow> bounded R p c \<longrightarrow> bounded R p (addtoDestroy q s c)"
    unfolding bounded_def f using rp by auto
  with v f(4) show "next_addr (addtoDestroy q s c) = next_addr c
    \<and> (versions_ok c \<longrightarrow> versions_ok (addtoDestroy q s c))
    \<and> ((\<forall>x y. R x y \<longrightarrow> x \<le> y) \<longrightarrow> bounded R p c \<longrightarrow> bounded R p (addtoDestroy q s c))"
    by blast
qed

lemma versions_fold_kill:
  assumes "owned_by X c" and R: "\<And>x y. R x y \<Longrightarrow> x \<le> y"
  shows "next_addr (fold (\<lambda>p. addtoDestroy p s) qs c) = next_addr c
    \<and> (versions_ok c \<longrightarrow> versions_ok (fold (\<lambda>p. addtoDestroy p s) qs c))
    \<and> (bounded R p c \<longrightarrow> bounded R p (fold (\<lambda>p. addtoDestroy p s) qs c))"
  using assms(1)
proof (induction qs arbitrary: c)
  case Nil
  then show ?case by simp
next
  case (Cons q qs)
  from Cons.IH [OF owned_by_addtoDestroy [OF Cons.prems, of q s]]
    versions_kill(1,2) [OF Cons.prems, where q = q and s = s]
    versions_kill(3) [OF Cons.prems R, where p = p and q = q and s = s]
  show ?case by simp
qed

lemma versions_frame:
  assumes "same_table c c'"
  shows "next_addr c' = next_addr c" "versions_ok c \<Longrightarrow> versions_ok c'" "bounded R p c \<Longrightarrow> bounded R p c'"
proof -
  have eq: "next_addr c' = next_addr c" "tombstones c' = tombstones c" "processes c' = processes c"
    using assms by (simp_all add: same_table_def)
  have h: "\<exists>rp. heap c a = Some rp \<and> dead rp = dead rp' \<and> rp_pid rp = rp_pid rp'"
    if "heap c' a = Some rp'" for a rp'
    using same_table_heap(3) [OF assms that] by (auto simp: same_proc_def)
  show "next_addr c' = next_addr c" by (rule eq)
  show "versions_ok c \<Longrightarrow> versions_ok c'" unfolding versions_ok_def eq using h by metis
  show "bounded R p c \<Longrightarrow> bounded R p c'" unfolding bounded_def eq using h by metis
qed

lemma versions_delete:
  "next_addr (delete_process a c) = next_addr c" "versions_ok c \<Longrightarrow> versions_ok (delete_process a c)"
  "bounded R p c \<Longrightarrow> bounded R p (delete_process a c)"
  by (auto simp: versions_ok_def bounded_def delete_process_def)

lemma versions_destroy:
  assumes "owned_by {} c" and R: "\<And>x y. R x y \<Longrightarrow> x \<le> y"
  shows "next_addr (destroy_front c) = next_addr c
    \<and> (versions_ok c \<longrightarrow> versions_ok (destroy_front c)) \<and> (bounded R p c \<longrightarrow> bounded R p (destroy_front c))"
proof (cases "toDestroy c")
  case Nil
  then show ?thesis by (simp add: destroy_front_def)
next
  case (Cons e rest)
  obtain a s where e: "e = (a, s)" by (cases e)
  let ?c = "c\<lparr>toDestroy := rest\<rparr>"
  have o: "owned_by {a} ?c" using owned_by_pop [OF assms(1)] Cons e by simp
  then obtain rp where rp: "heap ?c a = Some rp" using owned_byD(4) [OF o, of a] by auto
  have "next_addr ?c = next_addr c" "versions_ok ?c = versions_ok c" "bounded R p ?c = bounded R p c"
    by (simp_all add: versions_ok_def bounded_def)
  then show ?thesis
    using versions_fold_kill [OF o R, where s = s and qs = "killOnDie (rp_process rp)" and p = p]
      versions_frame [OF same_table_fold_queueSend [of "fold (\<lambda>p. addtoDestroy p s) (killOnDie (rp_process rp)) ?c"
          "MPid (rp_pid rp)" "notifyOnDie (rp_process rp)"]] Cons e rp
    by (auto simp: destroy_front_def destroy_def Let_def versions_delete)
qed

lemma nextPid_version:
  assumes "tombs_ok c" and "versions_ok c" and "nextPid c = Ret q c1" and "next_addr c < 2 ^ 64"
  shows "unat (version q) \<le> next_addr c"
    and "set (tombstones c1) \<subseteq> set (tombstones c)"
    and "\<And>R p. bounded R p c \<Longrightarrow> idx q = idx p \<Longrightarrow> version p < version q"
proof -
  consider (reuse) "tombstones c \<noteq> []" "c1 = c\<lparr>tombstones := butlast (tombstones c)\<rparr>"
      "q = \<lparr>idx = idx (last (tombstones c)), version = version (last (tombstones c)) + 1\<rparr>"
    | (grow) "length (processes c) < vector_max_size" "c1 = c\<lparr>processes := processes c @ [None]\<rparr>"
      "idx q = of_nat (length (processes c))" "version q = 0"
    using assms(3) by (auto simp: nextPid_def Let_def split: if_splits)
  then have "unat (version q) \<le> next_addr c \<and> set (tombstones c1) \<subseteq> set (tombstones c)
    \<and> (\<forall>R p. bounded R p c \<longrightarrow> idx q = idx p \<longrightarrow> version p < version q)"
  proof cases
    case reuse
    let ?t = "last (tombstones c)"
    have t: "?t \<in> set (tombstones c)" using reuse(1) by simp
    then have lt: "unat (version ?t) + 1 \<le> next_addr c" using assms(2) by (auto simp: versions_ok_def)
    then have v: "unat (version q) = unat (version ?t) + 1"
      using assms(4) reuse(3) by (simp add: unat_word_ariths)
    have "version p < version q" if "bounded R p c" "idx q = idx p" for R p
    proof -
      have "version p \<le> version ?t" using that t reuse(3) by (simp add: bounded_def)
      then show ?thesis using v by (simp add: word_le_nat_alt word_less_nat_alt)
    qed
    then show ?thesis using v lt reuse(2) by (auto dest: in_set_butlastD)
  next
    case grow
    have "unat (idx q) = length (processes c)"
      using grow(1,3) vector_max_size_less [of "length (processes c)"] by (simp add: unat_of_nat)
    then show ?thesis using grow by (auto simp: bounded_def)
  qed
  then show "unat (version q) \<le> next_addr c" "set (tombstones c1) \<subseteq> set (tombstones c)"
    "\<And>R p. bounded R p c \<Longrightarrow> idx q = idx p \<Longrightarrow> version p < version q" by blast+
qed

lemma versions_started:
  assumes "table_ok c" and "versions_ok c" and "nextPid c = Ret q c1" and "next_addr c < 2 ^ 64"
    and "same_table (c1\<lparr>next_addr := Suc (next_addr c1)\<rparr>) c2"
  shows "versions_ok c2" and "bounded R p c \<Longrightarrow> bounded R p c2"
proof -
  have tok: "tombs_ok c" using assms(1) by (simp add: table_ok_iff)
  note n = nextPid_idx [OF tok assms(3)] nextPid_table [OF assms(3)] and v = nextPid_version [OF tok assms(2-4)]
  let ?c1 = "c1\<lparr>next_addr := Suc (next_addr c1)\<rparr>"
  have "versions_ok ?c1"
    using assms(2) n(5,7) v(2) unfolding versions_ok_def by (auto intro: less_SucI)
  then show "versions_ok c2" by (rule versions_frame(2) [OF assms(5)])
  have "bounded R p c \<Longrightarrow> bounded R p ?c1" using n(5,10) v(2) unfolding bounded_def by auto
  then show "bounded R p c \<Longrightarrow> bounded R p c2" by (blast intro: versions_frame(3) [OF assms(5)])
qed

lemma versions_spawned:
  assumes "table_ok c" and "versions_ok c" and "nextPid c = Ret q c1" and "next_addr c < 2 ^ 64"
    and "same_table (c1\<lparr>next_addr := Suc (next_addr c1)\<rparr>) c2" and "rp_pid rp = q"
  shows "versions_ok (add_process q (next_addr c1) rp c2)"
    and "(\<And>x y. x < y \<Longrightarrow> R x y) \<Longrightarrow> bounded R p c \<Longrightarrow> bounded R p (add_process q (next_addr c1) rp c2)"
proof -
  have tok: "tombs_ok c" using assms(1) by (simp add: table_ok_iff)
  note n = nextPid_idx [OF tok assms(3)] nextPid_table [OF assms(3)] and v = nextPid_version [OF tok assms(2-4)]
  note st = versions_started [OF assms(1-5)]
  have na: "next_addr c2 = Suc (next_addr c)" using assms(5) n(7) by (simp add: same_table_def)
  show "versions_ok (add_process q (next_addr c1) rp c2)"
    using st(1) v(1) na assms(6) by (auto simp: versions_ok_def add_process_def split: if_splits)
  show "bounded R p (add_process q (next_addr c1) rp c2)"
    if "\<And>x y. x < y \<Longrightarrow> R x y" and b: "bounded R p c"
    using st(2) [OF b] that(1) v(3) [OF b] assms(6)
    by (auto simp: bounded_def add_process_def split: if_splits)
qed

lemma pid_bounded_preserved:
  assumes R: "\<And>x y. R x y \<Longrightarrow> x \<le> y" "\<And>x y. x < y \<Longrightarrow> R x y"
  shows "table_preserved any_spec (pid_bounded R p :: ('st, 'm) Context \<Rightarrow> bool)"
proof
  fix c c1 c2 :: "('st, 'm) Context" and q s sp rp
  show "pid_bounded R p c \<Longrightarrow> table_ok c" by (simp add: pid_bounded_def)
  show "pid_bounded R p c \<Longrightarrow> same_table c c2 \<Longrightarrow> pid_bounded R p c2"
    using versions_frame [of c c2] by (auto simp: pid_bounded_def intro: table_ok_frame)
  have o: "pid_bounded R p c \<Longrightarrow> owned_by {} c" by (simp add: pid_bounded_def table_ok_iff)
  show "pid_bounded R p c \<Longrightarrow> pid_bounded R p (addtoDestroy q s c)"
    using versions_kill(1,2) [OF o, where q = q and s = s]
      versions_kill(3) [OF o R(1), where p = p and q = q and s = s]
    by (simp add: pid_bounded_def table_ok_kill)
  show "pid_bounded R p c \<Longrightarrow> pid_bounded R p (destroy_front c)"
    using versions_destroy [OF o R(1), where p = p] by (simp add: pid_bounded_def table_ok_destroy)
  assume T: "pid_bounded R p c" and n: "nextPid c = Ret q c1"
    and st: "same_table (c1\<lparr>next_addr := Suc (next_addr c1)\<rparr>) c2"
  have ok: "table_ok c" using T by (simp add: pid_bounded_def)
  have na: "next_addr c2 = Suc (next_addr c)"
    using st nextPid_table(3) [OF n] ok by (simp add: same_table_def table_ok_iff)
  show "pid_bounded R p c2"
    using T na versions_started [OF ok _ n _ st] table_ok_started(1) [OF ok n st]
    by (auto simp: pid_bounded_def)
  show "rp_pid rp = q \<Longrightarrow> \<not> dead rp \<Longrightarrow> pr_pid (rp_process rp) = q \<Longrightarrow>
      pid_bounded R p (add_process q (next_addr c1) rp c2)"
    using T na versions_spawned [OF ok _ n _ st] R table_ok_spawned(1) [OF ok n st, of rp]
    by (auto simp: pid_bounded_def) (simp_all add: add_process_def)
qed

interpretation upto: table_preserved any_spec "pid_bounded (\<le>) p" for p
  by (rule pid_bounded_preserved) auto

interpretation below: table_preserved any_spec "pid_bounded (<) p" for p
  by (rule pid_bounded_preserved) auto

definition versions_inv :: "('st, 'm) Context \<Rightarrow> bool" where
  "versions_inv c \<longleftrightarrow> table_ok c \<and> (next_addr c < 2 ^ 64 \<longrightarrow> versions_ok c)"

interpretation versions: table_invariant any_spec versions_inv
proof
  fix c c1 c2 :: "('st, 'm) Context" and q s sp rp
  have o: "versions_inv c \<Longrightarrow> owned_by {} c" by (simp add: versions_inv_def table_ok_iff)
  show "versions_inv Context_init"
    by (simp add: versions_inv_def table_ok_init) (simp add: versions_ok_def Context_init_def)
  show "versions_inv c \<Longrightarrow> table_ok c" by (simp add: versions_inv_def)
  show "versions_inv c \<Longrightarrow> same_table c c2 \<Longrightarrow> versions_inv c2"
    using versions_frame(1,2) [of c c2] by (auto simp: versions_inv_def intro: table_ok_frame)
  show "versions_inv c \<Longrightarrow> versions_inv (addtoDestroy q s c)"
    using versions_kill(1,2) [OF o, where q = q and s = s] by (simp add: versions_inv_def table_ok_kill)
  show "versions_inv c \<Longrightarrow> versions_inv (destroy_front c)"
    using versions_destroy [OF o, where R = "(\<le>)"] by (simp add: versions_inv_def table_ok_destroy)
  assume T: "versions_inv c" and n: "nextPid c = Ret q c1"
    and st: "same_table (c1\<lparr>next_addr := Suc (next_addr c1)\<rparr>) c2"
  have ok: "table_ok c" using T by (simp add: versions_inv_def)
  have na: "next_addr c2 = Suc (next_addr c)"
    using st nextPid_table(3) [OF n] ok by (simp add: same_table_def table_ok_iff)
  show "versions_inv c2"
    using T na versions_started(1) [OF ok _ n _ st] table_ok_started(1) [OF ok n st]
    by (auto simp: versions_inv_def)
  show "rp_pid rp = q \<Longrightarrow> \<not> dead rp \<Longrightarrow> pr_pid (rp_process rp) = q \<Longrightarrow>
      versions_inv (add_process q (next_addr c1) rp c2)"
    using T na versions_spawned(1) [OF ok _ n _ st, of rp] table_ok_spawned(1) [OF ok n st, of rp]
    by (auto simp: versions_inv_def) (simp_all add: add_process_def)
qed

end
