(* ===== verification/Lifecycle.thy ===== *)
theory Lifecycle
  imports Table_Ok
begin

text \<open>
  Properties of the life of processes that follow from the table invariant: when \<open>run\<close> ends and
  what is left then, what a failing constructor does, the uniqueness of process identifiers, and what becomes of
  exceptions.
\<close>

section \<open>Reachable states\<close>

lemma call_all_any [simp]: "call_all any_spec r"
  by (cases r) simp_all

lemma code_all_any [simp]: "code_all any_spec cd"
  by (induction cd) simp_all

lemma program_all_any [simp]: "program_all any_spec P"
  by (simp add: program_all_def)

lemma reachable_table_ok: "reachable any_spec P c \<Longrightarrow> table_ok c"
  by (erule table.sched.reachable_keeps) simp

lemma call_all_mono: "call_all S r \<Longrightarrow> (\<And>sp. S sp \<Longrightarrow> S' sp) \<Longrightarrow> call_all S' r"
  by (cases r) auto

lemma io_steps_mono:
  assumes S: "\<And>sp. S sp \<Longrightarrow> S' sp"
  shows "io_steps S P c c' \<Longrightarrow> io_steps S' P c c'"
proof (induction rule: io_steps.induct)
  case (io_trans c c' c'')
  have "io_step S' P c' c''"
    using io_trans.hyps(2) by cases (auto intro: io_step.intros call_all_mono S)
  with io_trans.IH show ?case by (rule io_steps.io_trans)
qed (rule io_steps.io_refl)

lemma run_step_mono: "run_step S P c c' \<Longrightarrow> (\<And>sp. S sp \<Longrightarrow> S' sp) \<Longrightarrow> run_step S' P c c'"
  by (erule run_step.cases) (auto intro: run_step.intros io_steps_mono)

lemma reachable_mono: "reachable S P c \<Longrightarrow> (\<And>sp. S sp \<Longrightarrow> S' sp) \<Longrightarrow> reachable S' P c"
  by (induction rule: reachable.induct) (blast intro: reachable.intros run_step_mono)+

lemma reachable_run_steps: "run_steps S P c c' \<Longrightarrow> reachable S P c \<Longrightarrow> reachable S P c'"
  by (induction rule: run_steps.induct) (auto intro: reachable.stepped)

lemma destroy_all_done: "toDestroy (destroy_all c) = []"
proof (induction c rule: destroy_all.induct)
  case (1 c)
  then show ?case by (cases "toDestroy c = []") (simp_all add: destroy_all.simps [of c])
qed

lemma spawn_toDestroy:
  assumes "table_ok c" and "spawn sp c = r"
  shows "keeps (\<lambda>c'. toDestroy c' = toDestroy c) r"
proof (cases "nextPid c")
  case (Ret p c1)
  have tok: "tombs_ok c" using assms(1) by (simp add: table_ok_iff)
  note n = nextPid_idx [OF tok Ret] nextPid_table [OF Ret]
  have "heap (c1\<lparr>next_addr := Suc (next_addr c1)\<rparr>) (next_addr c1) = None"
    using table.T_fresh [OF assms(1)] n(5,7) by simp
  from construct_table [OF this, of "ProcessArgs_init p" sp]
  show ?thesis
    using assms(2) Ret n(6)
    by (cases "construct (next_addr c1) (ProcessArgs_init p) sp (c1\<lparr>next_addr := Suc (next_addr c1)\<rparr>)")
      (auto simp: spawn_def spawnArgs_def Let_def queueResume_def same_table_def)
next
  case (Throw e c1)
  then have "c1 = c" by (auto simp: nextPid_def Let_def split: if_splits)
  with Throw show ?thesis unfolding assms(2) [symmetric] by (simp add: spawn_def)
qed (simp_all add: assms(2) [symmetric] spawn_def)

lemma reachable_toDestroy: "reachable any_spec P c \<Longrightarrow> toDestroy c = []"
proof (induction rule: reachable.induct)
  case fresh
  show ?case by (simp add: Context_init_def)
next
  case (spawned c sp p c')
  with spawn_toDestroy [OF reachable_table_ok, of P c sp] show ?case by simp
next
  case (spawn_failed c sp e c')
  with spawn_toDestroy [OF reachable_table_ok, of P c sp] show ?case by simp
next
  case (stepped c c')
  from stepped.hyps(2) show ?case by (auto elim: run_step.cases simp: destroy_all_done)
qed

section \<open>When the loop ends\<close>

lemma run_again_iff:
  assumes "table_ok c"
  shows "run_again c \<longleftrightarrow> (\<exists>a rp. heap c a = Some rp \<and> \<not> dead rp) \<or> leaked c \<noteq> {}"
proof -
  have o: "owned_by {} c" and t: "tombs_ok c" using assms by (simp_all add: table_ok_iff)
  let ?is = "map (\<lambda>p. unat (idx p)) (tombstones c)"
  have d: "distinct ?is"
    using t by (simp add: tombs_ok_def distinct_map) (auto simp: inj_on_def word_unat_eq_iff)
  have s: "set ?is = tomb_idx c" by (simp add: tomb_idx_def)
  have sub: "tomb_idx c \<subseteq> {..<length (processes c)}"
    using t by (auto simp: tombs_ok_def null_idx_def)
  have "length (processes c) = length (tombstones c) \<longleftrightarrow> card (tomb_idx c) = length (processes c)"
    using distinct_card [OF d] s by auto
  also have "\<dots> \<longleftrightarrow> tomb_idx c = {..<length (processes c)}"
    using card_subset_eq [OF _ sub] by (metis card_lessThan finite_lessThan)
  also have "\<dots> \<longleftrightarrow> null_idx c = {..<length (processes c)} \<and> leaked c = {}"
    using t sub by (auto simp: leaked_def tombs_ok_def null_idx_def)
  also have "null_idx c = {..<length (processes c)} \<longleftrightarrow> (\<forall>i<length (processes c). processes c ! i = None)"
    by (auto simp: null_idx_def)
  also have "\<dots> \<longleftrightarrow> \<not> (\<exists>a rp. heap c a = Some rp \<and> \<not> dead rp)"
  proof
    assume "\<forall>i<length (processes c). processes c ! i = None"
    then show "\<not> (\<exists>a rp. heap c a = Some rp \<and> \<not> dead rp)"
      using owned_by_table_entry [OF o] by fastforce
  next
    assume "\<not> (\<exists>a rp. heap c a = Some rp \<and> \<not> dead rp)"
    then show "\<forall>i<length (processes c). processes c ! i = None"
      using owned_byD(1) [OF o] by (metis option.exhaust)
  qed
  finally show ?thesis by (auto simp: run_again_def)
qed

text \<open>When \<open>run\<close> ends, no process object is left: every process that was ever spawned has been
  destroyed, and nothing waits to be destroyed.\<close>

theorem run_end_no_process_left:
  assumes "reachable any_spec P c" and "\<not> run_again c"
  shows "heap c = (\<lambda>_. None) \<and> toDestroy c = [] \<and> set (processes c) \<subseteq> {None}"
proof -
  have o: "owned_by {} c" using reachable_table_ok [OF assms(1)] by (simp add: table_ok_iff)
  have d: "toDestroy c = []" using assms(1) by (rule reachable_toDestroy)
  have alive: "\<not> (\<exists>a rp. heap c a = Some rp \<and> \<not> dead rp)"
    using assms(2) run_again_iff [OF reachable_table_ok [OF assms(1)]] by blast
  have none: "heap c a = None" for a
  proof (rule ccontr)
    assume "heap c a \<noteq> None"
    then obtain rp where rp: "heap c a = Some rp" by auto
    then have "Some a \<in> set (processes c)" using owned_byD(7) [OF o rp] d by simp
    then show False using owned_byD(1) [OF o] rp alive by (metis in_set_conv_nth)
  qed
  moreover have "e = None" if "e \<in> set (processes c)" for e
    using that none owned_byD(1) [OF o] by (metis in_set_conv_nth option.exhaust option.distinct(1))
  ultimately show ?thesis using d by auto
qed

theorem run_end_no_process_left_witness:
  "\<not> run_again (Context_init :: (nat, nat) Context) \<and> heap (Context_init :: (nat, nat) Context) = (\<lambda>_. None)"
proof -
  have "\<not> run_again (Context_init :: (nat, nat) Context)" by (simp add: run_again_def Context_init_def)
  then show ?thesis
    using run_end_no_process_left [of "\<lambda>_ _. CoReturn AUnit" "Context_init :: (nat, nat) Context"]
    by (simp add: reachable.fresh)
qed

section \<open>A context with one process\<close>

text \<open>
  A process that returns at once, spawned in a fresh context, and the round of \<open>run\<close> that runs and
  destroys it: the concrete states at which the properties below are instantiated.
\<close>

definition demo_prog :: "(nat, nat) program" where
  "demo_prog st v = CoReturn AUnit"

definition demo_spec :: "(nat, nat) SpawnSpec" where
  "demo_spec = \<lparr>sp_classes = [], sp_members = [], sp_links = [], sp_throws = None, sp_start = UserFrame 0\<rparr>"

definition demo_pid :: Pid where
  "demo_pid = \<lparr>idx = 0, version = 0\<rparr>"

definition demo_rp :: "(nat, nat) RunningProcess" where
  "demo_rp = \<lparr>dead = False, rp_pid = demo_pid,
     rp_process = \<lparr>pr_pid = demo_pid, killOnDie = [], notifyOnDie = [], pr_classes = [], pr_members = []\<rparr>,
     task = Some (None, [UserFrame 0]), lastWaiting = None, resumes = 0\<rparr>"

definition demo_c1 :: "(nat, nat) Context" where
  "demo_c1 = Context_init\<lparr>heap := (\<lambda>_. None)(0 \<mapsto> demo_rp), next_addr := 1, processes := [Some 0],
     queue := [\<lparr>ti_pid = demo_pid, ti_resume = Some 0, ti_message = None\<rparr>]\<rparr>"

definition demo_c2 :: "(nat, nat) Context" where
  "demo_c2 = Context_init\<lparr>next_addr := 1, processes := [None], tombstones := [demo_pid]\<rparr>"

lemma demo_spawn: "spawn demo_spec Context_init = Ret demo_pid demo_c1"
  by (simp add: spawn_def nextPid_def Context_init_def vector_max_size_def spawnArgs_def construct_def
      demo_spec_def ProcessArgs_init_def Process_init_def demo_pid_def demo_c1_def demo_rp_def
      queueResume_def Let_def)

lemma demo_reachable1: "\<not> may_throw demo_spec \<and> reachable quiet_spec demo_prog demo_c1"
  using reachable.spawned [OF reachable.fresh _ demo_spawn, of quiet_spec demo_prog]
  by (simp add: may_throw_def demo_spec_def)

definition demo_mid :: "(nat, nat) Context" where
  "demo_mid = Context_init\<lparr>heap := (\<lambda>_. None)(0 \<mapsto> demo_rp\<lparr>resumes := 1, task := None, dead := True\<rparr>),
     next_addr := 1, processes := [None], tombstones := [demo_pid], toDestroy := [(0, '''')]\<rparr>"

lemma destroy_all_one:
  "toDestroy c \<noteq> [] \<Longrightarrow> toDestroy (destroy_front c) = [] \<Longrightarrow> destroy_all c = destroy_front c"
  by (simp add: destroy_all.simps [of c] destroy_all.simps [of "destroy_front c"])

lemma demo_item:
  "processQueueItem 1 demo_prog \<lparr>ti_pid = demo_pid, ti_resume = Some 0, ti_message = None\<rparr>
     (demo_c1\<lparr>queue := []\<rparr>) = Ret () demo_mid"
  by (simp add: processQueueItem_def findProc_def demo_c1_def demo_mid_def demo_pid_def demo_rp_def
      resume_def run_task_def process_last_def task_resume_def demo_prog_def upd_proc_def cancel_timer_def
      addtoDestroy_def Context_init_def Let_def)

lemma demo_destroy: "destroy_front demo_mid = demo_c2"
  by (simp add: destroy_front_def destroy_def demo_mid_def demo_c2_def demo_rp_def Context_init_def Let_def
      delete_process_def owned_slots_def)

lemma demo_step: "run_step ok demo_prog demo_c1 demo_c2"
proof -
  have "destroy_all demo_mid = demo_c2"
    using destroy_all_one [of demo_mid] demo_destroy
    by (simp add: demo_c2_def Context_init_def) (simp add: demo_mid_def)
  moreover have "run_step ok demo_prog demo_c1 (destroy_all demo_mid)"
    by (rule run_step.item [OF _ _ demo_item]) (simp_all add: demo_c1_def run_again_def Context_init_def)
  ultimately show ?thesis by simp
qed

lemma demo_any: "reachable any_spec demo_prog demo_c1" "reachable any_spec demo_prog demo_c2"
  using demo_reachable1 reachable_mono [of quiet_spec demo_prog demo_c1 any_spec]
  by (auto intro: reachable.stepped [OF _ demo_step])

lemma demo_findProc: "findProc demo_pid demo_c1 = Some 0" "findProc demo_pid demo_c2 = None"
  by (simp_all add: findProc_def demo_c1_def demo_c2_def demo_pid_def demo_rp_def Context_init_def)

section \<open>Failed constructors\<close>

text \<open>C15: The condition of the loop of \<open>run\<close>, which compares the number of table entries with the number of
  tombstones, is exact in every program none of whose constructors can throw or link: in every reachable
  state it asks for another round if and only if some process is alive. In particular \<open>run\<close> ends after the
  death of the last process, since every death leaves a tombstone and every reuse of an index takes one.\<close>

theorem run_goes_on_iff_alive:
  assumes "program_all quiet_spec P" and "reachable quiet_spec P c"
  shows "run_again c \<longleftrightarrow> (\<exists>a rp. heap c a = Some rp \<and> \<not> dead rp)"
  using quiet.sched.reachable_keeps [OF assms(2,1)] run_again_iff [of c] by (simp add: no_leak_def)

text \<open>A process is spawned and \<open>run\<close> goes on; it dies in the first round, and \<open>run\<close> ends.\<close>

theorem run_goes_on_iff_alive_witness:
  "program_all quiet_spec demo_prog \<and> run_again demo_c1 \<and> (\<exists>a rp. heap demo_c1 a = Some rp \<and> \<not> dead rp)
   \<and> run_step quiet_spec demo_prog demo_c1 demo_c2 \<and> \<not> run_again demo_c2 \<and> \<not> (\<exists>a rp. heap demo_c2 a = Some rp \<and> \<not> dead rp)"
proof -
  have p: "program_all quiet_spec demo_prog" by (simp add: program_all_def demo_prog_def)
  have r: "reachable quiet_spec demo_prog demo_c1" using demo_reachable1 by simp
  then have r2: "reachable quiet_spec demo_prog demo_c2" using demo_step by (rule reachable.stepped)
  have "run_again demo_c1" "\<not> run_again demo_c2" by (simp_all add: run_again_def demo_c1_def demo_c2_def Context_init_def)
  with run_goes_on_iff_alive [OF p r] run_goes_on_iff_alive [OF p r2] p demo_step show ?thesis by simp
qed

lemma failed_spawn_leaks:
  assumes "table_ok c" and "nextPid c = Ret p c1" and "spawn sp c = Throw e c'"
  shows "lost (unat (idx p)) c'"
proof -
  let ?c1 = "c1\<lparr>next_addr := Suc (next_addr c1)\<rparr>"
  have tok: "tombs_ok c" using assms(1) by (simp add: table_ok_iff)
  note n = nextPid_idx [OF tok assms(2)] nextPid_table [OF assms(2)]
  have "heap ?c1 (next_addr c1) = None" using table.T_fresh [OF assms(1)] n(5,7) by simp
  from construct_table [OF this, of "ProcessArgs_init p" sp]
  have "same_table ?c1 c'"
    using assms(2,3)
    by (cases "construct (next_addr c1) (ProcessArgs_init p) sp ?c1")
      (auto simp: spawn_def spawnArgs_def Let_def)
  from table_ok_started [OF assms(1,2) this] show ?thesis by (simp add: lost_def)
qed

text \<open>C32: A constructor that throws costs the context its end: the index taken by \<open>nextPid\<close> gets
  neither a process nor a tombstone, and from then on the condition of \<open>run\<close> holds in every state
  the loop comes to, also when no process is left.\<close>

theorem failed_spawn_keeps_run_going:
  assumes "reachable any_spec P c" and "nextPid c = Ret p c1" and "spawn sp c = Throw e c'"
    and "run_steps any_spec P c' c''"
  shows "run_again c''"
proof -
  have "lost (unat (idx p)) c'"
    using reachable_table_ok [OF assms(1)] assms(2,3) by (rule failed_spawn_leaks)
  then have "lost (unat (idx p)) c''" by (rule lost.sched.run_steps_keeps [OF assms(4), rotated]) simp
  then show ?thesis using run_again_iff [of c''] by (auto simp: lost_def)
qed

definition bad_spec :: "(nat, nat) SpawnSpec" where
  "bad_spec = demo_spec\<lparr>sp_links := [demo_pid]\<rparr>"

lemma bad_spawn:
  "nextPid (Context_init :: (nat, nat) Context) = Ret demo_pid (Context_init\<lparr>processes := [None]\<rparr>)"
  "spawn bad_spec Context_init
     = Throw ''Proc is already dead'' (Context_init\<lparr>processes := [None], next_addr := 1\<rparr>)"
  by (simp_all add: spawn_def nextPid_def Context_init_def vector_max_size_def spawnArgs_def construct_def
      bad_spec_def demo_spec_def ProcessArgs_init_def Process_init_def demo_pid_def link_with_def
      findProc_def delete_process_def owned_slots_def Let_def)

theorem failed_spawn_keeps_run_going_witness:
  "\<exists>c'. spawn bad_spec Context_init = Throw ''Proc is already dead'' c' \<and> heap c' = (\<lambda>_. None) \<and> run_again c'"
proof -
  have "run_again (Context_init\<lparr>processes := [None], next_addr := 1\<rparr> :: (nat, nat) Context)"
    by (rule failed_spawn_keeps_run_going [of demo_prog, OF reachable.fresh bad_spawn run_steps.run_refl])
  moreover have "heap (Context_init\<lparr>processes := [None], next_addr := 1\<rparr> :: (nat, nat) Context) = (\<lambda>_. None)"
    by (simp add: Context_init_def)
  ultimately show ?thesis using bad_spawn(2) by blast
qed

section \<open>Identifiers\<close>

text \<open>C16: \<open>findProc\<close> is exact in every reachable state of every program: it finds the process object that is alive and
  has the identifier, and nothing else, although it compares only the version of the entry at the index.\<close>

theorem findProc_exact:
  assumes "reachable any_spec P c"
  shows "findProc p c = Some a \<longleftrightarrow> (\<exists>rp. heap c a = Some rp \<and> \<not> dead rp \<and> rp_pid rp = p)"
  using reachable_table_ok [OF assms] findProc_iff [of "{}" c p a] by (simp add: table_ok_iff)

theorem findProc_exact_witness:
  "findProc demo_pid demo_c1 = Some 0 \<and> (\<exists>rp. heap demo_c1 0 = Some rp \<and> \<not> dead rp \<and> rp_pid rp = demo_pid)"
  using findProc_exact [OF demo_any(1), of demo_pid 0] demo_findProc(1) by simp

lemma run_steps_table_ok: "run_steps any_spec P c c' \<Longrightarrow> table_ok c \<Longrightarrow> table_ok c'"
  by (erule table.sched.run_steps_keeps) simp_all

lemma found_bounded:
  assumes "versions_inv c" and "findProc p c = Some a"
  shows "pid_bounded (\<le>) p c"
proof -
  have ok: "table_ok c" and o: "owned_by {} c" and t: "tombs_ok c"
    using assms(1) by (simp_all add: versions_inv_def table_ok_iff)
  obtain rp where rp: "heap c a = Some rp" "\<not> dead rp" "rp_pid rp = p"
    using assms(2) findProc_iff [OF o] by auto
  have entry: "unat (idx p) < length (processes c)" "processes c ! unat (idx p) = Some a"
    using owned_by_table_entry [OF o rp(1,2)] rp(3) by simp_all
  have "version p \<le> version (rp_pid rp')" if "heap c b = Some rp'" "\<not> dead rp'" "idx (rp_pid rp') = idx p" for b rp'
    using owned_by_table_entry [OF o that(1,2)] that entry rp by auto
  moreover have "idx q \<noteq> idx p" if "q \<in> set (tombstones c)" for q
    using that entry t by (auto simp: tombs_ok_def tomb_idx_def null_idx_def)
  ultimately show ?thesis using assms(1) ok entry(1) by (auto simp: pid_bounded_def bounded_def versions_inv_def)
qed

lemma gone_bounded:
  assumes "pid_bounded (\<le>) p c" and "findProc p c = None"
  shows "pid_bounded (<) p c"
proof -
  have o: "owned_by {} c" using assms(1) by (simp add: pid_bounded_def table_ok_iff)
  have "version (rp_pid rp) \<noteq> version p" if "heap c a = Some rp" "\<not> dead rp" "idx (rp_pid rp) = idx p" for a rp
  proof
    assume "version (rp_pid rp) = version p"
    with that(3) have "rp_pid rp = p" by (simp add: Pid_eqI)
    with findProc_iff [OF o, of p a] that assms(2) show False by simp
  qed
  then show ?thesis using assms(1) by (fastforce simp: pid_bounded_def bounded_def order.strict_iff_order)
qed

text \<open>C5: An identifier is never given out twice: once the process of \<open>p\<close> is gone, \<open>p\<close> finds no
  process in any later state of the run, although its index in the table is used again. The versions
  are 64 bit counters, so the statement holds as long as fewer than \<open>2^64\<close> processes have been
  created.\<close>

theorem pid_never_reused:
  assumes "reachable any_spec P c" and "findProc p c = Some a"
    and "run_steps any_spec P c c1" and "findProc p c1 = None"
    and "run_steps any_spec P c1 c2" and "next_addr c2 < 2 ^ 64"
  shows "findProc p c2 = None"
proof -
  have "versions_inv c" by (rule versions.sched.reachable_keeps [OF assms(1)]) simp
  then have "pid_bounded (\<le>) p c" using assms(2) by (rule found_bounded)
  then have "pid_bounded (\<le>) p c1" by (rule upto.sched.run_steps_keeps [OF assms(3), rotated]) simp
  then have "pid_bounded (<) p c1" using assms(4) by (rule gone_bounded)
  then have b: "pid_bounded (<) p c2" by (rule below.sched.run_steps_keeps [OF assms(5), rotated]) simp
  then have o: "owned_by {} c2" by (simp add: pid_bounded_def table_ok_iff)
  show ?thesis
  proof (rule ccontr)
    assume "findProc p c2 \<noteq> None"
    then obtain b rp where "heap c2 b = Some rp" "\<not> dead rp" "rp_pid rp = p"
      using findProc_iff [OF o] by blast
    then show False using b assms(6) by (auto simp: pid_bounded_def bounded_def)
  qed
qed

theorem pid_never_reused_witness:
  "findProc demo_pid demo_c1 = Some 0 \<and> findProc demo_pid demo_c2 = None \<and> run_steps any_spec demo_prog demo_c1 demo_c2"
proof -
  have s: "run_steps any_spec demo_prog demo_c1 demo_c2"
    by (rule run_steps.run_trans [OF run_steps.run_refl demo_step])
  have "findProc demo_pid demo_c2 = None"
    by (rule pid_never_reused [OF demo_any(1) demo_findProc(1) s demo_findProc(2) run_steps.run_refl])
      (simp add: demo_c2_def)
  then show ?thesis using s demo_findProc by simp
qed


section \<open>Exceptions\<close>

text \<open>
  No exception of process code leaves the process: neither a work item nor a handler of the io service ends in
  one, so that the \<open>catch\<close> block of \<open>run\<close> is never entered because of a process.
\<close>

lemma resume_no_throw: "resume n P this c \<noteq> Throw e c'"
  by (auto simp: resume_def arm_def arm_future_def Let_def split: option.splits res.splits prod.splits if_splits)

lemma rp_send_no_throw: "rp_send n P this s m c \<noteq> Throw e c'"
  by (simp add: rp_send_def Let_def resume_no_throw split: option.split)

lemma res_bind_no_throw:
  "(\<And>c'. r \<noteq> Throw e c') \<Longrightarrow> (\<And>a s c'. f a s \<noteq> Throw e c') \<Longrightarrow> res_bind r f \<noteq> Throw e c'"
  by (cases r) auto

lemma processQueueItem_no_throw: "processQueueItem n P i c \<noteq> Throw e c'"
  unfolding processQueueItem_def
  by (rule res_bind_no_throw) (simp_all add: resume_no_throw rp_send_no_throw split: option.split prod.split)

lemma run_handler_no_throw: "run_handler n P h c \<noteq> Throw e c'"
  by (cases h) (simp_all add: resume_no_throw split: option.split)

end
