(* ===== verification/Wakeup.thy ===== *)
theory Wakeup
  imports Lifecycle
begin

text \<open>
  No lost wake-ups: a live process never sleeps on one of its own slots while a message waits there.
  The invariant ties together the queue of work items, the ownership of slots and the awaitables
  that processes are suspended on.
\<close>

section \<open>Slots and their owners\<close>

definition owner :: "('st, 'm) Context \<Rightarrow> SlotId \<Rightarrow> addr option" where
  "owner c i = map_option slot_parent (map_of (slots c) i)"

definition ids_ok :: "('st, 'm) Context \<Rightarrow> bool" where
  "ids_ok c \<longleftrightarrow> (\<forall>i a. owner c i = Some a \<longrightarrow> i < next_slot c)"

definition slots_inv :: "('st, 'm) Context \<Rightarrow> bool" where
  "slots_inv c \<longleftrightarrow> slots_ok (slots c) \<and> ids_ok c"

text \<open>Every slot belongs to a process object of the heap, or to one under construction.\<close>

definition parents_in :: "addr set \<Rightarrow> ('st, 'm) Context \<Rightarrow> bool" where
  "parents_in A c \<longleftrightarrow> (\<forall>i a. owner c i = Some a \<longrightarrow> heap c a \<noteq> None \<or> a \<in> A)"

lemma addr_genuine_owner:
  "addr_genuine t c \<longleftrightarrow>
     (case owner c (sa_slot t) of
        None \<Rightarrow> sa_slot t < next_slot c
      | Some a \<Rightarrow> \<exists>rp. heap c a = Some rp \<and> rp_pid rp = sa_pid t)"
  by (auto simp: addr_genuine_def owner_def split: option.split)

text \<open>
  What an operation other than a delivery or a suspension may do: slots disappear or are created
  empty, queues shrink, processes die, disappear or are created, and nothing else changes that
  matters for who waits for what. New work items and new notifications go to addresses in \<open>N\<close>.
\<close>

definition kept_proc :: "('st, 'm) RunningProcess \<Rightarrow> ('st, 'm) RunningProcess \<Rightarrow> bool" where
  "kept_proc rp rp' \<longleftrightarrow> rp_pid rp' = rp_pid rp \<and> lastWaiting rp' = lastWaiting rp
     \<and> notifyOnDie (rp_process rp') = notifyOnDie (rp_process rp) \<and> (dead rp \<longrightarrow> dead rp')"

definition item_to :: "SendAddress set \<Rightarrow> 'm ToProcessItem \<Rightarrow> bool" where
  "item_to N it \<longleftrightarrow> (case ti_message it of None \<Rightarrow> True | Some (t, m) \<Rightarrow> ti_pid it = sa_pid t \<and> t \<in> N)"

definition slots_calm :: "('st, 'm) Context \<Rightarrow> ('st, 'm) Context \<Rightarrow> bool" where
  "slots_calm c c' \<longleftrightarrow> next_slot c \<le> next_slot c'
     \<and> (slots_inv c \<longrightarrow> slots_inv c' \<and> (\<forall>i. slot_list (slots c) i = [] \<longrightarrow> slot_list (slots c') i = []))
     \<and> (\<forall>i a. owner c' i = Some a \<longrightarrow> owner c i = Some a \<or> next_slot c \<le> i \<and> i < next_slot c')"

definition heap_calm :: "SendAddress set \<Rightarrow> ('st, 'm) Context \<Rightarrow> ('st, 'm) Context \<Rightarrow> bool" where
  "heap_calm N c c' \<longleftrightarrow> next_addr c \<le> next_addr c'
     \<and> (\<forall>b rp'. heap c' b = Some rp' \<longrightarrow> (\<exists>rp. heap c b = Some rp \<and> kept_proc rp rp')
          \<or> next_addr c \<le> b \<and> b < next_addr c' \<and> lastWaiting rp' = None \<and> set (notifyOnDie (rp_process rp')) \<subseteq> N)"

definition calm :: "SendAddress set \<Rightarrow> ('st, 'm) Context \<Rightarrow> ('st, 'm) Context \<Rightarrow> bool" where
  "calm N c c' \<longleftrightarrow> slots_calm c c' \<and> heap_calm N c c'
     \<and> (\<forall>it\<in>set (queue c'). it \<in> set (queue c) \<or> item_to N it)"

lemma kept_proc_refl [simp]: "kept_proc rp rp"
  by (simp add: kept_proc_def)

lemma kept_proc_trans: "kept_proc a b \<Longrightarrow> kept_proc b c \<Longrightarrow> kept_proc a c"
  by (auto simp: kept_proc_def)

lemma slots_calm_trans: "slots_calm a b \<Longrightarrow> slots_calm b c \<Longrightarrow> slots_calm a c"
  unfolding slots_calm_def by (metis le_trans order_less_le_trans)

lemma heap_calmD:
  assumes "heap_calm N c c'" and "heap c' b = Some rp'"
  obtains (old) rp where "heap c b = Some rp" "kept_proc rp rp'"
    | (new) "next_addr c \<le> b" "b < next_addr c'" "lastWaiting rp' = None" "set (notifyOnDie (rp_process rp')) \<subseteq> N"
proof -
  from assms have "(\<exists>rp. heap c b = Some rp \<and> kept_proc rp rp') \<or> next_addr c \<le> b \<and> b < next_addr c'
      \<and> lastWaiting rp' = None \<and> set (notifyOnDie (rp_process rp')) \<subseteq> N"
    unfolding heap_calm_def by metis
  then show thesis by (elim disjE exE conjE) (rule that; assumption)+
qed

lemma heap_calm_trans:
  assumes "heap_calm N a b" and "heap_calm N b c"
  shows "heap_calm N a c"
proof -
  have le: "next_addr a \<le> next_addr b" "next_addr b \<le> next_addr c"
    using assms by (auto simp: heap_calm_def)
  have "(\<exists>rp. heap a x = Some rp \<and> kept_proc rp rp'')
      \<or> next_addr a \<le> x \<and> x < next_addr c \<and> lastWaiting rp'' = None \<and> set (notifyOnDie (rp_process rp'')) \<subseteq> N"
    if c: "heap c x = Some rp''" for x rp''
    using assms(2) c
  proof (cases rule: heap_calmD)
    case (old rp')
    from assms(1) old(1) show ?thesis
    proof (cases rule: heap_calmD)
      case (old rp)
      then show ?thesis using kept_proc_trans \<open>kept_proc rp' rp''\<close> by blast
    next
      case new
      then show ?thesis using old(2) le by (auto simp: kept_proc_def)
    qed
  next
    case new
    then show ?thesis using le by auto
  qed
  then show ?thesis using le by (auto simp: heap_calm_def)
qed

lemma calm_trans: "calm N a b \<Longrightarrow> calm N b c \<Longrightarrow> calm N a c"
  unfolding calm_def using slots_calm_trans heap_calm_trans by blast

lemma calm_refl [simp]: "calm N c c"
  by (auto simp: calm_def slots_calm_def heap_calm_def)

text \<open>\<open>tame A N\<close>: besides, no process object disappears, and slots keep an owner (in the heap or in \<open>A\<close>).\<close>

definition tame :: "addr set \<Rightarrow> SendAddress set \<Rightarrow> ('st, 'm) Context \<Rightarrow> ('st, 'm) Context \<Rightarrow> bool" where
  "tame A N c c' \<longleftrightarrow> calm N c c' \<and> (parents_in A c \<longrightarrow> parents_in A c') \<and> (\<forall>b. heap c b \<noteq> None \<longrightarrow> heap c' b \<noteq> None)"

abbreviation keeps_tame :: "addr set \<Rightarrow> SendAddress set \<Rightarrow> ('st, 'm) Context \<Rightarrow> ('a, ('st, 'm) Context) res \<Rightarrow> bool" where
  "keeps_tame A N c \<equiv> keeps (tame A N c)"

lemma tame_refl [simp]: "tame A N c c"
  by (simp add: tame_def)

lemma tame_trans: "tame A N a b \<Longrightarrow> tame A N b c \<Longrightarrow> tame A N a c"
  unfolding tame_def using calm_trans by blast

lemma keeps_tame_trans:
  assumes "tame A N c c1" and "keeps_tame A N c1 r"
  shows "keeps_tame A N c r"
  using assms(2) by (rule res_post_mono) (auto intro: tame_trans [OF assms(1)])

named_theorems tame_intros

text \<open>Fields that do not matter, and work items.\<close>

lemma tame_same:
  assumes "slots c' = slots c" "next_slot c' = next_slot c" "heap c' = heap c" "next_addr c' = next_addr c"
    and "\<forall>it\<in>set (queue c'). it \<in> set (queue c) \<or> item_to N it"
  shows "tame A N c c'"
  using assms by (auto simp: tame_def calm_def slots_calm_def heap_calm_def parents_in_def owner_def slots_inv_def ids_ok_def)

lemma tame_fields [simp, tame_intros]:
  "tame A N c (c\<lparr>posted := hs\<rparr>)" "tame A N c (c\<lparr>waits := ws\<rparr>)" "tame A N c (c\<lparr>waits := ws, posted := hs\<rparr>)"
  "tame A N c (c\<lparr>promises := ps\<rparr>)" "tame A N c (c\<lparr>promises := ps, next_promise := k\<rparr>)"
  "tame A N c (cancel_timer a c)" "tame A N c (start_timer a t c)" "tame A N c (queueResume p n c)"
  "queue c = it # its \<Longrightarrow> tame A N c (c\<lparr>queue := its\<rparr>)"
  by (auto intro!: tame_same simp: cancel_timer_def start_timer_def queueResume_def item_to_def)

lemma tame_queueSend [simp, tame_intros]: "t \<in> N \<Longrightarrow> tame A N c (queueSend t m c)"
  by (auto intro!: tame_same simp: queueSend_def item_to_def)

lemma tame_upd_proc [tame_intros]: "(\<And>rp. kept_proc rp (f rp)) \<Longrightarrow> tame A N c (upd_proc a f c)"
  by (auto simp: tame_def calm_def slots_calm_def heap_calm_def parents_in_def owner_def upd_proc_def slots_inv_def ids_ok_def)

lemma kept_proc_updates [simp]:
  "kept_proc rp (rp\<lparr>resumes := n\<rparr>)" "kept_proc rp (rp\<lparr>rp_process := addKillOnDie b (rp_process rp)\<rparr>)"
  "kept_proc rp (rp\<lparr>dead := True\<rparr>)"
  by (simp_all add: kept_proc_def addKillOnDie_def)

lemma tame_addKillOnDie_at [simp, tame_intros]: "tame A N c (addKillOnDie_at a b c)"
  by (simp add: addKillOnDie_at_def tame_upd_proc)

lemma tame_addtoDestroy [simp, tame_intros]: "tame A N c (addtoDestroy p s c)"
proof (cases "findProc p c")
  case (Some a)
  let ?c1 = "upd_proc a (\<lambda>rp. rp\<lparr>dead := True\<rparr>) c"
  have "tame A N c ?c1" by (rule tame_upd_proc) simp
  moreover have "tame A N ?c1 (addtoDestroy p s c)"
    using Some by (intro tame_same) (simp_all add: addtoDestroy_def)
  ultimately show ?thesis by (rule tame_trans)
qed (simp add: addtoDestroy_def)

text \<open>Slots: their queues only shrink, or get another throttle promise.\<close>

lemma map_of_same_keys:
  "map fst st' = map fst st \<Longrightarrow> map (slot_parent \<circ> snd) st' = map (slot_parent \<circ> snd) st \<Longrightarrow>
   map_option slot_parent (map_of st' i) = map_option slot_parent (map_of st i)"
proof (induction st' arbitrary: st)
  case (Cons x xs)
  then obtain y ys where "st = y # ys" by (cases st) auto
  with Cons show ?case by (cases x; cases y) auto
qed simp

lemma tame_slots:
  assumes "map fst st = map fst (slots c)" and "map (slot_parent \<circ> snd) st = map (slot_parent \<circ> snd) (slots c)"
    and "slots_ok (slots c) \<Longrightarrow> slots_ok st \<and> (\<forall>i. slot_list (slots c) i = [] \<longrightarrow> slot_list st i = [])"
  shows "tame A N c (c\<lparr>slots := st\<rparr>)"
proof -
  have "owner (c\<lparr>slots := st\<rparr>) i = owner c i" for i
    unfolding owner_def using map_of_same_keys [OF assms(1,2)] by simp
  then show ?thesis
    using assms(3) by (auto simp: tame_def calm_def slots_calm_def heap_calm_def parents_in_def slots_inv_def ids_ok_def)
qed

lemma tame_slots_posted:
  assumes "tame A N c (c\<lparr>slots := st\<rparr>)"
  shows "tame A N c (c\<lparr>slots := st, posted := hs\<rparr>)"
  by (rule tame_trans [OF assms tame_fields(1)])

lemma finish_await_tame [tame_intros]: "slots_ok (slots c) \<Longrightarrow> keeps_tame A N c (finish_await w c)"
proof -
  assume ok: "slots_ok (slots c)"
  have "tame A N c (c\<lparr>slots := st, posted := posted c @ hs\<rparr>)"
    if "await_resume (underlying w) (slots c) = Some (vs, st, hs)" for vs st hs
  proof (rule tame_slots_posted, rule tame_slots)
    from await_resume_frame [OF ok that] show "map fst st = map fst (slots c)"
      "map (slot_parent \<circ> snd) st = map (slot_parent \<circ> snd) (slots c)"
      "slots_ok st \<and> (\<forall>i. slot_list (slots c) i = [] \<longrightarrow> slot_list st i = [])"
      by (auto simp: slots_shrunk_def) (metis suffix_bot.extremum_unique)
  qed
  then show ?thesis
    by (auto simp: finish_await_def Let_def split: option.split Awaitable.split sum.split)
qed

lemma put_promise_tame [tame_intros]:
  assumes "\<And>i q. r = ThrottleP i \<Longrightarrow> slot_queue (slots c) i = Some q \<Longrightarrow> slots_ok (slots c) \<Longrightarrow> promise_ok p"
  shows "tame A N c (put_promise r p c)"
proof (cases r)
  case (ThrottleP i)
  show ?thesis
  proof (cases "slot_queue (slots c) i")
    case (Some q)
    have "tame A N c (c\<lparr>slots := set_slot_queue i (q\<lparr>mq_promise := p\<rparr>) (slots c)\<rparr>)"
    proof (rule tame_slots)
      assume ok: "slots_ok (slots c)"
      have "mq_ok (q\<lparr>mq_promise := p\<rparr>)" using assms [OF ThrottleP Some ok] slots_okD [OF ok Some]
        by (simp add: mq_ok_def)
      moreover have "slot_list (set_slot_queue i (q\<lparr>mq_promise := p\<rparr>) (slots c)) = slot_list (slots c)"
        using slot_list_set [OF Some, of "q\<lparr>mq_promise := p\<rparr>"] Some
        by (simp add: fun_eq_iff slot_list_def mq_list_def split: option.split)
      ultimately show "slots_ok (set_slot_queue i (q\<lparr>mq_promise := p\<rparr>) (slots c))
          \<and> (\<forall>j. slot_list (slots c) j = [] \<longrightarrow> slot_list (set_slot_queue i (q\<lparr>mq_promise := p\<rparr>) (slots c)) j = [])"
        using slots_ok_set [OF ok] by simp
    qed simp_all
    then show ?thesis using ThrottleP Some by (simp add: put_promise_def)
  qed (use ThrottleP in \<open>simp add: put_promise_def\<close>)
qed (simp add: put_promise_def)

section \<open>Creating and destroying slots\<close>

lemma owner_new_slot: "owner (snd (new_slot a c)) i = (if i = next_slot c then Some a else owner c i)"
  by (simp add: owner_def new_slot_def Slot_init_def)

lemma keys_owner: "i \<in> fst ` set (slots c) \<longleftrightarrow> owner c i \<noteq> None"
  by (simp add: owner_def map_of_eq_None_iff)

lemma slots_inv_new_slot: "slots_inv c \<Longrightarrow> slots_inv (snd (new_slot a c))"
proof -
  assume inv: "slots_inv c"
  have "next_slot c \<notin> fst ` set (slots c)"
    using inv by (auto simp: keys_owner slots_inv_def ids_ok_def)
  then have "slots_ok (slots (snd (new_slot a c)))"
    using inv mq_ok_init by (auto simp: slots_inv_def slots_ok_def new_slot_def Slot_init_def)
  moreover have "ids_ok (snd (new_slot a c))"
    using inv by (auto simp: ids_ok_def owner_new_slot slots_inv_def) (auto simp: new_slot_def less_SucI)
  ultimately show ?thesis by (simp add: slots_inv_def)
qed

lemma tame_new_slot:
  assumes "a \<in> A \<or> heap c a \<noteq> None"
  shows "tame A N c (snd (new_slot a c))"
proof -
  have "slot_list (slots (snd (new_slot a c))) i = []" if "slot_list (slots c) i = []" for i
    using that by (auto simp: new_slot_def slot_list_def slot_queue_def Slot_init_def MessageQueue_init_def mq_list_def)
  then have "slots_calm c (snd (new_slot a c))"
    using slots_inv_new_slot by (auto simp: slots_calm_def owner_new_slot split: if_splits) (simp_all add: new_slot_def)
  moreover have "parents_in A c \<Longrightarrow> parents_in A (snd (new_slot a c))"
    using assms unfolding parents_in_def owner_new_slot by (simp add: new_slot_def) metis
  ultimately show ?thesis by (auto simp: tame_def calm_def heap_calm_def new_slot_def)
qed

text \<open>A sublist of the slots.\<close>

lemma map_of_filter_some: "map_of (filter Q st) i = Some s \<Longrightarrow> distinct (map fst st) \<Longrightarrow> map_of st i = Some s"
  by (metis distinct_map_filter filter_is_subset map_of_SomeD map_of_is_SomeI subsetD)

lemma slots_calm_filter:
  assumes "slots c' = filter Q (slots c)" and "next_slot c' = next_slot c" and "slots_inv c"
  shows "slots_calm c c'"
proof -
  have d: "distinct (map fst (slots c))" using assms(3) by (simp add: slots_inv_def slots_ok_def)
  have own: "owner c i = Some a" if "owner c' i = Some a" for i a
    using that map_of_filter_some [OF _ d] assms(1) by (auto simp: owner_def)
  moreover have "slot_list (slots c') i = []" if "slot_list (slots c) i = []" for i
    using that map_of_filter_some [OF _ d, of Q i] assms(1)
    by (cases "map_of (filter Q (slots c)) i") (auto simp: slot_list_def slot_queue_def)
  moreover have "slots_inv c'"
    using assms(1,2,3) own by (auto simp: slots_inv_def slots_ok_def distinct_map_filter ids_ok_def)
  ultimately show ?thesis using assms(2) by (simp add: slots_calm_def)
qed

lemma owner_filter:
  assumes "slots c' = filter Q (slots c)" and "slots_inv c" and "owner c' i = Some a"
  shows "owner c i = Some a" and "\<exists>s. Q (i, s) \<and> slot_parent s = a"
proof -
  have d: "distinct (map fst (slots c))" using assms(2) by (simp add: slots_inv_def slots_ok_def)
  obtain s where s: "map_of (filter Q (slots c)) i = Some s" "slot_parent s = a"
    using assms(1,3) by (auto simp: owner_def)
  show "owner c i = Some a" using map_of_filter_some [OF s(1) d] s(2) by (simp add: owner_def)
  show "\<exists>s. Q (i, s) \<and> slot_parent s = a" using map_of_SomeD [OF s(1)] s(2) by auto
qed

lemma tame_drop_slot: "slots_inv c \<Longrightarrow> tame A N c (drop_slot i c)"
proof (cases "map_of (slots c) i")
  case (Some s)
  assume inv: "slots_inv c"
  let ?c = "drop_slot i c"
  have st: "slots ?c = filter (\<lambda>(j, s). j \<noteq> i) (slots c)" and r: "next_slot ?c = next_slot c" "heap ?c = heap c"
      "next_addr ?c = next_addr c" "queue ?c = queue c"
    using Some by (simp_all add: drop_slot_def)
  have "parents_in A c \<Longrightarrow> parents_in A ?c"
    using owner_filter(1) [OF st inv] r(2) unfolding parents_in_def by metis
  then show ?thesis using slots_calm_filter [OF st r(1) inv] r by (auto simp: tame_def calm_def heap_calm_def)
qed (simp add: drop_slot_def)

lemma delete_process_calm:
  assumes "slots_inv c"
  shows "calm N c (delete_process a c)" and "parents_in (insert a A) c \<Longrightarrow> parents_in A (delete_process a c)"
proof -
  let ?c = "delete_process a c"
  have st: "slots ?c = filter (\<lambda>(i, s). slot_parent s \<noteq> a) (slots c)" and r: "next_slot ?c = next_slot c"
      "heap ?c = (heap c)(a := None)" "next_addr ?c = next_addr c" "queue ?c = queue c"
    by (simp_all add: delete_process_def)
  show "calm N c ?c" using slots_calm_filter [OF st r(1) assms] r by (auto simp: calm_def heap_calm_def)
  show "parents_in A ?c" if "parents_in (insert a A) c"
    using owner_filter [OF st assms] that r(2) by (fastforce simp: parents_in_def)
qed

lemma parents_in_mono: "parents_in A c \<Longrightarrow> A \<subseteq> B \<Longrightarrow> parents_in B c"
  unfolding parents_in_def by blast

lemma delete_process_tame:
  assumes "slots_inv c" and "heap c a = None"
  shows "tame A N c (delete_process a c)"
  unfolding tame_def
proof (intro conjI impI allI)
  show "calm N c (delete_process a c)" using assms(1) by (rule delete_process_calm)
  show "parents_in A (delete_process a c)" if "parents_in A c"
    using delete_process_calm(2) [OF assms(1)] parents_in_mono [OF that] by blast
  show "heap (delete_process a c) b \<noteq> None" if "heap c b \<noteq> None" for b
    using that assms(2) by (auto simp: delete_process_def)
qed

lemma tame_slots_inv: "tame A N c c' \<Longrightarrow> slots_inv c \<Longrightarrow> slots_inv c'"
  by (simp add: tame_def calm_def slots_calm_def)

section \<open>Spawning\<close>

lemma tame_keeps_inv: "slots_inv c \<Longrightarrow> keeps_tame A N c r \<Longrightarrow> keeps (\<lambda>c'. tame A N c c' \<and> slots_inv c') r"
  by (erule res_post_mono) (auto intro: tame_slots_inv)

lemma new_members_tame:
  "a \<in> A \<Longrightarrow> tame A N c (snd (new_members a ns p c))
    \<and> notifyOnDie (fst (new_members a ns p c)) = notifyOnDie p"
proof (induction ns arbitrary: p c)
  case (Cons n ns)
  obtain sid c1 where ns: "new_slot a c = (sid, c1)" by (cases "new_slot a c")
  with tame_new_slot [of a A c N] Cons.prems have "tame A N c c1" by simp
  with Cons.IH [of c1 "p\<lparr>pr_members := pr_members p @ [(n, sid)]\<rparr>"] Cons.prems ns show ?case
    by (auto intro: tame_trans)
qed simp

lemma link_all_tame:
  "res_post (\<lambda>q c'. tame A N c c' \<and> notifyOnDie q = notifyOnDie p) (tame A N c) (link_all bs p c)"
proof (induction bs arbitrary: p c)
  case (Cons b bs)
  have "res_post (\<lambda>q c'. tame A N c c' \<and> notifyOnDie q = notifyOnDie p) (tame A N c) (link_with p b c)"
    by (auto simp: link_with_def addKillOnDie_def kept_proc_def split: option.split intro!: tame_upd_proc)
  then show ?case
    unfolding link_all.simps
    by (rule res_post_bind) (auto intro!: res_post_mono [OF Cons.IH] intro: tame_trans)
qed simp

lemma construct_tame:
  assumes inv: "slots_inv c" and fresh: "heap c a = None"
  shows "res_post (\<lambda>q c'. tame {a} N c c' \<and> notifyOnDie q = notifyOnDie (Process_init args (sp_classes sp)))
    (\<lambda>c'. calm N c c' \<and> (parents_in {} c \<longrightarrow> parents_in {} c')) (construct a args sp c)"
proof -
  obtain p c1 where m: "new_members a (sp_members sp) (Process_init args (sp_classes sp)) c = (p, c1)"
    by (cases "new_members a (sp_members sp) (Process_init args (sp_classes sp)) c")
  have c1: "tame {a} N c c1" "notifyOnDie p = notifyOnDie (Process_init args (sp_classes sp))"
    using new_members_tame [of a "{a}" N c "sp_members sp" "Process_init args (sp_classes sp)"] m by simp_all
  define r where "r = res_bind (link_all (sp_links sp) p c1)
    (\<lambda>p c. case sp_throws sp of None \<Rightarrow> Ret p c | Some e \<Rightarrow> Throw e c)"
  have r: "res_post (\<lambda>q c'. tame {a} N c c' \<and> notifyOnDie q = notifyOnDie p) (tame {a} N c) r"
    unfolding r_def
    by (rule res_post_bind [OF res_post_mono [OF link_all_tame]])
      (use c1 in \<open>auto intro: tame_trans split: option.split\<close>)
  have del: "calm N c (delete_process a c2) \<and> (parents_in {} c \<longrightarrow> parents_in {} (delete_process a c2))"
    if "tame {a} N c c2" for c2
  proof -
    have "slots_inv c2" using that inv by (rule tame_slots_inv)
    with that show ?thesis
      using delete_process_calm(1) [of c2 N a] parents_in_mono [of "{}" c "{a}"] delete_process_calm(2) [of c2 a "{}"]
      by (auto simp: tame_def intro: calm_trans)
  qed
  have "construct a args sp c = (case r of Throw e c \<Rightarrow> Throw e (delete_process a c) | r \<Rightarrow> r)"
    by (simp add: construct_def m r_def Let_def)
  then show ?thesis using r del c1(2) by (cases r) auto
qed

lemma nextPid_tame: "nextPid c = Ret p c1 \<Longrightarrow> tame A N c c1"
  by (auto simp: nextPid_def Let_def split: if_splits intro!: tame_same)

lemma tame_next_addr: "tame A N c (c\<lparr>next_addr := Suc (next_addr c)\<rparr>)"
  by (auto simp: tame_def calm_def slots_calm_def heap_calm_def parents_in_def owner_def slots_inv_def ids_ok_def)

text \<open>Storing the new process makes its slots owned by the heap.\<close>

lemma add_process_calm:
  assumes "calm N c c2" and "parents_in {a} c2" and "a = next_addr c" and "next_addr c < next_addr c2"
    and "heap c2 a = None" and "lastWaiting rp = None" and "set (notifyOnDie (rp_process rp)) \<subseteq> N"
  shows "calm N c (add_process p a rp c2)" and "parents_in {} (add_process p a rp c2)"
proof -
  have "slots_calm c2 (add_process p a rp c2)"
    by (auto simp: slots_calm_def add_process_def owner_def slots_inv_def ids_ok_def)
  moreover have "heap_calm N c (add_process p a rp c2)"
    using assms(1,3-7) by (auto simp: heap_calm_def calm_def add_process_def)
  ultimately show "calm N c (add_process p a rp c2)"
    using assms(1) by (auto simp: calm_def add_process_def intro: slots_calm_trans)
  show "parents_in {} (add_process p a rp c2)"
    using assms(2) by (auto simp: parents_in_def add_process_def owner_def)
qed

lemma notify_Process_init: "set (notifyOnDie (Process_init args cls)) = set_option (notifyOnDead args)"
  by (auto simp: Process_init_def addKillOnDie_def Let_def split: option.split)

lemma construct_stored_calm:
  assumes con: "construct a args sp c1 = Ret q c2" and inv: "slots_inv c1" "parents_in {a} c1" "heap c1 a = None"
    and c: "calm N c c1" "a = next_addr c" "next_addr c < next_addr c1"
    and rp: "rp_process rp = q" "lastWaiting rp = None" and N: "set_option (notifyOnDead args) \<subseteq> N"
  shows "calm N c (queueResume p 0 (add_process p a rp c2)) \<and> parents_in {} (queueResume p 0 (add_process p a rp c2))"
proof -
  have c2: "tame {a} N c1 c2" "notifyOnDie q = notifyOnDie (Process_init args (sp_classes sp))"
    using construct_tame [OF inv(1,3), of N args sp] con by auto
  have "heap c2 a = None" using inv(3) same_table_heap(1) [of c1 c2 a] construct_table [OF inv(3), of args sp] con by simp
  moreover have "next_addr c1 \<le> next_addr c2" using c2(1) by (simp add: tame_def calm_def heap_calm_def)
  moreover have "calm N c c2" using c(1) c2(1) by (auto simp: tame_def intro: calm_trans)
  moreover have "parents_in {a} c2" using c2(1) inv(2) by (simp add: tame_def)
  moreover have "set (notifyOnDie (rp_process rp)) \<subseteq> N" using c2(2) rp(1) N by (simp add: notify_Process_init)
  ultimately have "calm N c (add_process p a rp c2)" "parents_in {} (add_process p a rp c2)"
    using add_process_calm [of N c c2 a rp p] c(2,3) rp(2) by simp_all
  moreover have "tame {} N (add_process p a rp c2) (queueResume p 0 (add_process p a rp c2))" by simp
  ultimately show ?thesis by (auto simp: tame_def intro: calm_trans)
qed

lemma spawnWith_calm:
  assumes inv: "slots_inv c" "table_ok c" "parents_in {} c" and f: "\<And>a. set_option (notifyOnDead (f a)) \<subseteq> set_option (notifyOnDead a) \<union> N"
  shows "keeps (\<lambda>c'. calm N c c' \<and> parents_in {} c' \<and> (\<forall>b. heap c b \<noteq> None \<longrightarrow> heap c' b \<noteq> None)) (spawnWith f sp c)"
proof (cases "nextPid c")
  case (Ret p c1)
  let ?args = "f (ProcessArgs_init p)"
  let ?a = "next_addr c1"
  let ?c1 = "c1\<lparr>next_addr := Suc ?a\<rparr>"
  have t: "tame A N c ?c1" for A by (rule tame_trans [OF nextPid_tame [OF Ret] tame_next_addr])
  have n: "next_addr c1 = next_addr c" "heap c1 = heap c" using Ret by (auto simp: nextPid_def Let_def split: if_splits)
  have fresh: "heap ?c1 ?a = None" using table.T_fresh [OF inv(2)] n by simp
  have inv1: "slots_inv ?c1" "parents_in {} ?c1" "parents_in {?a} ?c1"
    using tame_slots_inv [OF t inv(1)] t [of "{}"] inv(3) parents_in_mono [of "{}" ?c1 "{?a}"] by (auto simp: tame_def)
  note con = construct_tame [OF inv1(1) fresh, of N ?args sp]
  show ?thesis
  proof (cases "construct ?a ?args sp ?c1")
    case (Ret q c2)
    have st: "same_table ?c1 c2" using construct_table [OF fresh, of ?args sp] Ret by simp
    let ?rp = "\<lparr>dead = False, rp_pid = pa_pid ?args, rp_process = q, task = Some (None, [sp_start sp]),
      lastWaiting = None, resumes = 0\<rparr>"
    have "calm N c (queueResume (pa_pid ?args) 0 (add_process (pa_pid ?args) ?a ?rp c2))
        \<and> parents_in {} (queueResume (pa_pid ?args) 0 (add_process (pa_pid ?args) ?a ?rp c2))"
      by (rule construct_stored_calm [OF Ret inv1(1,3) fresh])
        (use t [of "{}"] n(1) f [of "ProcessArgs_init p"] in \<open>auto simp: tame_def ProcessArgs_init_def\<close>)
    moreover have "heap (add_process (pa_pid ?args) ?a ?rp c2) b \<noteq> None" if "heap c b \<noteq> None" for b
      using that same_table_heap(1) [OF st, of b] n(2) by (auto simp: add_process_def)
    ultimately show ?thesis using Ret \<open>nextPid c = _\<close>
      by (simp add: spawnWith_def spawnArgs_def Let_def add_process_def queueResume_def)
  next
    case (Throw e c2)
    have st: "same_table ?c1 c2" using construct_table [OF fresh, of ?args sp] Throw by simp
    from Throw con inv1(2) t [of "{}"] have "calm N c c2 \<and> parents_in {} c2" by (auto simp: tame_def intro: calm_trans)
    moreover have "heap c2 b \<noteq> None" if "heap c b \<noteq> None" for b using that same_table_heap(1) [OF st, of b] n(2) by simp
    ultimately show ?thesis using Throw \<open>nextPid c = _\<close> by (simp add: spawnWith_def spawnArgs_def Let_def)
  qed (simp_all add: \<open>nextPid c = _\<close> spawnWith_def spawnArgs_def Let_def)
next
  case (Throw e c1)
  then have "c1 = c" by (auto simp: nextPid_def Let_def split: if_splits)
  with Throw inv(3) show ?thesis by (simp add: spawnWith_def)
qed (simp_all add: spawnWith_def)

section \<open>The invariant\<close>

text \<open>
  \<open>asleep_ok X\<close>: whoever is alive and suspended (except the running process \<open>X\<close>) has no message in
  a slot of its own that it waits for. \<open>mail_ok\<close>: work items and notifications go to slots of the
  process they name, or to slots that are gone.
\<close>

definition asleep_ok :: "addr option \<Rightarrow> ('st, 'm) Context \<Rightarrow> bool" where
  "asleep_ok X c \<longleftrightarrow> (\<forall>a rp w i. heap c a = Some rp \<longrightarrow> \<not> dead rp \<longrightarrow> X \<noteq> Some a \<longrightarrow> lastWaiting rp = Some w \<longrightarrow>
     isWaiting w i \<longrightarrow> owner c i = Some a \<longrightarrow> slot_list (slots c) i = [])"

definition mail_ok :: "('st, 'm) Context \<Rightarrow> bool" where
  "mail_ok c \<longleftrightarrow> (\<forall>it\<in>set (queue c). item_to {t. addr_genuine t c} it)
     \<and> (\<forall>a rp. heap c a = Some rp \<longrightarrow> (\<forall>t\<in>set (notifyOnDie (rp_process rp)). addr_genuine t c))"

definition wake_inv :: "(addr \<times> Pid) option \<Rightarrow> ('st, 'm) Context \<Rightarrow> bool" where
  "wake_inv X c \<longleftrightarrow> table_ok c \<and> slots_inv c \<and> parents_in {} c \<and> mail_ok c \<and> asleep_ok (map_option fst X) c
     \<and> (\<forall>a p. X = Some (a, p) \<longrightarrow> (\<exists>rp. heap c a = Some rp \<and> rp_pid rp = p))"

lemma heap_below: "table_ok c \<Longrightarrow> heap c a = Some rp \<Longrightarrow> a < next_addr c"
  by (simp add: table_ok_iff owned_by_def)

lemma genuine_calm:
  assumes c: "calm N c c'" and ok: "slots_inv c" "table_ok c" "parents_in {} c'" and g: "addr_genuine t c"
  shows "addr_genuine t c'"
proof (cases "owner c' (sa_slot t)")
  case None
  have "sa_slot t < next_slot c"
    using g ok(1) by (auto simp: addr_genuine_owner slots_inv_def ids_ok_def split: option.splits)
  then show ?thesis using None c by (simp add: addr_genuine_owner calm_def slots_calm_def)
next
  case (Some a)
  have "owner c (sa_slot t) = Some a"
  proof (rule ccontr)
    assume n: "owner c (sa_slot t) \<noteq> Some a"
    have "owner c (sa_slot t) = Some a \<or> next_slot c \<le> sa_slot t"
      using c Some unfolding calm_def slots_calm_def by metis
    with n ok(1) have "owner c (sa_slot t) = None" "next_slot c \<le> sa_slot t"
      by (auto simp: slots_inv_def ids_ok_def)
    with g show False by (simp add: addr_genuine_owner)
  qed
  then obtain rp where rp: "heap c a = Some rp" "rp_pid rp = sa_pid t"
    using g by (auto simp: addr_genuine_owner)
  obtain rp' where rp': "heap c' a = Some rp'" using ok(3) Some by (auto simp: parents_in_def)
  have "heap_calm N c c'" using c by (simp add: calm_def)
  from this rp' have "rp_pid rp' = rp_pid rp"
    by (cases rule: heap_calmD) (use rp heap_below [OF ok(2) rp(1)] in \<open>auto simp: kept_proc_def\<close>)
  then show ?thesis using Some rp rp' by (simp add: addr_genuine_owner)
qed

lemma item_to_mono: "item_to N it \<Longrightarrow> N \<subseteq> N' \<Longrightarrow> item_to N' it"
  by (auto simp: item_to_def split: option.splits)

lemma mail_ok_calm:
  assumes c: "calm N c c'" and ok: "slots_inv c" "table_ok c" "parents_in {} c'" and N: "\<forall>t\<in>N. addr_genuine t c"
    and m: "mail_ok c"
  shows "mail_ok c'"
proof -
  have gen: "addr_genuine t c \<Longrightarrow> addr_genuine t c'" for t using genuine_calm [OF c ok] .
  have "item_to {t. addr_genuine t c'} it" if "it \<in> set (queue c')" for it
  proof -
    have "it \<in> set (queue c) \<or> item_to N it" using that c by (auto simp: calm_def)
    moreover have "N \<subseteq> {t. addr_genuine t c}" using N by blast
    ultimately have "item_to {t. addr_genuine t c} it"
      using m item_to_mono [of N it "{t. addr_genuine t c}"] by (auto simp: mail_ok_def)
    then show ?thesis by (rule item_to_mono) (use gen in blast)
  qed
  moreover have "addr_genuine t c'" if rp': "heap c' a = Some rp'" and t: "t \<in> set (notifyOnDie (rp_process rp'))" for a rp' t
  proof -
    have "heap_calm N c c'" using c by (simp add: calm_def)
    from this rp' have "addr_genuine t c"
      by (cases rule: heap_calmD) (use t m N in \<open>auto simp: kept_proc_def mail_ok_def\<close>)
    then show ?thesis by (rule gen)
  qed
  ultimately show ?thesis by (simp add: mail_ok_def)
qed

lemma asleep_ok_calm:
  assumes c: "calm N c c'" and ok: "slots_inv c" "table_ok c" and s: "asleep_ok X c"
  shows "asleep_ok X c'"
  unfolding asleep_ok_def
proof (intro allI impI)
  fix a rp' w i
  assume h: "heap c' a = Some rp'" "\<not> dead rp'" "X \<noteq> Some a" "lastWaiting rp' = Some w" "isWaiting w i" "owner c' i = Some a"
  have "heap_calm N c c'" using c by (simp add: calm_def)
  from this h(1) obtain rp where rp: "heap c a = Some rp" "kept_proc rp rp'"
    by (cases rule: heap_calmD) (use h(4) in auto)
  have sc: "slot_list (slots c) i = [] \<Longrightarrow> slot_list (slots c') i = []"
    and o: "owner c i = Some a \<or> next_slot c \<le> i"
    using c ok(1) h(6) by (auto simp: calm_def slots_calm_def)
  show "slot_list (slots c') i = []"
  proof (cases "owner c i = Some a")
    case True
    have "\<not> dead rp" "lastWaiting rp = Some w" using rp(2) h(2,4) by (auto simp: kept_proc_def)
    with s rp(1) h(3,5) True have "slot_list (slots c) i = []" unfolding asleep_ok_def by metis
    then show ?thesis by (rule sc)
  next
    case False
    with o ok(1) have "owner c i = None" by (auto simp: slots_inv_def ids_ok_def)
    then have "slot_list (slots c) i = []" by (simp add: owner_def slot_list_def slot_queue_def)
    then show ?thesis by (rule sc)
  qed
qed

lemma wake_calm:
  assumes w: "wake_inv X c" and c: "calm N c c'" and N: "\<forall>t\<in>N. addr_genuine t c"
    and ok: "table_ok c'" "parents_in {} c'" and run: "\<And>a p. X = Some (a, p) \<Longrightarrow> heap c' a \<noteq> None"
  shows "wake_inv X c'"
proof -
  have i: "slots_inv c" "table_ok c" "mail_ok c" "asleep_ok (map_option fst X) c" using w by (simp_all add: wake_inv_def)
  have "slots_inv c'" using c i(1) by (simp add: calm_def slots_calm_def)
  moreover have "\<exists>rp'. heap c' a = Some rp' \<and> rp_pid rp' = p" if X: "X = Some (a, p)" for a p
  proof -
    obtain rp' where rp': "heap c' a = Some rp'" using run [OF X] by auto
    obtain rp where rp: "heap c a = Some rp" "rp_pid rp = p" using w X by (auto simp: wake_inv_def)
    have "heap_calm N c c'" using c by (simp add: calm_def)
    from this rp' have "rp_pid rp' = p"
      by (cases rule: heap_calmD) (use rp heap_below [OF i(2) rp(1)] in \<open>auto simp: kept_proc_def\<close>)
    with rp' show ?thesis by simp
  qed
  ultimately show ?thesis
    using ok mail_ok_calm [OF c i(1,2) ok(2) N i(3)] asleep_ok_calm [OF c i(1,2,4)] by (simp add: wake_inv_def)
qed

lemma wake_tame:
  assumes "wake_inv X c" and "tame {} N c c'" and "\<forall>t\<in>N. addr_genuine t c" and "table_ok c'"
  shows "wake_inv X c'"
  using assms by (intro wake_calm [OF assms(1) _ assms(3,4)]) (auto simp: tame_def wake_inv_def)

lemma wake_keeps:
  assumes "wake_inv X c" and "keeps_tame {} N c r" and "\<forall>t\<in>N. addr_genuine t c" and "keeps table_ok r"
  shows "keeps (wake_inv X) r"
  using assms(2,4) wake_tame [OF assms(1) _ assms(3)] by (cases r) auto

section \<open>Every operation keeps it\<close>

lemma promise_at_ok:
  "slots_ok (slots c) \<Longrightarrow> promise_at c (ThrottleP i) = Some p \<Longrightarrow> promise_ok p"
  by (auto simp: promise_at_def mq_ok_def dest: slots_okD)

lemma promise_ok_process: "process p = Inr p' \<Longrightarrow> promise_ok p'"
  by (auto simp: process_def promise_ok_def Let_def split: option.splits)

lemma promise_ok_setContinuation: "promise_ok (fst (setContinuation h p))"
  by (auto simp: setContinuation_def set_promise_def promise_ok_def Let_def)

lemma wake_invD:
  assumes "wake_inv X c"
  shows "table_ok c" "slots_inv c" "slots_ok (slots c)" "parents_in {} c" "mail_ok c"
  using assms by (simp_all add: wake_inv_def slots_inv_def)

lemma process_last_wake: "wake_inv X c \<Longrightarrow> keeps (wake_inv X) (process_last a rp c)"
proof -
  assume w: "wake_inv X c"
  have "keeps_tame {} {} c (process_last a rp c)"
    by (auto simp: process_last_def split: option.split sum.split
        intro!: put_promise_tame promise_ok_process)
  then show ?thesis
    by (rule wake_keeps [OF w]) (auto intro: table.sched.J_process wake_invD(1) [OF w])
qed

lemma finish_await_wake: "wake_inv X c \<Longrightarrow> keeps (wake_inv X) (finish_await aw c)"
  by (rule wake_keeps [where N = "{}"])
    (auto intro: finish_await_tame table.sched.J_await dest: wake_invD)

lemma arm_future_tame: "keeps_tame {} {} c (arm_future a n r c)"
proof -
  have "tame {} {} c ((put_promise r (fst (setContinuation h p)) c)\<lparr>posted := hs\<rparr>)" for h p hs
    by (rule tame_trans [OF put_promise_tame tame_fields(1)]) (simp add: promise_ok_setContinuation)
  then show ?thesis by (auto simp: arm_future_def split: option.split prod.split) (metis fst_conv)
qed

lemma arm_wake: "wake_inv X c \<Longrightarrow> keeps (wake_inv X) (arm a w c)"
proof -
  assume w: "wake_inv X c"
  have "keeps_tame {} {} c (arm a w c)"
    using keeps_tame_trans [OF tame_fields(7) arm_future_tame] arm_future_tame
    by (auto simp: arm_def Let_def split: option.split)
  then show ?thesis
    by (rule wake_keeps [OF w]) (auto intro: table.T_arm wake_invD(1) [OF w])
qed

lemma spawnWith_wake:
  assumes w: "wake_inv X c" and f: "\<And>a. set_option (notifyOnDead (f a)) \<subseteq> set_option (notifyOnDead a) \<union> N"
    and p: "\<And>a. pa_pid (f a) = pa_pid a" and N: "\<forall>t\<in>N. addr_genuine t c"
  shows "keeps (wake_inv X) (spawnWith f sp c)"
proof -
  note i = wake_invD [OF w]
  have t: "keeps table_ok (spawnWith f sp c)" using table.T_spawnWith [OF i(1) _ p] by simp
  have c: "keeps (\<lambda>c'. calm N c c' \<and> parents_in {} c' \<and> (\<forall>b. heap c b \<noteq> None \<longrightarrow> heap c' b \<noteq> None)) (spawnWith f sp c)"
    using i(2,1,4) f by (rule spawnWith_calm)
  have run: "heap c a \<noteq> None" if "X = Some (a, p)" for a p using w that by (auto simp: wake_inv_def)
  show ?thesis
    using t c wake_calm [OF w _ N] run by (cases "spawnWith f sp c") auto
qed

lemma spawn_wake: "wake_inv X c \<Longrightarrow> keeps (wake_inv X) (spawn sp c)"
  using spawnWith_wake [of X c "\<lambda>a. a" "{}" sp] by (simp add: spawnWith_def spawn_def)

lemma addKillOnDie_at_wake: "wake_inv X c \<Longrightarrow> wake_inv X (addKillOnDie_at a b c)"
  by (rule wake_tame [where N = "{}"]) (auto intro: table_ok_frame dest: wake_invD)

lemma spawn_then_link_wake:
  assumes "wake_inv X c" and "\<And>a. set_option (notifyOnDead (f a)) \<subseteq> set_option (notifyOnDead a) \<union> N"
    and "\<And>a. pa_pid (f a) = pa_pid a" and "\<forall>t\<in>N. addr_genuine t c"
  shows "keeps (wake_inv X) (res_bind (spawnWith f sp c) (\<lambda>p c. Ret p (addKillOnDie_at this p c)))"
  by (rule res_post_bind [OF spawnWith_wake [OF assms]]) (auto intro: addKillOnDie_at_wake)

lemma link_tame:
  "tame A N c (upd_proc b (\<lambda>rp. rp\<lparr>rp_process := addKillOnDie p (rp_process rp)\<rparr>) (addKillOnDie_at a q c))"
  by (rule tame_trans [OF tame_addKillOnDie_at tame_upd_proc]) simp

lemma do_call_wake: "wake_inv X c \<Longrightarrow> keeps (wake_inv X) (do_call a r c)"
proof (cases "heap c a")
  case None
  then show ?thesis by (simp add: do_call_def)
next
  case (Some rp)
  assume w: "wake_inv X c"
  note i = wake_invD [OF w]
  have tb: "keeps table_ok (do_call a r c)" by (rule table.T_call [OF i(1)]) simp
  have bind: "keeps (wake_inv X) q \<Longrightarrow> keeps (wake_inv X) (res_bind q (\<lambda>p c. Ret (g p) c))"
    for q :: "('z, ('st, 'm) Context) res" and g :: "'z \<Rightarrow> 'm Answer"
    by (rule res_post_bind) simp_all
  have frame: "keeps_tame {} {t. addr_genuine t c} c (do_call a r c)"
    if "r \<notin> range CSpawn \<union> range CSpawnLink \<union> range (case_prod CSpawnLinkNotify)"
    using that Some tame_new_slot [of a "{}" c] tame_drop_slot [OF i(2)] link_tame
    by (cases r) (auto simp: do_call_def Let_def send_def queueKill_def canQueue_def findProc_const_def
        makeSendAddress_def link_def new_slot_def split: option.split prod.split)
  show ?thesis
  proof (cases "r \<in> range CSpawn \<union> range CSpawnLink \<union> range (case_prod CSpawnLinkNotify)")
    case False
    show ?thesis by (rule wake_keeps [OF w frame [OF False] _ tb]) simp
  next
    case True
    then consider sp where "r = CSpawn sp" | sp where "r = CSpawnLink sp" | d sp where "r = CSpawnLinkNotify d sp"
      by auto
    then show ?thesis
    proof cases
      case 1
      then show ?thesis using Some bind [OF spawn_wake [OF w]] by (simp add: do_call_def Let_def)
    next
      case 2
      have "keeps (wake_inv X) (spawnLink a (rp_pid rp) sp c)"
        unfolding spawnLink_def by (rule spawn_then_link_wake [OF w, where N = "{}"]) simp_all
      then show ?thesis using 2 Some bind by (simp add: do_call_def Let_def)
    next
      case 3
      have "keeps (wake_inv X) (spawnLinkNotify a d sp c)" if "addr_genuine d c"
        unfolding spawnLinkNotify_def by (rule spawn_then_link_wake [OF w, where N = "{d}"]) (use that in simp_all)
      then show ?thesis using 3 Some by (auto simp: do_call_def Let_def intro!: bind)
    qed
  qed
qed

text \<open>Suspending: nothing awaited is ready.\<close>

lemma not_ready_empty:
  "slots_ok st \<Longrightarrow> await_ready st pr w = Some False \<Longrightarrow> isWaiting w i \<Longrightarrow> slot_list st i = []"
proof (induction w)
  case (WaitingMessages as)
  then obtain bs where "ready_flags st as = Some bs" by (auto simp: any_ready_def)
  from ready_flags_exist [OF this] any_ready_Some [OF WaitingMessages(1)] WaitingMessages(2)
  have "\<forall>a\<in>set as. slot_list st (sa_slot a) = []" by auto
  with WaitingMessages(3) show ?case by (auto simp: list_ex_iff)
qed simp_all

lemma suspend_wake:
  assumes w: "wake_inv (Some (a, p)) c" and n: "await_ready (slots c) (promise_at c) (underlying aw) = Some False"
  shows "wake_inv None (upd_proc a (\<lambda>rp. rp\<lparr>lastWaiting := Some (underlying aw), task := t\<rparr>) c)"
proof -
  let ?c = "upd_proc a (\<lambda>rp. rp\<lparr>lastWaiting := Some (underlying aw), task := t\<rparr>) c"
  note i = wake_invD [OF w]
  have own: "owner ?c = owner c" and gen: "addr_genuine d ?c = addr_genuine d c" for d
    by (auto simp: fun_eq_iff owner_def upd_proc_def addr_genuine_def split: option.split)
  have "table_ok ?c" using i(1) by (rule table.T_upd) simp
  moreover have "slots_inv ?c" using i(2) own by (simp add: slots_inv_def ids_ok_def upd_proc_def)
  moreover have "parents_in {} ?c" using i(4) own by (auto simp: parents_in_def upd_proc_def)
  moreover have "mail_ok ?c" using i(5) by (auto simp: mail_ok_def gen) (auto simp: upd_proc_def split: if_splits)
  moreover have "asleep_ok None ?c"
    unfolding asleep_ok_def
  proof (intro allI impI)
    fix b rp w j
    assume h: "heap ?c b = Some rp" "\<not> dead rp" "None \<noteq> Some b" "lastWaiting rp = Some w" "isWaiting w j" "owner ?c j = Some b"
    show "slot_list (slots ?c) j = []"
    proof (cases "b = a")
      case True
      then have "w = underlying aw" using h(1,4) by (auto simp: upd_proc_def)
      then show ?thesis using not_ready_empty [OF i(3) n] h(5) by (simp add: upd_proc_def)
    next
      case False
      then have "heap c b = Some rp" using h(1) by (simp add: upd_proc_def)
      with False w h(2-6) own show ?thesis
        unfolding wake_inv_def asleep_ok_def by (simp add: upd_proc_def)
    qed
  qed
  ultimately show ?thesis by (simp add: wake_inv_def)
qed

lemma end_wake:
  assumes w: "wake_inv (Some (a, p)) c"
  shows "wake_inv (Some (a, p)) (upd_proc a (\<lambda>rp. rp\<lparr>lastWaiting := None, task := t\<rparr>) c)"
proof -
  let ?c = "upd_proc a (\<lambda>rp. rp\<lparr>lastWaiting := None, task := t\<rparr>) c"
  note i = wake_invD [OF w]
  have own: "owner ?c = owner c" and gen: "addr_genuine d ?c = addr_genuine d c" for d
    by (auto simp: fun_eq_iff owner_def upd_proc_def addr_genuine_def split: option.split)
  have "table_ok ?c" using i(1) by (rule table.T_upd) simp
  moreover have "slots_inv ?c" using i(2) own by (simp add: slots_inv_def ids_ok_def upd_proc_def)
  moreover have "parents_in {} ?c" using i(4) own by (auto simp: parents_in_def upd_proc_def)
  moreover have "mail_ok ?c" using i(5) by (auto simp: mail_ok_def gen) (auto simp: upd_proc_def split: if_splits)
  moreover have "asleep_ok (Some a) ?c"
    using w own by (auto simp: wake_inv_def asleep_ok_def upd_proc_def split: if_splits)
  ultimately show ?thesis using w by (auto simp: wake_inv_def upd_proc_def)
qed

lemma throw_wake:
  assumes w: "wake_inv (Some (a, p)) c"
  shows "wake_inv None (addtoDestroy p s c)"
proof -
  let ?c = "addtoDestroy p s c"
  note i = wake_invD [OF w]
  have w': "wake_inv (Some (a, p)) ?c"
    by (rule wake_tame [OF w, where N = "{}"]) (auto intro: table_ok_kill i(1))
  obtain rp where rp: "heap c a = Some rp" "rp_pid rp = p" using w by (auto simp: wake_inv_def)
  have "owned_by {} c" using i(1) by (simp add: table_ok_iff)
  then have "dead rp \<or> findProc p c = Some a" using findProc_iff [of "{}" c p a] rp by blast
  then have "dead rp'" if "heap ?c a = Some rp'" for rp'
    using that rp(1) by (auto simp: addtoDestroy_def upd_proc_def split: option.splits if_splits)
  then have "asleep_ok None ?c" using w' unfolding wake_inv_def asleep_ok_def by simp metis
  then show ?thesis using w' by (simp add: wake_inv_def)
qed

lemma destroy_wake:
  assumes w: "wake_inv None c"
  shows "wake_inv None (destroy_front c)"
proof (cases "toDestroy c")
  case Nil
  then show ?thesis using w by (simp add: destroy_front_def)
next
  case (Cons e rest)
  obtain a s where e: "e = (a, s)" by (cases e)
  note i = wake_invD [OF w]
  obtain rp where rp: "heap c a = Some rp"
    using i(1) Cons e by (fastforce simp: table_ok_iff owned_by_def)
  let ?N = "set (notifyOnDie (rp_process rp))"
  let ?c1 = "c\<lparr>toDestroy := rest\<rparr>"
  let ?c2 = "fold (\<lambda>q. addtoDestroy q s) (killOnDie (rp_process rp)) ?c1"
  let ?c3 = "fold (\<lambda>d. queueSend d (MPid (rp_pid rp))) (notifyOnDie (rp_process rp)) ?c2"
  have t1: "tame {} ?N c ?c1" by (rule tame_same) simp_all
  have t2: "tame {} ?N c' (fold (\<lambda>q. addtoDestroy q s) ps c')" for c' :: "('a, 'b) Context" and ps
    by (induction ps arbitrary: c') (auto intro: tame_trans [OF tame_addtoDestroy])
  have t3: "tame {} ?N c' (fold (\<lambda>d. queueSend d m) ds c')" if "set ds \<subseteq> ?N" for c' :: "('a, 'b) Context" and ds m
    using that by (induction ds arbitrary: c') (auto intro: tame_trans [OF tame_queueSend])
  have t: "tame {} ?N c ?c3" by (rule tame_trans [OF tame_trans [OF t1 t2] t3]) simp
  have inv3: "slots_inv ?c3" "parents_in {} ?c3" using tame_slots_inv [OF t i(2)] t i(4) by (auto simp: tame_def)
  have d: "destroy_front c = delete_process a ?c3"
    using Cons e rp by (simp add: destroy_front_def destroy_def Let_def)
  show ?thesis
  proof (rule wake_calm [OF w])
    show "calm ?N c (destroy_front c)" unfolding d
      using t delete_process_calm(1) [OF inv3(1)] by (auto simp: tame_def intro: calm_trans)
    show "\<forall>t\<in>?N. addr_genuine t c" using i(5) rp by (auto simp: mail_ok_def)
    show "table_ok (destroy_front c)" using i(1) by (rule table_ok_destroy)
    show "parents_in {} (destroy_front c)" unfolding d
      by (rule delete_process_calm(2) [OF inv3(1) parents_in_mono [OF inv3(2)]]) simp
  qed simp
qed

text \<open>A delivery: whoever waits for the slot is resumed.\<close>

lemma push_wake:
  assumes w: "wake_inv None c" and q: "queue c = item # items" and m: "ti_message item = Some (t, m)"
    and f: "findProc (ti_pid item) c = Some a" and rp: "heap c a = Some rp"
    and mq: "slot_queue (slots c) (sa_slot t) = Some mq"
  shows "wake_inv (if waitingFor rp (sa_slot t) \<and> \<not> dead rp then Some (a, rp_pid rp) else None)
    (c\<lparr>queue := items, slots := set_slot_queue (sa_slot t) (mq_push m mq) (slots c)\<rparr>)"
    (is "wake_inv ?X ?c")
proof -
  note i = wake_invD [OF w]
  have own: "owner ?c = owner c"
    using map_of_same_keys [of "set_slot_queue (sa_slot t) (mq_push m mq) (slots c)" "slots c"]
    by (simp add: owner_def fun_eq_iff)
  have gen: "addr_genuine d ?c = addr_genuine d c" for d
    by (simp add: addr_genuine_owner own split: option.split)
  have t: "ti_pid item = sa_pid t" "addr_genuine t c"
    using i(5) q m by (auto simp: mail_ok_def item_to_def)
  have o: "owned_by {} c" using i(1) by (simp add: table_ok_iff)
  have "table_ok ?c" using i(1) same_table_fields(7) by (rule table_ok_frame)
  moreover have "slots_ok (slots ?c)" using slots_ok_set [OF i(3) mq_ok_push [OF slots_okD [OF i(3) mq]]] by simp
  then have "slots_inv ?c" using i(2) own by (simp add: slots_inv_def ids_ok_def)
  moreover have "parents_in {} ?c" using i(4) own by (simp add: parents_in_def)
  moreover have "mail_ok ?c" using i(5) q by (simp add: mail_ok_def gen)
  moreover have "asleep_ok (map_option fst ?X) ?c"
    unfolding asleep_ok_def
  proof (intro allI impI)
    fix b rp' u j
    assume h: "heap ?c b = Some rp'" "\<not> dead rp'" "map_option fst ?X \<noteq> Some b" "lastWaiting rp' = Some u"
      "isWaiting u j" "owner ?c j = Some b"
    have "j \<noteq> sa_slot t"
    proof
      assume j: "j = sa_slot t"
      have "rp_pid rp' = ti_pid item" using t h(1,6) j own by (auto simp: addr_genuine_owner)
      then have "findProc (ti_pid item) c = Some b" using findProc_iff [OF o] h(1,2) by auto
      with f have "b = a" by simp
      then show False using h rp j by (auto simp: waitingFor_def)
    qed
    then have "slot_list (slots ?c) j = slot_list (slots c) j"
      by (simp add: slot_list_def slot_queue_set)
    moreover have "heap c b = Some rp'" "owner c j = Some b" using h(1,6) own by simp_all
    ultimately show "slot_list (slots ?c) j = []"
      using w h(2,4,5) unfolding wake_inv_def asleep_ok_def by simp
  qed
  ultimately show ?thesis using rp by (auto simp: wake_inv_def)
qed

lemma wake_init: "wake_inv None Context_init"
  by (simp add: wake_inv_def table_ok_init slots_inv_def ids_ok_def parents_in_def mail_ok_def asleep_ok_def
      Context_init_def owner_def slots_ok_def) (simp add: table_ok_init [unfolded Context_init_def])

lemma wake_frame:
  assumes "wake_inv X c" and "tame {} {} c c'" and "same_table c c'"
  shows "wake_inv X c'"
  using assms by (blast intro: wake_tame table_ok_frame wake_invD(1))

interpretation wake: scheduler_invariant any_spec wake_inv
proof
  fix c :: "('st, 'm) Context" and a p rp
  have enter: "wake_inv (Some (a, rp_pid rp)) c" if "wake_inv None c" "heap c a = Some rp" "\<not> dead rp" for c :: "('st, 'm) Context" and a rp
    using that by (auto simp: wake_inv_def asleep_ok_def)
  have cancel: "wake_inv X (cancel_timer a c)" if "wake_inv X c" for X and c :: "('st, 'm) Context" and a
    using that by (rule wake_frame) simp_all
  have take: "wake_inv None (c\<lparr>posted := hs @ hs'\<rparr>)" if "wake_inv None c" for c :: "('st, 'm) Context" and hs hs'
    using that by (rule wake_frame) simp_all
  show "wake_inv None c \<Longrightarrow> heap c a = Some rp \<Longrightarrow> \<not> dead rp \<Longrightarrow> wake_inv (Some (a, rp_pid rp)) (cancel_timer a c)"
    by (rule cancel [OF enter])
  show "wake_inv None c \<Longrightarrow> heap c a = Some rp \<Longrightarrow> \<not> dead rp \<Longrightarrow>
      wake_inv (Some (a, rp_pid rp)) (cancel_timer a (c\<lparr>posted := hs @ hs'\<rparr>))" for hs hs'
    by (rule cancel [OF enter [OF take]]) simp_all
  show "wake_inv None c \<Longrightarrow> wake_inv None (c\<lparr>posted := hs @ hs'\<rparr>)" for hs hs' by (rule take)
  show "wake_inv (Some (a, p)) c \<Longrightarrow> wake_inv (Some (a, p)) (upd_proc a (\<lambda>rp. rp\<lparr>resumes := resumes rp + 1\<rparr>) c)"
    by (erule wake_frame) (auto intro!: tame_upd_proc same_table_upd_proc)
  show "wake_inv (Some (a, p)) c \<Longrightarrow>
      wake_inv None (addtoDestroy p s (upd_proc a (\<lambda>rp. rp\<lparr>lastWaiting := None, task := None\<rparr>) c))" for s
    by (blast intro: throw_wake end_wake)
  show "wake_inv None c \<Longrightarrow> (b, t) \<in> set (waits c) \<Longrightarrow>
      wake_inv None (c\<lparr>waits := remove1 (b, t) (waits c), posted := posted c @ [TimerFired b]\<rparr>)" for b t
    by (erule wake_frame) simp_all
  show "wake_inv None c \<Longrightarrow> wake_inv None ((put_promise (UserP k) q' c)\<lparr>posted := posted c @ hs\<rparr>)" for k q' hs
    by (erule wake_frame, rule tame_trans [OF put_promise_tame tame_fields(1)]) simp_all
  show "wake_inv None c \<Longrightarrow> queue c = item # items \<Longrightarrow> wake_inv None (c\<lparr>queue := items\<rparr>)" for item items
    by (erule wake_frame) simp_all
  show "wake_inv None (Context_init :: ('st, 'm) Context)" by (rule wake_init)
  note push = push_wake [where a = a and rp = rp and c = c]
  show "wake_inv None (c\<lparr>queue := items, slots := set_slot_queue (sa_slot t) (mq_push m mq) (slots c)\<rparr>)"
    if "wake_inv None c" "queue c = item # items" "ti_message item = Some (t, m)" "findProc (ti_pid item) c = Some a"
      "heap c a = Some rp" "slot_queue (slots c) (sa_slot t) = Some mq" "\<not> (waitingFor rp (sa_slot t) \<and> \<not> dead rp)"
    for item items t m mq
    using push [OF that(1-6)] that(7) by (simp split: if_splits)
  show "wake_inv (Some (a, rp_pid rp)) (cancel_timer a (c\<lparr>queue := items, slots := set_slot_queue (sa_slot t) (mq_push m mq) (slots c)\<rparr>))"
    if "wake_inv None c" "queue c = item # items" "ti_message item = Some (t, m)" "findProc (ti_pid item) c = Some a"
      "heap c a = Some rp" "slot_queue (slots c) (sa_slot t) = Some mq" "waitingFor rp (sa_slot t)" "\<not> dead rp"
    for item items t m mq
    using push [OF that(1-6)] that(7,8) by (intro cancel) simp
  show "wake_inv (Some (a, p)) c \<Longrightarrow> await_ready (slots c) (promise_at c) (underlying aw) = Some False \<Longrightarrow>
      keeps (wake_inv None) (arm a (underlying aw)
        (upd_proc a (\<lambda>rp. rp\<lparr>lastWaiting := Some (underlying aw), task := Some (Some aw, fs)\<rparr>) c))" for aw fs
    by (rule arm_wake [OF suspend_wake])
qed (auto intro: process_last_wake do_call_wake finish_await_wake throw_wake spawn_wake destroy_wake)

section \<open>No lost wake-up\<close>

text \<open>C1: No wake-up is lost: in every reachable state of every program, a process that is alive and
  suspended on a receive has no message in any of its own slots that it waits for.\<close>

theorem no_lost_wakeup:
  assumes "reachable any_spec P c" and "heap c a = Some rp" and "\<not> dead rp" and "lastWaiting rp = Some w"
    and "isWaiting w i" and "map_of (slots c) i = Some s" and "slot_parent s = a"
  shows "mq_empty (messages s)"
proof -
  have w: "wake_inv None c" by (rule wake.reachable_keeps [OF assms(1)]) simp
  have "owner c i = Some a" using assms(6,7) by (simp add: owner_def)
  then have "slot_list (slots c) i = []"
    using w assms(2-5) unfolding wake_inv_def asleep_ok_def by simp
  moreover have "slot_queue (slots c) i = Some (messages s)" using assms(6) by (simp add: slot_queue_def)
  ultimately show ?thesis
    using slots_okD [OF wake_invD(3) [OF w]] by (simp add: slot_list_def mq_empty_list)
qed

text \<open>A process that waits for a message in its member slot: after one round it is suspended on it.\<close>

definition recv_prog :: "(nat, nat) program" where
  "recv_prog st v = CoAwait (recv \<lparr>sa_pid = demo_pid, sa_slot = 0\<rparr>) (UserFrame 1)"

definition recv_spec :: "(nat, nat) SpawnSpec" where
  "recv_spec = demo_spec\<lparr>sp_members := [''in'']\<rparr>"

definition recv_rp :: "(nat, nat) RunningProcess" where
  "recv_rp = demo_rp\<lparr>rp_process := (rp_process demo_rp)\<lparr>pr_members := [(''in'', 0)]\<rparr>\<rparr>"

definition recv_c1 :: "(nat, nat) Context" where
  "recv_c1 = demo_c1\<lparr>heap := (\<lambda>_. None)(0 \<mapsto> recv_rp), slots := [(0, Slot_init 0)], next_slot := 1\<rparr>"

definition recv_c2 :: "(nat, nat) Context" where
  "recv_c2 = recv_c1\<lparr>queue := [], heap := (\<lambda>_. None)(0 \<mapsto> recv_rp\<lparr>resumes := 1,
     lastWaiting := Some (WaitingMessages [\<lparr>sa_pid = demo_pid, sa_slot = 0\<rparr>]),
     task := Some (Some (recv \<lparr>sa_pid = demo_pid, sa_slot = 0\<rparr>), [UserFrame 1])\<rparr>)\<rparr>"

lemma recv_spawn: "spawn recv_spec Context_init = Ret demo_pid recv_c1"
  by (simp add: spawn_def nextPid_def Context_init_def vector_max_size_def spawnArgs_def construct_def
      recv_spec_def demo_spec_def ProcessArgs_init_def Process_init_def demo_pid_def recv_c1_def demo_c1_def recv_rp_def
      demo_rp_def queueResume_def Let_def new_slot_def)

lemma recv_item:
  "processQueueItem 1 recv_prog \<lparr>ti_pid = demo_pid, ti_resume = Some 0, ti_message = None\<rparr>
     (recv_c1\<lparr>queue := []\<rparr>) = Ret () recv_c2"
  by (simp add: processQueueItem_def findProc_def recv_c1_def recv_c2_def demo_c1_def demo_pid_def recv_rp_def demo_rp_def
      resume_def run_task_def process_last_def task_resume_def recv_prog_def recv_def upd_proc_def cancel_timer_def
      any_ready_def slot_queue_def Slot_init_def mq_empty_def mq_size_def MessageQueue_init_def arm_def
      Context_init_def Let_def)

lemma recv_reachable: "reachable any_spec recv_prog recv_c2"
proof -
  have "reachable any_spec recv_prog recv_c1" by (rule reachable.spawned [OF reachable.fresh _ recv_spawn]) simp
  moreover have "run_step any_spec recv_prog recv_c1 (destroy_all recv_c2)"
    by (rule run_step.item [OF _ _ recv_item]) (simp_all add: recv_c1_def demo_c1_def run_again_def Context_init_def)
  moreover have "destroy_all recv_c2 = recv_c2"
    by (subst destroy_all.simps) (simp add: recv_c2_def recv_c1_def demo_c1_def Context_init_def)
  ultimately show ?thesis by (metis reachable.stepped)
qed

theorem no_lost_wakeup_witness:
  "\<exists>rp w s. heap recv_c2 0 = Some rp \<and> lastWaiting rp = Some w \<and> isWaiting w 0
     \<and> map_of (slots recv_c2) 0 = Some s \<and> mq_empty (messages s)"
proof -
  let ?w = "WaitingMessages [\<lparr>sa_pid = demo_pid, sa_slot = 0\<rparr>]"
  have f: "\<exists>rp. heap recv_c2 0 = Some rp \<and> \<not> dead rp \<and> lastWaiting rp = Some ?w"
    by (simp add: recv_c2_def recv_rp_def demo_rp_def)
  have s: "map_of (slots recv_c2) 0 = Some (Slot_init 0)" by (simp add: recv_c2_def recv_c1_def)
  have "mq_empty (messages (Slot_init 0 :: (nat Message, handler) Slot))"
    using no_lost_wakeup [OF recv_reachable _ _ _ _ s, of 0 _ ?w] f by (auto simp: Slot_init_def)
  with f s show ?thesis by fastforce
qed

end
