(* ===== verification/Timers.thy ===== *)
theory Timers
  imports Wakeup
begin

text \<open>
  Timer handlers capture the address of the process object. The comment in \<open>Context::run\<close> says why
  this is safe: the io service is polled until it has no handler left before anything is destroyed.
  Here this is proved: no timer wait and no pending timer handler ever refers to a process object
  that is gone.
\<close>

section \<open>Continuations are never timer handlers\<close>

definition wake_only :: "handler EslangPromise \<Rightarrow> bool" where
  "wake_only p \<longleftrightarrow> (\<forall>a. exec p \<noteq> Some (TimerFired a))"

definition no_timer :: "handler list \<Rightarrow> bool" where
  "no_timer hs \<longleftrightarrow> (\<forall>a. TimerFired a \<notin> set hs)"

definition slots_wake :: "('m, handler) slots \<Rightarrow> bool" where
  "slots_wake st \<longleftrightarrow> (\<forall>(i, s)\<in>set st. wake_only (mq_promise (messages s)))"

definition conts_ok :: "('st, 'm) Context \<Rightarrow> bool" where
  "conts_ok c \<longleftrightarrow> slots_wake (slots c) \<and> (\<forall>(i, b, p)\<in>set (promises c). wake_only p)"

lemma no_timer_simps [simp]: "no_timer []" "no_timer (hs @ hs') \<longleftrightarrow> no_timer hs \<and> no_timer hs'"
  by (auto simp: no_timer_def)

lemma wake_only_init [simp]: "wake_only EslangPromise_init"
  by (simp add: wake_only_def EslangPromise_init_def)

lemma wake_only_setIfUnset:
  "wake_only p \<Longrightarrow> wake_only (fst (setIfUnset p)) \<and> no_timer (snd (setIfUnset p))"
  by (auto simp: wake_only_def setIfUnset_def set_promise_def no_timer_def Let_def split: option.split)

lemma wake_only_setException:
  "wake_only p \<Longrightarrow> wake_only (fst (setException e p)) \<and> no_timer (snd (setException e p))"
  unfolding setException_def by (rule wake_only_setIfUnset) (simp add: wake_only_def)

lemma wake_only_setContinuation:
  "wake_only (fst (setContinuation (WakeFuture a n) p)) \<and> no_timer (snd (setContinuation (WakeFuture a n) p))"
  by (auto simp: wake_only_def setContinuation_def set_promise_def no_timer_def Let_def)

lemma wake_only_process: "process p = Inr p' \<Longrightarrow> wake_only p \<Longrightarrow> wake_only p'"
  by (auto simp: wake_only_def process_def Let_def split: option.splits if_splits)

lemma wake_only_pop:
  assumes "mq_pop q = Some (m, q', hs)" and "wake_only (mq_promise q)"
  shows "wake_only (mq_promise q') \<and> no_timer hs"
  using assms wake_only_setIfUnset [OF assms(2)]
  by (auto simp: mq_pop_def Let_def split: option.splits list.splits if_splits prod.splits)

lemma slots_wake_queue: "slots_wake st \<Longrightarrow> slot_queue st i = Some q \<Longrightarrow> wake_only (mq_promise q)"
  by (auto simp: slots_wake_def slot_queue_def dest!: map_of_SomeD)

lemma slots_wake_set: "slots_wake st \<Longrightarrow> wake_only (mq_promise q) \<Longrightarrow> slots_wake (set_slot_queue i q st)"
  by (auto simp: slots_wake_def set_slot_queue_def split: if_splits)

lemma get_optional_wake:
  "slots_wake st \<Longrightarrow> get_optional i st = Some (v, st', hs) \<Longrightarrow> slots_wake st' \<and> no_timer hs"
  by (auto simp: get_optional_def split: option.splits if_splits
      dest: wake_only_pop slots_wake_queue intro!: slots_wake_set)

lemma get_vals_wake:
  "slots_wake st \<Longrightarrow> get_vals as st = Some (vs, st', hs) \<Longrightarrow> slots_wake st' \<and> no_timer hs"
proof (induction as arbitrary: st vs hs)
  case (Cons a as)
  from Cons.prems(2) obtain v st1 h1 vs1 h2 where g: "get_optional (sa_slot a) st = Some (v, st1, h1)"
    and r: "get_vals as st1 = Some (vs1, st', h2)" and hs: "hs = h1 @ h2"
    by (auto split: option.splits)
  note w = get_optional_wake [OF Cons.prems(1) g]
  from Cons.IH [OF conjunct1 [OF w] r] w hs show ?case by simp
qed simp

lemma await_resume_wake:
  "slots_wake st \<Longrightarrow> await_resume w st = Some (vs, st', hs) \<Longrightarrow> slots_wake st' \<and> no_timer hs"
  by (induction w) (auto dest: get_vals_wake)

section \<open>Operations that start no timer and destroy nothing\<close>

definition timer_frame :: "('st, 'm) Context \<Rightarrow> ('st, 'm) Context \<Rightarrow> bool" where
  "timer_frame c c' \<longleftrightarrow> (\<forall>a. heap c a \<noteq> None \<longrightarrow> heap c' a \<noteq> None) \<and> set (waits c') \<subseteq> set (waits c)
     \<and> (conts_ok c \<longrightarrow> conts_ok c' \<and> (\<forall>a. TimerFired a \<in> set (posted c') \<longrightarrow> TimerFired a \<in> set (posted c)))"

abbreviation keeps_timers :: "('st, 'm) Context \<Rightarrow> ('a, ('st, 'm) Context) res \<Rightarrow> bool" where
  "keeps_timers c \<equiv> keeps (timer_frame c)"

lemma timer_frame_refl [simp]: "timer_frame c c"
  by (simp add: timer_frame_def)

lemma timer_frame_trans: "timer_frame a b \<Longrightarrow> timer_frame b c \<Longrightarrow> timer_frame a c"
  unfolding timer_frame_def by blast

lemma keeps_timers_trans:
  assumes "timer_frame c c1" and "keeps_timers c1 r"
  shows "keeps_timers c r"
  using assms(2) by (rule res_post_mono) (auto intro: timer_frame_trans [OF assms(1)])

text \<open>Only slots, promises, handlers, waits and the heap matter.\<close>

lemma timer_frame_same:
  assumes "heap c' = heap c" "waits c' = waits c" "posted c' = posted c" "slots c' = slots c" "promises c' = promises c"
  shows "timer_frame c c'"
  using assms by (simp add: timer_frame_def conts_ok_def)

lemma timer_frame_fields [simp]:
  "timer_frame c (queueSend t m c)" "timer_frame c (queueResume p n c)" "timer_frame c (cancel_timer a c)"
  "timer_frame c (c\<lparr>queue := q\<rparr>)" "timer_frame c (c\<lparr>toDestroy := ds\<rparr>)" "timer_frame c (c\<lparr>next_addr := k\<rparr>)"
  "timer_frame c (c\<lparr>promises := (j, a, EslangPromise_init) # promises c, next_promise := k\<rparr>)"
  by (auto simp: timer_frame_def conts_ok_def queueSend_def queueResume_def cancel_timer_def)

lemma timer_frame_upd_proc [simp]: "timer_frame c (upd_proc a f c)"
  by (simp add: timer_frame_def conts_ok_def upd_proc_def)

lemma timer_frame_addKillOnDie_at [simp]: "timer_frame c (addKillOnDie_at a b c)"
  by (simp add: addKillOnDie_at_def)

lemma timer_frame_addtoDestroy [simp]: "timer_frame c (addtoDestroy p s c)"
  by (simp add: timer_frame_def conts_ok_def addtoDestroy_def upd_proc_def split: option.split)

lemma timer_frame_new_slot [simp]: "timer_frame c (snd (new_slot a c))"
  by (auto simp: timer_frame_def conts_ok_def slots_wake_def new_slot_def Slot_init_def MessageQueue_init_def)

lemma timer_frame_slots:
  assumes "conts_ok c \<Longrightarrow> slots_wake st \<and> no_timer hs"
  shows "timer_frame c (c\<lparr>slots := st, posted := posted c @ hs\<rparr>)"
  using assms by (auto simp: timer_frame_def conts_ok_def no_timer_def)

lemma timer_frame_put_promise:
  assumes "conts_ok c \<Longrightarrow> wake_only p \<and> no_timer hs"
  shows "timer_frame c ((put_promise r p c)\<lparr>posted := posted c @ hs\<rparr>)"
proof (cases r)
  case (ThrottleP i)
  have "slots_wake (set_slot_queue i (q\<lparr>mq_promise := p\<rparr>) (slots c))" if "conts_ok c" for q
    using that assms [OF that] by (auto simp: conts_ok_def intro: slots_wake_set)
  then show ?thesis
    using ThrottleP assms by (auto simp: put_promise_def timer_frame_def conts_ok_def no_timer_def split: option.split)
next
  case (UserP n)
  then show ?thesis
    using assms by (auto simp: put_promise_def timer_frame_def conts_ok_def no_timer_def split: if_splits)
qed

lemma put_promise_posted: "(put_promise r p c)\<lparr>posted := posted c\<rparr> = put_promise r p c"
  by (simp add: put_promise_def split: promise_ref.split option.split)

lemma promise_at_wake: "conts_ok c \<Longrightarrow> promise_at c r = Some p \<Longrightarrow> wake_only p"
  by (auto simp: promise_at_def conts_ok_def split: promise_ref.splits dest: slots_wake_queue dest!: map_of_SomeD)

lemma finish_await_timers: "keeps_timers c (finish_await w c)"
proof -
  have "timer_frame c (c\<lparr>slots := st, posted := posted c @ hs\<rparr>)"
    if "await_resume (underlying w) (slots c) = Some (vs, st, hs)" for vs st hs
    using await_resume_wake [OF _ that] by (intro timer_frame_slots) (simp add: conts_ok_def)
  then show ?thesis
    by (auto simp: finish_await_def Let_def split: option.split Awaitable.split sum.split)
qed

lemma process_last_timers: "keeps_timers c (process_last a rp c)"
proof -
  have "timer_frame c (put_promise r p' c)" if "promise_at c r = Some p" "process p = Inr p'" for r p p'
    using timer_frame_put_promise [of c p' "[]" r] promise_at_wake [OF _ that(1)] wake_only_process [OF that(2)]
    by (simp add: put_promise_posted)
  then show ?thesis by (simp add: process_last_def split: option.split sum.split)
qed

lemma signal_timers:
  assumes "promise_at c r = Some p" and "(p', hs) = setIfUnset p \<or> (p', hs) = setException e p"
  shows "timer_frame c ((put_promise r p' c)\<lparr>posted := posted c @ hs\<rparr>)"
  by (rule timer_frame_put_promise)
    (use assms promise_at_wake [OF _ assms(1)] wake_only_setIfUnset [of p] wake_only_setException [of p e] in
      \<open>auto dest: sym\<close>)

lemma arm_future_timers: "keeps_timers c (arm_future a n r c)"
proof -
  have "timer_frame c ((put_promise r p' c)\<lparr>posted := posted c @ hs\<rparr>)"
    if "setContinuation (WakeFuture a n) p = (p', hs)" for p p' hs
    using wake_only_setContinuation [of a n p] that by (intro timer_frame_put_promise) simp
  then show ?thesis by (simp add: arm_future_def split: option.split prod.split)
qed

lemma timer_frame_drop_slot [simp]: "timer_frame c (drop_slot i c)"
proof (cases "map_of (slots c) i")
  case (Some s)
  have "no_timer (mq_destroy (messages s))" if "conts_ok c"
    using that Some wake_only_setIfUnset slots_wake_queue [of "slots c" i "messages s"]
    by (auto simp: conts_ok_def mq_destroy_def slot_queue_def)
  with Some show ?thesis
    by (auto simp: drop_slot_def timer_frame_def conts_ok_def slots_wake_def no_timer_def)
qed (simp add: drop_slot_def)

lemma destroyed_queues_no_timer:
  "slots_wake st \<Longrightarrow> no_timer (concat (map (\<lambda>(i, s). mq_destroy (messages s)) (owned_slots a st)))"
  using wake_only_setIfUnset by (fastforce simp: no_timer_def owned_slots_def mq_destroy_def slots_wake_def)

lemma delete_process_frame:
  "conts_ok c \<Longrightarrow> conts_ok (delete_process a c)"
  "conts_ok c \<Longrightarrow> TimerFired b \<in> set (posted (delete_process a c)) \<Longrightarrow> TimerFired b \<in> set (posted c)"
  using destroyed_queues_no_timer [of "slots c" a]
  by (auto simp: conts_ok_def delete_process_def slots_wake_def no_timer_def)

lemma delete_process_timers: "heap c a = None \<Longrightarrow> timer_frame c (delete_process a c)"
  using delete_process_frame [of c] by (auto simp: timer_frame_def) (auto simp: delete_process_def split: if_splits)

lemma new_members_timers: "timer_frame c (snd (new_members a ns p c))"
proof (induction ns arbitrary: p c)
  case (Cons n ns)
  obtain sid c1 where ns: "new_slot a c = (sid, c1)" by (cases "new_slot a c")
  with timer_frame_new_slot [of c a] have "timer_frame c c1" by simp
  with Cons.IH [of c1 "p\<lparr>pr_members := pr_members p @ [(n, sid)]\<rparr>"] ns show ?case
    by (auto intro: timer_frame_trans)
qed simp

lemma link_all_timers: "keeps_timers c (link_all bs p c)"
proof (induction bs arbitrary: p c)
  case (Cons b bs)
  have "keeps_timers c (link_with p b c)" by (simp add: link_with_def split: option.split)
  then show ?case
    unfolding link_all.simps by (rule res_post_bind) (auto intro: keeps_timers_trans Cons.IH)
qed simp

text \<open>The parts of a construction; the new object is not stored yet, so destroying it after an exception
  does not touch the heap.\<close>

lemma construct_parts:
  assumes "heap c a = None"
  obtains p c1 r where "new_members a (sp_members sp) (Process_init args (sp_classes sp)) c = (p, c1)"
    and "r = res_bind (link_all (sp_links sp) p c1) (\<lambda>p c. case sp_throws sp of None \<Rightarrow> Ret p c | Some e \<Rightarrow> Throw e c)"
    and "construct a args sp c = (case r of Throw e c \<Rightarrow> Throw e (delete_process a c) | r \<Rightarrow> r)"
    and "keeps (\<lambda>c'. heap c' a = None) r"
proof -
  obtain p c1 where m: "new_members a (sp_members sp) (Process_init args (sp_classes sp)) c = (p, c1)"
    by (cases "new_members a (sp_members sp) (Process_init args (sp_classes sp)) c")
  have "same_table c c1"
    using new_members_table [of c a "sp_members sp" "Process_init args (sp_classes sp)"] m by simp
  then have "heap c1 a = None" using assms same_table_heap(1) by blast
  then have "keeps (\<lambda>c'. heap c' a = None) (link_all (sp_links sp) p c1)"
    using same_table_heap(1) by (intro res_post_mono [OF link_all_table]) blast+
  then have "keeps (\<lambda>c'. heap c' a = None)
      (res_bind (link_all (sp_links sp) p c1) (\<lambda>p c. case sp_throws sp of None \<Rightarrow> Ret p c | Some e \<Rightarrow> Throw e c))"
    by (rule res_post_bind) (auto split: option.split)
  then show thesis using that m by (simp add: construct_def Let_def)
qed

lemma construct_timers:
  assumes "heap c a = None"
  shows "keeps_timers c (construct a args sp c)"
  using assms
proof (rule construct_parts [where args = args and sp = sp])
  fix p c1 r
  assume m: "new_members a (sp_members sp) (Process_init args (sp_classes sp)) c = (p, c1)"
    and r: "r = res_bind (link_all (sp_links sp) p c1) (\<lambda>p c. case sp_throws sp of None \<Rightarrow> Ret p c | Some e \<Rightarrow> Throw e c)"
    and c: "construct a args sp c = (case r of Throw e c \<Rightarrow> Throw e (delete_process a c) | r \<Rightarrow> r)"
    and h: "keeps (\<lambda>c'. heap c' a = None) r"
  have c1: "timer_frame c c1"
    using new_members_timers [of c a "sp_members sp" "Process_init args (sp_classes sp)"] m by simp
  have "keeps_timers c r"
    unfolding r by (rule res_post_bind [OF keeps_timers_trans [OF c1 link_all_timers]]) (auto split: option.split)
  then show ?thesis using c h by (cases r) (auto intro: timer_frame_trans delete_process_timers)
qed

lemma timer_frame_add_process: "timer_frame c (add_process p a rp c)"
  by (simp add: timer_frame_def conts_ok_def add_process_def)

lemma spawnWith_timers:
  assumes "table_ok c"
  shows "keeps_timers c (spawnWith f sp c)"
proof (cases "nextPid c")
  case (Ret p c1)
  let ?a = "next_addr c1"
  let ?c1 = "c1\<lparr>next_addr := Suc ?a\<rparr>"
  have n: "next_addr c1 = next_addr c" "heap c1 = heap c" and t: "timer_frame c c1"
    using Ret by (auto simp: nextPid_def Let_def split: if_splits intro!: timer_frame_same)
  have "keeps_timers ?c1 (construct ?a (f (ProcessArgs_init p)) sp ?c1)"
    by (rule construct_timers) (use table.T_fresh [OF assms] n in simp)
  then have "keeps_timers c (construct ?a (f (ProcessArgs_init p)) sp ?c1)"
    by (rule keeps_timers_trans [rotated]) (rule timer_frame_trans [OF t timer_frame_fields(6)])
  then have "keeps_timers c (spawnArgs (f (ProcessArgs_init p)) sp c1)"
    unfolding spawnArgs_def Let_def Suc_eq_plus1 [symmetric]
    by (rule res_post_bind)
      (simp_all add: add_process_def [symmetric]
        timer_frame_trans [OF timer_frame_trans [OF _ timer_frame_add_process] timer_frame_fields(2)])
  then show ?thesis using Ret by (simp add: spawnWith_def)
next
  case (Throw e c1)
  then have "c1 = c" by (auto simp: nextPid_def Let_def split: if_splits)
  with Throw show ?thesis by (simp add: spawnWith_def)
qed (simp_all add: spawnWith_def)

lemma do_call_timers:
  fixes c :: "('st, 'm) Context"
  assumes "table_ok c"
  shows "keeps_timers c (do_call a r c)"
proof (cases "heap c a")
  case (Some rp)
  have bind: "keeps_timers c q \<Longrightarrow> keeps_timers c (res_bind q (\<lambda>p c. Ret (g p) c))"
    for q :: "('z, ('st, 'm) Context) res" and g :: "'z \<Rightarrow> 'm Answer"
    by (rule res_post_bind) simp_all
  have sp: "keeps_timers c (res_bind (spawnWith f sp c) (\<lambda>p c. Ret p (addKillOnDie_at a p c)))" for f sp
    by (rule res_post_bind [OF spawnWith_timers [OF assms]]) (auto intro: timer_frame_trans)
  have spawn: "keeps_timers c (spawn sp c)" for sp
    using spawnWith_timers [OF assms, of "\<lambda>a. a" sp] by (simp add: spawnWith_def spawn_def)
  have link: "keeps_timers c (link a q b c)" for q b
    by (simp add: link_def timer_frame_trans [OF timer_frame_addKillOnDie_at timer_frame_upd_proc] split: option.split)
  have read: "keeps_timers c (canQueue t c)" "keeps_timers c (makeSendAddress q cls slot c)" for t q cls slot
    by (simp_all add: canQueue_def findProc_const_def makeSendAddress_def split: option.split)
  have "snd (new_slot a c) = c\<lparr>slots := (next_slot c, Slot_init a) # slots c, next_slot := next_slot c + 1\<rparr>"
    by (simp add: new_slot_def)
  then show ?thesis
    using Some bind [OF sp] bind [OF spawn] bind [OF link] bind [OF read(1)] bind [OF read(2)] timer_frame_new_slot [of c a]
    by (cases r) (auto simp: do_call_def Let_def send_def new_slot_def queueKill_def spawnLink_def spawnLinkNotify_def
        split: option.split prod.split)
qed (simp add: do_call_def)

section \<open>Timer handlers are safe\<close>

text \<open>
  \<open>timer_inv b\<close>: timer waits belong to process objects that exist, continuations are no timer handlers,
  and timer handlers are pending only while the io service runs (\<open>b\<close>) and for objects that exist.
\<close>

definition timer_inv :: "bool \<Rightarrow> ('st, 'm) Context \<Rightarrow> bool" where
  "timer_inv b c \<longleftrightarrow> table_ok c \<and> conts_ok c \<and> (\<forall>(a, t)\<in>set (waits c). heap c a \<noteq> None)
     \<and> (\<forall>a. TimerFired a \<in> set (posted c) \<longrightarrow> b \<and> heap c a \<noteq> None)"

lemma timer_inv_frame: "timer_inv b c \<Longrightarrow> timer_frame c c' \<Longrightarrow> table_ok c' \<Longrightarrow> timer_inv b c'"
  unfolding timer_inv_def timer_frame_def by (fastforce simp del: not_None_eq)

lemma timer_inv_keeps: "timer_inv b c \<Longrightarrow> keeps_timers c r \<Longrightarrow> keeps table_ok r \<Longrightarrow> keeps (timer_inv b) r"
  by (cases r) (auto intro: timer_inv_frame)

lemma timer_inv_table: "timer_inv b c \<Longrightarrow> table_ok c"
  by (simp add: timer_inv_def)

lemma start_timer_inv: "timer_inv b c \<Longrightarrow> heap c a \<noteq> None \<Longrightarrow> timer_inv b (start_timer a t c)"
  by (auto simp: timer_inv_def conts_ok_def start_timer_def cancel_timer_def
      intro: table_ok_frame [OF _ same_table_fields(3)])

lemma arm_timers: "timer_inv b c \<Longrightarrow> keeps (timer_inv b) (arm a w c)"
proof -
  assume inv: "timer_inv b c"
  have fut: "keeps (timer_inv b) (arm_future a n r c')" if "timer_inv b c'" for n r c'
    using that by (intro timer_inv_keeps [OF that arm_future_timers])
      (auto intro: table.T_keeps [OF _ arm_future_table] dest: timer_inv_table)
  have "timer_inv b (queueResume p n c)" for p n
    using inv by (rule timer_inv_frame) (auto intro: table_ok_frame timer_inv_table [OF inv])
  then show ?thesis
    using inv fut start_timer_inv [OF inv, of a] by (auto simp: arm_def Let_def split: option.split intro!: fut)
qed

lemma timer_inv_cancel: "timer_inv b c \<Longrightarrow> timer_inv b (cancel_timer a c)"
  by (rule timer_inv_frame) (auto intro: table_ok_frame dest: timer_inv_table)

lemma timers_code: "code_preserved any_spec (\<lambda>_. timer_inv b)"
proof
  fix c :: "('st, 'm) Context" and a p rp
  assume inv: "timer_inv b c"
  note t = timer_inv_table [OF inv]
  show "timer_inv b (cancel_timer a c)" by (rule timer_inv_cancel [OF inv])
  show "keeps (timer_inv b) (process_last a rp c)"
    by (rule timer_inv_keeps [OF inv process_last_timers table.sched.J_process [OF t]])
  show "timer_inv b (upd_proc a (\<lambda>rp. rp\<lparr>resumes := resumes rp + 1\<rparr>) c)"
    using inv by (rule timer_inv_frame) (auto intro!: table.T_upd t)
  show "keeps (timer_inv b) (do_call a r c)" for r
    by (rule timer_inv_keeps [OF inv do_call_timers [OF t] table.T_call [OF t]]) simp
  show "keeps (timer_inv b) (finish_await aw c)" for aw
    by (rule timer_inv_keeps [OF inv finish_await_timers table.sched.J_await [OF t]])
  show "keeps (timer_inv b) (arm a (underlying aw)
      (upd_proc a (\<lambda>rp. rp\<lparr>lastWaiting := Some (underlying aw), task := Some (Some aw, fs)\<rparr>) c))" for aw fs
    by (rule arm_timers, rule timer_inv_frame [OF inv]) (auto intro!: table.T_upd t)
  show "timer_inv b (addtoDestroy p s (upd_proc a (\<lambda>rp. rp\<lparr>lastWaiting := None, task := None\<rparr>) c))" for s
    using inv timer_frame_trans [OF timer_frame_upd_proc timer_frame_addtoDestroy]
    by (rule timer_inv_frame) (rule table.sched.J_end [OF t])
  show "timer_inv b (addtoDestroy p s c)" for s
    using inv by (rule timer_inv_frame) (auto intro: table_ok_kill t)
qed

interpretation timers_io: io_preserved any_spec "\<lambda>_. timer_inv True"
proof (rule io_preserved.intro [OF timers_code], unfold_locales)
  fix c :: "('st, 'm) Context" and a
  assume inv: "timer_inv True c"
  note t = timer_inv_table [OF inv]
  show "timer_inv True (c\<lparr>waits := remove1 (a, d) (waits c), posted := posted c @ [TimerFired a]\<rparr>)"
    (is "timer_inv True ?c") if "(a, d) \<in> set (waits c)" for d
  proof -
    have "table_ok ?c" by (rule table_ok_frame [OF t]) simp
    moreover have "\<forall>(b, u)\<in>set (waits c). heap c b \<noteq> None" using inv by (simp add: timer_inv_def)
    then have "\<forall>(b, u)\<in>set (waits ?c). heap ?c b \<noteq> None" "heap ?c a \<noteq> None"
      using that set_remove1_subset [of "(a, d)" "waits c"] by auto
    ultimately show ?thesis using inv by (auto simp: timer_inv_def conts_ok_def)
  qed
  show take: "timer_inv True (c\<lparr>posted := hs @ hs'\<rparr>)" if "posted c = hs @ h # hs'" for hs h hs'
    using inv that by (auto simp: timer_inv_def conts_ok_def intro: table_ok_frame [OF t])
  show "timer_inv True (cancel_timer a (c\<lparr>posted := hs @ hs'\<rparr>))" if "posted c = hs @ TimerFired a # hs'" for hs hs'
    by (rule timer_inv_cancel [OF take [OF that]])
  show "timer_inv True ((put_promise (UserP k) q' c)\<lparr>posted := posted c @ hs\<rparr>)"
    if "promise_at c (UserP k) = Some q" "(q', hs) = setIfUnset q \<or> (q', hs) = setException e q" for k q q' hs e
    using inv signal_timers [OF that] by (rule timer_inv_frame) (auto intro: table_ok_frame t)
  show "keeps (timer_inv True) (do_call a r c)" for r
    by (rule timer_inv_keeps [OF inv do_call_timers [OF t] table.T_call [OF t]]) simp
qed

lemma destroy_front_timers:
  assumes inv: "timer_inv False c"
  shows "timer_inv False (destroy_front c)"
proof (cases "toDestroy c")
  case Nil
  then show ?thesis using inv by (simp add: destroy_front_def)
next
  case (Cons e rest)
  obtain a s where e: "e = (a, s)" by (cases e)
  note t = timer_inv_table [OF inv]
  obtain rp where rp: "heap c a = Some rp"
    using t Cons e by (fastforce simp: table_ok_iff owned_by_def)
  let ?c1 = "c\<lparr>toDestroy := rest\<rparr>"
  let ?c2 = "fold (\<lambda>q. addtoDestroy q s) (killOnDie (rp_process rp)) ?c1"
  let ?c3 = "fold (\<lambda>d. queueSend d (MPid (rp_pid rp))) (notifyOnDie (rp_process rp)) ?c2"
  have t2: "timer_frame c' (fold (\<lambda>q. addtoDestroy q s) ps c')" for c' :: "('a, 'b) Context" and ps
    by (induction ps arbitrary: c') (auto intro: timer_frame_trans [OF timer_frame_addtoDestroy])
  have t3: "timer_frame c' (fold (\<lambda>d. queueSend d m) ds c')" for c' :: "('a, 'b) Context" and ds m
    by (induction ds arbitrary: c') (auto intro: timer_frame_trans [OF timer_frame_fields(1)])
  have "timer_frame c ?c3" by (rule timer_frame_trans [OF timer_frame_trans [OF timer_frame_fields(5) t2] t3])
  then have c3: "conts_ok ?c3" "\<forall>(b, d)\<in>set (waits ?c3). heap ?c3 b \<noteq> None" "\<forall>b. TimerFired b \<notin> set (posted ?c3)"
    using inv unfolding timer_inv_def timer_frame_def by (fastforce simp del: not_None_eq)+
  have d: "destroy_front c = delete_process a ?c3"
    using Cons e rp by (simp add: destroy_front_def destroy_def Let_def)
  have "conts_ok (delete_process a ?c3)" "\<forall>b. TimerFired b \<notin> set (posted (delete_process a ?c3))"
    using delete_process_frame [OF c3(1)] c3(3) by blast+
  moreover have "\<forall>(b, d)\<in>set (waits (delete_process a ?c3)). heap (delete_process a ?c3) b \<noteq> None"
    using c3(2) by (auto simp: delete_process_def)
  ultimately show ?thesis using table_ok_destroy [OF t] d by (simp add: timer_inv_def)
qed

interpretation timers_round: round_preserved any_spec "\<lambda>_. timer_inv False"
proof (rule round_preserved.intro [OF timers_code], unfold_locales)
  fix c :: "('st, 'm) Context" and a
  assume inv: "timer_inv False c"
  note t = timer_inv_table [OF inv]
  show "keeps (timer_inv False) (spawn sp c)" for sp
    using timer_inv_keeps [OF inv spawnWith_timers [OF t, of "\<lambda>a. a" sp]] table.T_spawn_plain [OF t, of sp]
    by (simp add: spawnWith_def spawn_def)
  show "timer_inv False (c\<lparr>queue := items\<rparr>)" for items
    using inv by (rule timer_inv_frame) (auto intro: table_ok_frame t)
  show "timer_inv False (destroy_front c)" using inv by (rule destroy_front_timers)
  show push: "timer_inv False (c\<lparr>queue := items, slots := set_slot_queue i (mq_push m mq) (slots c)\<rparr>)"
    if "slot_queue (slots c) i = Some mq" for items i m mq
  proof -
    have "conts_ok c \<Longrightarrow> slots_wake (set_slot_queue i (mq_push m mq) (slots c))"
      using that by (auto simp: conts_ok_def mq_push_def split: option.split intro!: slots_wake_set dest: slots_wake_queue)
    then have "timer_frame c (c\<lparr>queue := items, slots := set_slot_queue i (mq_push m mq) (slots c)\<rparr>)"
      by (simp add: timer_frame_def conts_ok_def)
    with inv show ?thesis by (rule timer_inv_frame) (auto intro: table_ok_frame t)
  qed
  show "timer_inv False (cancel_timer a (c\<lparr>queue := items, slots := set_slot_queue i (mq_push m mq) (slots c)\<rparr>))"
    if "slot_queue (slots c) i = Some mq" for items i m mq
    by (rule timer_inv_cancel [OF push [OF that]])
qed

lemma reachable_timers: "reachable any_spec P c \<Longrightarrow> timer_inv False c"
proof (induction rule: reachable.induct)
  case fresh
  show ?case by (simp add: timer_inv_def table_ok_init) (simp add: Context_init_def conts_ok_def slots_wake_def)
next
  case (spawned c sp p c')
  then show ?case using timers_round.J_spawn [of c sp] by simp
next
  case (spawn_failed c sp e c')
  then show ?case using timers_round.J_spawn [of c sp] by simp
next
  case (stepped c c')
  from stepped.hyps(2) show ?case
  proof cases
    case (item i "is" n c2)
    from timers_round.processQueueItem_keeps [OF _ stepped.IH item(3), of P n] item(4) have "timer_inv False c2" by simp
    then show ?thesis using item(1) by (simp add: timers_round.destroy_all_keeps)
  next
    case (io c2)
    have "timer_inv True c" using stepped.IH by (auto simp: timer_inv_def)
    then have "timer_inv True c2" by (rule timers_io.io_steps_keeps [OF io(4), rotated]) simp
    then have "timer_inv False c2" using io(5) by (simp add: timer_inv_def)
    then show ?thesis using io(1) by (simp add: timers_round.destroy_all_keeps)
  qed
qed

text \<open>C12: Timer handlers never touch a destroyed process. Whatever the io service does in a round of
  \<open>run\<close> that starts in a reachable state, the handler of every expired timer that is pending or
  may become pending refers to a process object that still exists, since nothing is destroyed
  before the io service has run out of handlers.\<close>

theorem timer_handlers_safe:
  assumes "reachable any_spec P c" and "io_steps any_spec P c c'"
    and "TimerFired a \<in> set (posted c') \<or> a \<in> fst ` set (waits c')"
  shows "heap c' a \<noteq> None"
proof -
  have "timer_inv True c" using reachable_timers [OF assms(1)] by (auto simp: timer_inv_def)
  then have "timer_inv True c'" by (rule timers_io.io_steps_keeps [OF assms(2), rotated]) simp
  then show ?thesis using assms(3) by (auto simp: timer_inv_def)
qed

text \<open>A process that sleeps five milliseconds: after one round its timer runs, and then it expires.\<close>

definition sleep_prog :: "(nat, nat) program" where
  "sleep_prog st v = CoAwait (sleep 5) (UserFrame 1)"

definition sleep_c2 :: "(nat, nat) Context" where
  "sleep_c2 = demo_c1\<lparr>queue := [], waits := [(0, 5)], heap := (\<lambda>_. None)(0 \<mapsto> demo_rp\<lparr>resumes := 1,
     lastWaiting := Some (WaitingTimeout 5), task := Some (Some (sleep 5), [UserFrame 1])\<rparr>)\<rparr>"

lemma sleep_item:
  "processQueueItem 1 sleep_prog \<lparr>ti_pid = demo_pid, ti_resume = Some 0, ti_message = None\<rparr>
     (demo_c1\<lparr>queue := []\<rparr>) = Ret () sleep_c2"
  by (simp add: processQueueItem_def findProc_def demo_c1_def sleep_c2_def demo_pid_def demo_rp_def
      resume_def run_task_def process_last_def task_resume_def sleep_prog_def sleep_def WaitingTimeout_def upd_proc_def
      cancel_timer_def start_timer_def arm_def Context_init_def Let_def)

lemma sleep_reachable: "reachable any_spec sleep_prog sleep_c2"
proof -
  have "reachable any_spec sleep_prog demo_c1" by (rule reachable.spawned [OF reachable.fresh _ demo_spawn]) simp
  moreover have "run_step any_spec sleep_prog demo_c1 (destroy_all sleep_c2)"
    by (rule run_step.item [OF _ _ sleep_item]) (simp_all add: demo_c1_def run_again_def Context_init_def)
  moreover have "destroy_all sleep_c2 = sleep_c2"
    by (subst destroy_all.simps) (simp add: sleep_c2_def demo_c1_def Context_init_def)
  ultimately show ?thesis by (metis reachable.stepped)
qed

theorem timer_handlers_safe_witness:
  "\<exists>c. io_steps any_spec sleep_prog sleep_c2 c \<and> TimerFired 0 \<in> set (posted c) \<and> heap c 0 \<noteq> None"
proof -
  let ?c = "sleep_c2\<lparr>waits := remove1 (0, 5) (waits sleep_c2), posted := posted sleep_c2 @ [TimerFired 0]\<rparr>"
  have "io_step any_spec sleep_prog sleep_c2 ?c" by (rule io_step.expire) (simp add: sleep_c2_def)
  then have s: "io_steps any_spec sleep_prog sleep_c2 ?c" by (rule io_steps.io_trans [OF io_steps.io_refl])
  then have "heap ?c 0 \<noteq> None" by (rule timer_handlers_safe [OF sleep_reachable]) simp
  with s show ?thesis by (intro exI [of _ ?c]) simp
qed

end
