(* ===== verification/Sleeping.thy ===== *)
theory Sleeping
  imports Timers
begin

text \<open>
  Timers and sleeping processes match: a process object has a timer running exactly as long as it is
  suspended on something with a timeout. One direction is the liveness of \<open>sleep\<close>, no timer is lost; the
  other says that no timer is left behind by an earlier wait.
\<close>

section \<open>Operations that leave timers and waiting processes alone\<close>

text \<open>
  Process objects that exist keep what they wait for and their timers, new ones wait for nothing, no timer is
  started, and pending timer handlers stay pending.
\<close>

definition same_wait :: "('st, 'm) RunningProcess \<Rightarrow> ('st, 'm) RunningProcess \<Rightarrow> bool" where
  "same_wait rp rp' \<longleftrightarrow> rp_pid rp' = rp_pid rp \<and> lastWaiting rp' = lastWaiting rp \<and> (dead rp \<longrightarrow> dead rp')"

definition still :: "('st, 'm) Context \<Rightarrow> ('st, 'm) Context \<Rightarrow> bool" where
  "still c c' \<longleftrightarrow>
     (\<forall>b rp. heap c b = Some rp \<longrightarrow> (\<exists>rp'. heap c' b = Some rp' \<and> same_wait rp rp') \<and> (\<forall>t. (b, t) \<in> set (waits c) \<longrightarrow> (b, t) \<in> set (waits c')))
     \<and> (\<forall>b rp'. heap c b = None \<longrightarrow> heap c' b = Some rp' \<longrightarrow> lastWaiting rp' = None)
     \<and> set (waits c') \<subseteq> set (waits c)
     \<and> (\<forall>a. TimerFired a \<in> set (posted c) \<longrightarrow> TimerFired a \<in> set (posted c'))"

abbreviation keeps_still :: "('st, 'm) Context \<Rightarrow> ('a, ('st, 'm) Context) res \<Rightarrow> bool" where
  "keeps_still c \<equiv> keeps (still c)"

lemma same_wait_refl [simp]: "same_wait rp rp"
  by (simp add: same_wait_def)

lemma still_refl [simp]: "still c c"
  by (simp add: still_def)

lemma still_trans:
  assumes "still a b" and "still b c"
  shows "still a c"
proof -
  have "\<exists>rp'. heap c x = Some rp' \<and> same_wait rp rp'" if h: "heap a x = Some rp" for x rp
  proof -
    obtain rp1 where r1: "heap b x = Some rp1" "same_wait rp rp1" using assms(1) h unfolding still_def by blast
    then obtain rp2 where "heap c x = Some rp2" "same_wait rp1 rp2" using assms(2) unfolding still_def by blast
    with r1 show ?thesis by (auto simp: same_wait_def)
  qed
  moreover have "(x, t) \<in> set (waits c)" if h: "heap a x = Some rp" and t: "(x, t) \<in> set (waits a)" for x rp t
  proof -
    obtain rp1 where r1: "heap b x = Some rp1" using assms(1) h unfolding still_def by blast
    have "(x, t) \<in> set (waits b)" using assms(1) h t unfolding still_def by blast
    then show ?thesis using r1 assms(2) unfolding still_def by blast
  qed
  moreover have "lastWaiting rp' = None" if n: "heap a x = None" and c: "heap c x = Some rp'" for x rp'
  proof (cases "heap b x")
    case None
    then show ?thesis using assms(2) c unfolding still_def by blast
  next
    case (Some rp1)
    then have "lastWaiting rp1 = None" "\<exists>rp2. heap c x = Some rp2 \<and> same_wait rp1 rp2"
      using assms n unfolding still_def by blast+
    then show ?thesis using c by (auto simp: same_wait_def)
  qed
  moreover have "set (waits c) \<subseteq> set (waits a)" "\<forall>x. TimerFired x \<in> set (posted a) \<longrightarrow> TimerFired x \<in> set (posted c)"
    using assms unfolding still_def by blast+
  ultimately show ?thesis unfolding still_def by blast
qed

lemma keeps_still_trans:
  assumes "still c c1" and "keeps_still c1 r"
  shows "keeps_still c r"
  using assms(2) by (rule res_post_mono) (auto intro: still_trans [OF assms(1)])

lemma still_same:
  assumes "heap c' = heap c" "waits c' = waits c" "set (posted c) \<subseteq> set (posted c')"
  shows "still c c'"
  using assms by (auto simp: still_def)

lemma still_fields [simp]:
  "still c (queueSend t m c)" "still c (queueResume p n c)" "still c (c\<lparr>queue := q\<rparr>)" "still c (c\<lparr>toDestroy := ds\<rparr>)"
  "still c (c\<lparr>next_addr := k\<rparr>)" "still c (c\<lparr>promises := ps, next_promise := k\<rparr>)"
  "still c (c\<lparr>slots := st, posted := posted c @ hs\<rparr>)" "still c (c\<lparr>queue := q, slots := st\<rparr>)"
  "still c (snd (new_slot a c))" "still c (put_promise r pr c)" "still c ((put_promise r pr c)\<lparr>posted := posted c @ hs\<rparr>)"
  "still c (drop_slot i c)"
  by (auto simp: queueSend_def queueResume_def new_slot_def put_promise_def drop_slot_def
      split: promise_ref.split option.split intro!: still_same)

lemma still_upd_proc: "(\<And>rp. same_wait rp (f rp)) \<Longrightarrow> still c (upd_proc a f c)"
  by (auto simp: still_def upd_proc_def)

lemma still_addKillOnDie_at [simp]: "still c (addKillOnDie_at a b c)"
  by (simp add: addKillOnDie_at_def still_upd_proc same_wait_def)

lemma still_link: "still c (upd_proc b (\<lambda>rp. rp\<lparr>rp_process := f (rp_process rp)\<rparr>) c)"
  by (simp add: still_upd_proc same_wait_def)

lemma still_addtoDestroy [simp]: "still c (addtoDestroy p s c)"
  by (auto simp: addtoDestroy_def still_def upd_proc_def same_wait_def split: option.split)

lemma finish_await_still: "keeps_still c (finish_await w c)"
  by (auto simp: finish_await_def Let_def split: option.split Awaitable.split sum.split)

lemma process_last_still: "keeps_still c (process_last a rp c)"
  by (simp add: process_last_def split: option.split sum.split)

lemma arm_future_still: "keeps_still c (arm_future a n r c)"
  by (simp add: arm_future_def split: option.split prod.split)

section \<open>Spawning\<close>

lemma new_members_still: "still c (snd (new_members a ns p c))"
proof (induction ns arbitrary: p c)
  case (Cons n ns)
  obtain sid c1 where ns: "new_slot a c = (sid, c1)" by (cases "new_slot a c")
  with still_fields(9) [of c a] have "still c c1" by simp
  with Cons.IH [of c1 "p\<lparr>pr_members := pr_members p @ [(n, sid)]\<rparr>"] ns show ?case by (auto intro: still_trans)
qed simp

lemma link_all_still: "keeps_still c (link_all bs p c)"
proof (induction bs arbitrary: p c)
  case (Cons b bs)
  have "keeps_still c (link_with p b c)" by (simp add: link_with_def still_link split: option.split)
  then show ?case unfolding link_all.simps by (rule res_post_bind) (auto intro: keeps_still_trans Cons.IH)
qed simp

lemma delete_process_still: "heap c a = None \<Longrightarrow> still c (delete_process a c)"
  by (auto simp: still_def delete_process_def)

lemma construct_still:
  assumes "heap c a = None"
  shows "keeps_still c (construct a args sp c)"
  using assms
proof (rule construct_parts [where args = args and sp = sp])
  fix p c1 r
  assume m: "new_members a (sp_members sp) (Process_init args (sp_classes sp)) c = (p, c1)"
    and r: "r = res_bind (link_all (sp_links sp) p c1) (\<lambda>p c. case sp_throws sp of None \<Rightarrow> Ret p c | Some e \<Rightarrow> Throw e c)"
    and c: "construct a args sp c = (case r of Throw e c \<Rightarrow> Throw e (delete_process a c) | r \<Rightarrow> r)"
    and h: "keeps (\<lambda>c'. heap c' a = None) r"
  have c1: "still c c1" using new_members_still [of c a "sp_members sp" "Process_init args (sp_classes sp)"] m by simp
  have "keeps_still c r"
    unfolding r by (rule res_post_bind [OF keeps_still_trans [OF c1 link_all_still]]) (auto split: option.split)
  then show ?thesis using c h by (cases r) (auto intro: still_trans delete_process_still)
qed

lemma still_add_process: "heap c a = None \<Longrightarrow> lastWaiting rp = None \<Longrightarrow> still c (add_process p a rp c)"
  by (auto simp: still_def add_process_def)

lemma spawnWith_still:
  assumes "table_ok c"
  shows "keeps_still c (spawnWith f sp c)"
proof (cases "nextPid c")
  case (Ret p c1)
  let ?a = "next_addr c1" and ?args = "f (ProcessArgs_init p)"
  let ?c1 = "c1\<lparr>next_addr := Suc ?a\<rparr>"
  have n: "next_addr c1 = next_addr c" "heap c1 = heap c" and t: "still c c1"
    using Ret by (auto simp: nextPid_def Let_def split: if_splits intro!: still_same)
  have fresh: "heap ?c1 ?a = None" using table.T_fresh [OF assms] n by simp
  have "keeps (\<lambda>c'. still c c' \<and> heap c' ?a = None) (construct ?a ?args sp ?c1)"
    using keeps_still_trans [OF still_trans [OF t still_fields(5)] construct_still [OF fresh, of ?args sp]]
      construct_table [OF fresh, of ?args sp] fresh same_table_heap(1) [of ?c1 _ ?a]
    by (cases "construct ?a ?args sp ?c1") auto
  then have "keeps_still c (spawnArgs ?args sp c1)"
    unfolding spawnArgs_def Let_def Suc_eq_plus1 [symmetric]
    by (cases "construct ?a ?args sp ?c1") (auto simp: add_process_def [symmetric]
        intro!: still_trans [OF still_trans [OF _ still_add_process] still_fields(2)])
  then show ?thesis using Ret by (simp add: spawnWith_def)
next
  case (Throw e c1)
  then have "c1 = c" by (auto simp: nextPid_def Let_def split: if_splits)
  with Throw show ?thesis by (simp add: spawnWith_def)
qed (simp_all add: spawnWith_def)

lemma do_call_still:
  fixes c :: "('st, 'm) Context"
  assumes "table_ok c"
  shows "keeps_still c (do_call a r c)"
proof (cases "heap c a")
  case (Some rp)
  have bind: "keeps_still c q \<Longrightarrow> keeps_still c (res_bind q (\<lambda>p c. Ret (g p) c))"
    for q :: "('z, ('st, 'm) Context) res" and g :: "'z \<Rightarrow> 'm Answer"
    by (rule res_post_bind) simp_all
  have sp: "keeps_still c (res_bind (spawnWith f sp c) (\<lambda>p c. Ret p (addKillOnDie_at a p c)))" for f sp
    by (rule res_post_bind [OF spawnWith_still [OF assms]]) (auto intro: still_trans)
  have spawn: "keeps_still c (spawn sp c)" for sp
    using spawnWith_still [OF assms, of "\<lambda>a. a" sp] by (simp add: spawnWith_def spawn_def)
  have link: "keeps_still c (link a q b c)" for q b
    by (simp add: link_def still_trans [OF still_addKillOnDie_at still_link] split: option.split)
  have read: "keeps_still c (canQueue t c)" "keeps_still c (makeSendAddress q cls slot c)" for t q cls slot
    by (simp_all add: canQueue_def findProc_const_def makeSendAddress_def split: option.split)
  have "snd (new_slot a c) = c\<lparr>slots := (next_slot c, Slot_init a) # slots c, next_slot := next_slot c + 1\<rparr>"
    by (simp add: new_slot_def)
  then show ?thesis
    using Some bind [OF sp] bind [OF spawn] bind [OF link] bind [OF read(1)] bind [OF read(2)] still_fields(9) [of c a]
    by (cases r) (auto simp: do_call_def Let_def send_def new_slot_def queueKill_def spawnLink_def spawnLinkNotify_def
        split: option.split prod.split)
qed (simp add: do_call_def)

section \<open>The invariant\<close>

definition sleeps_for :: "('st, 'm) RunningProcess \<Rightarrow> int \<Rightarrow> bool" where
  "sleeps_for rp t \<longleftrightarrow> (\<exists>w. lastWaiting rp = Some w \<and> \<not> isReadyForResume w \<and> sleepFor w = Some t)"

text \<open>
  \<open>timers_match X\<close>: whoever is alive and sleeps (except the running process \<open>X\<close>) has its timer running or
  expired and its handler pending; timers belong to processes that sleep, and never to \<open>X\<close>.
\<close>

definition timers_match :: "addr option \<Rightarrow> ('st, 'm) Context \<Rightarrow> bool" where
  "timers_match X c \<longleftrightarrow>
     (\<forall>a rp t. heap c a = Some rp \<longrightarrow> \<not> dead rp \<longrightarrow> X \<noteq> Some a \<longrightarrow> sleeps_for rp t \<longrightarrow>
        (a, t) \<in> set (waits c) \<or> TimerFired a \<in> set (posted c))
     \<and> (\<forall>a t. (a, t) \<in> set (waits c) \<longrightarrow> X \<noteq> Some a \<and> (\<exists>rp. heap c a = Some rp \<and> sleeps_for rp t))"

definition sleep_inv :: "(addr \<times> Pid) option \<Rightarrow> ('st, 'm) Context \<Rightarrow> bool" where
  "sleep_inv X c \<longleftrightarrow> table_ok c \<and> timers_match (map_option fst X) c
     \<and> (\<forall>a p. X = Some (a, p) \<longrightarrow> (\<exists>rp. heap c a = Some rp \<and> rp_pid rp = p))"

lemma timers_matchI:
  assumes "\<And>a rp t. heap c a = Some rp \<Longrightarrow> \<not> dead rp \<Longrightarrow> X \<noteq> Some a \<Longrightarrow> sleeps_for rp t \<Longrightarrow>
      (a, t) \<in> set (waits c) \<or> TimerFired a \<in> set (posted c)"
    and "\<And>a t. (a, t) \<in> set (waits c) \<Longrightarrow> X \<noteq> Some a"
    and "\<And>a t. (a, t) \<in> set (waits c) \<Longrightarrow> \<exists>rp. heap c a = Some rp \<and> sleeps_for rp t"
  shows "timers_match X c"
  using assms unfolding timers_match_def by blast

lemma timers_matchD:
  assumes "timers_match X c"
  shows "heap c a = Some rp \<Longrightarrow> \<not> dead rp \<Longrightarrow> X \<noteq> Some a \<Longrightarrow> sleeps_for rp t \<Longrightarrow>
      (a, t) \<in> set (waits c) \<or> TimerFired a \<in> set (posted c)"
    and "(a, t) \<in> set (waits c) \<Longrightarrow> X \<noteq> Some a"
    and "(a, t) \<in> set (waits c) \<Longrightarrow> \<exists>rp. heap c a = Some rp \<and> sleeps_for rp t"
  using assms unfolding timers_match_def by blast+

lemma same_wait_sleeps: "same_wait rp rp' \<Longrightarrow> sleeps_for rp' t = sleeps_for rp t"
  by (simp add: same_wait_def sleeps_for_def)

lemma timers_match_still:
  assumes m: "timers_match X c" and s: "still c c'"
  shows "timers_match X c'"
proof (rule timers_matchI)
  fix a rp' t
  assume h: "heap c' a = Some rp'" "\<not> dead rp'" "X \<noteq> Some a" "sleeps_for rp' t"
  obtain rp where rp: "heap c a = Some rp" using s h(1,4) unfolding still_def sleeps_for_def by fastforce
  with s h(1) have w: "same_wait rp rp'" unfolding still_def by fastforce
  then have "(a, t) \<in> set (waits c) \<or> TimerFired a \<in> set (posted c)"
    using timers_matchD(1) [OF m rp] h same_wait_sleeps by (auto simp: same_wait_def)
  then show "(a, t) \<in> set (waits c') \<or> TimerFired a \<in> set (posted c')"
    using s rp unfolding still_def by blast
next
  fix a t
  assume "(a, t) \<in> set (waits c')"
  then have w: "(a, t) \<in> set (waits c)" using s unfolding still_def by blast
  then show "X \<noteq> Some a" by (rule timers_matchD(2) [OF m])
  obtain rp where rp: "heap c a = Some rp" "sleeps_for rp t" using timers_matchD(3) [OF m w] by blast
  then obtain rp' where "heap c' a = Some rp'" "same_wait rp rp'" using s unfolding still_def by blast
  then show "\<exists>rp'. heap c' a = Some rp' \<and> sleeps_for rp' t" using rp(2) same_wait_sleeps by blast
qed

lemma sleep_inv_still:
  assumes "sleep_inv X c" and "still c c'" and "table_ok c'"
  shows "sleep_inv X c'"
proof -
  have "\<exists>rp'. heap c' a = Some rp' \<and> rp_pid rp' = p" if "X = Some (a, p)" for a p
    using assms(1,2) that unfolding sleep_inv_def still_def by (metis same_wait_def)
  then show ?thesis using assms timers_match_still by (auto simp: sleep_inv_def)
qed

lemma sleep_inv_keeps: "sleep_inv X c \<Longrightarrow> keeps_still c r \<Longrightarrow> keeps table_ok r \<Longrightarrow> keeps (sleep_inv X) r"
  by (cases r) (auto intro: sleep_inv_still)

lemma sleep_inv_table: "sleep_inv X c \<Longrightarrow> table_ok c"
  by (simp add: sleep_inv_def)

section \<open>Entering, suspending, ending\<close>

lemma cancel_enters:
  assumes "sleep_inv None c" and "heap c a = Some rp" and "\<not> dead rp"
  shows "sleep_inv (Some (a, rp_pid rp)) (cancel_timer a c)"
proof -
  have m: "timers_match None c" using assms(1) by (simp add: sleep_inv_def)
  have "timers_match (Some a) (cancel_timer a c)"
    by (rule timers_matchI) (use timers_matchD [OF m] in \<open>auto simp: cancel_timer_def\<close>)
  then show ?thesis
    using assms by (auto simp: sleep_inv_def cancel_timer_def intro: table_ok_frame [OF _ same_table_fields(3)])
qed

text \<open>A process that suspends on something with a timeout gets its timer.\<close>

lemma suspend_arms:
  assumes "sleep_inv (Some (a, p)) c"
  shows "keeps (sleep_inv None) (arm a w (upd_proc a (\<lambda>rp. rp\<lparr>lastWaiting := Some w, task := t\<rparr>) c))"
proof -
  let ?c = "upd_proc a (\<lambda>rp. rp\<lparr>lastWaiting := Some w, task := t\<rparr>) c"
  have m: "timers_match (Some a) c" and tc: "table_ok c" using assms by (auto simp: sleep_inv_def)
  note D = timers_matchD [OF m]
  obtain rp where rp: "heap c a = Some rp" using assms by (auto simp: sleep_inv_def)
  have no: "(a, u) \<notin> set (waits c)" for u using D(2) by blast
  have tb: "table_ok ?c" using tc by (rule table.T_upd) simp
  have rest: "timers_match None d" if "heap d = heap ?c" "posted d = posted c"
      "\<And>b u. (b, u) \<in> set (waits d) \<longleftrightarrow> (b, u) \<in> set (waits c) \<or> b = a \<and> \<not> isReadyForResume w \<and> sleepFor w = Some u" for d
    by (rule timers_matchI) (use that D no rp in \<open>auto simp: upd_proc_def sleeps_for_def split: if_splits\<close>)
  show ?thesis
  proof (cases "isReadyForResume w")
    case True
    have "sleep_inv None (queueResume q n ?c)" for q n
      using rest [of "queueResume q n ?c"] True table_ok_frame [OF tb same_table_basic(2)]
      by (simp add: sleep_inv_def) (simp add: queueResume_def upd_proc_def)
    then show ?thesis using rp True by (simp add: arm_def upd_proc_def)
  next
    case False
    let ?d = "case sleepFor w of None \<Rightarrow> ?c | Some u \<Rightarrow> start_timer a u ?c"
    have "timers_match None ?d"
      by (rule rest) (use False no in \<open>auto simp: start_timer_def cancel_timer_def upd_proc_def split: option.split\<close>)
    moreover have "table_ok ?d" using tb by (auto split: option.split intro: table_ok_frame)
    ultimately have d: "sleep_inv None ?d" by (simp add: sleep_inv_def)
    have "keeps (sleep_inv None) (arm_future a n r ?d)" for n r
      by (rule sleep_inv_keeps [OF d arm_future_still table.T_keeps [OF sleep_inv_table [OF d] arm_future_table]])
    then show ?thesis using rp False d by (auto simp: arm_def Let_def upd_proc_def split: option.split)
  qed
qed

text \<open>A process that ends or fails is dead, and its timer was cancelled.\<close>

lemma throw_sleeps:
  assumes "sleep_inv (Some (a, p)) c"
  shows "sleep_inv None (addtoDestroy p s c)"
proof -
  let ?c = "addtoDestroy p s c"
  have i: "sleep_inv (Some (a, p)) ?c"
    by (rule sleep_inv_still [OF assms]) (auto intro: table_ok_kill sleep_inv_table [OF assms])
  obtain rp where rp: "heap c a = Some rp" "rp_pid rp = p" using assms by (auto simp: sleep_inv_def)
  have "owned_by {} c" using sleep_inv_table [OF assms] by (simp add: table_ok_iff)
  then have "dead rp \<or> findProc p c = Some a" using findProc_iff [of "{}" c p a] rp by blast
  then have "dead rp'" if "heap ?c a = Some rp'" for rp'
    using that rp(1) by (auto simp: addtoDestroy_def upd_proc_def split: option.splits if_splits)
  moreover have m: "timers_match (Some a) ?c" using i by (simp add: sleep_inv_def)
  ultimately have "timers_match None ?c"
    by (intro timers_matchI) (use timers_matchD [OF m] in \<open>auto\<close>)
  then show ?thesis using i by (simp add: sleep_inv_def)
qed

lemma end_sleeps:
  assumes "sleep_inv (Some (a, p)) c"
  shows "sleep_inv (Some (a, p)) (upd_proc a (\<lambda>rp. rp\<lparr>lastWaiting := None, task := None\<rparr>) c)"
proof -
  let ?c = "upd_proc a (\<lambda>rp. rp\<lparr>lastWaiting := None, task := None\<rparr>) c"
  have m: "timers_match (Some a) c" using assms by (simp add: sleep_inv_def)
  have "a \<noteq> b" if "(b, t) \<in> set (waits c)" for b t using timers_matchD(2) [OF m that] by simp
  then have "timers_match (Some a) ?c"
    by (intro timers_matchI) (use timers_matchD [OF m] in \<open>fastforce simp: upd_proc_def split: if_splits\<close>)+
  moreover have "table_ok ?c" using sleep_inv_table [OF assms] by (rule table.T_upd) simp
  ultimately show ?thesis using assms by (auto simp: sleep_inv_def upd_proc_def)
qed

section \<open>Destruction\<close>

lemma fold_still:
  "still c (fold (\<lambda>q. addtoDestroy q s) ps c)" "still c (fold (\<lambda>d. queueSend d m) ds c)"
proof -
  show "still c (fold (\<lambda>q. addtoDestroy q s) ps c)"
    by (induction ps arbitrary: c) (auto intro: still_trans [OF still_addtoDestroy])
  show "still c (fold (\<lambda>d. queueSend d m) ds c)"
    by (induction ds arbitrary: c) (auto intro: still_trans [OF still_fields(1)])
qed

lemma timers_match_delete:
  assumes "timers_match None c"
  shows "timers_match None (delete_process a c)"
  by (rule timers_matchI) (use timers_matchD [OF assms] in \<open>auto simp: delete_process_def split: if_splits\<close>)

lemma destroy_sleeps:
  assumes "sleep_inv None c"
  shows "sleep_inv None (destroy_front c)"
proof -
  have m: "timers_match None c" using assms by (simp add: sleep_inv_def)
  have "timers_match None (destroy_front c)"
    using m fold_still still_fields(4)
    by (auto simp: destroy_front_def destroy_def Let_def split: list.split option.split
        intro!: timers_match_delete timers_match_still [OF timers_match_still [OF timers_match_still [OF m still_fields(4)] fold_still(1)] fold_still(2)]
          timers_match_still [OF m still_fields(4)])
  then show ?thesis using table_ok_destroy [OF sleep_inv_table [OF assms]] by (simp add: sleep_inv_def)
qed

section \<open>The scheduler keeps it\<close>

lemma sleep_init: "sleep_inv None Context_init"
  by (simp add: sleep_inv_def table_ok_init) (simp add: Context_init_def timers_match_def)

lemma sleep_frame: "sleep_inv X c \<Longrightarrow> still c c' \<Longrightarrow> same_table c c' \<Longrightarrow> sleep_inv X c'"
  by (blast intro: sleep_inv_still table_ok_frame sleep_inv_table)

lemma take_sleeps:
  assumes "sleep_inv None c" and "posted c = hs @ h # hs'" and "\<And>a rp. h = TimerFired a \<Longrightarrow> heap c a = Some rp \<Longrightarrow> dead rp"
  shows "sleep_inv None (c\<lparr>posted := hs @ hs'\<rparr>)"
proof -
  have m: "timers_match None c" using assms(1) by (simp add: sleep_inv_def)
  have "timers_match None (c\<lparr>posted := hs @ hs'\<rparr>)"
    by (rule timers_matchI) (use timers_matchD [OF m] assms(2,3) in \<open>fastforce+\<close>)
  then show ?thesis using table_ok_frame [OF sleep_inv_table [OF assms(1)] same_table_fields(2)] by (simp add: sleep_inv_def)
qed

text \<open>The handler of a timer: the process it wakes is alive, and its timer is gone.\<close>

lemma fire_sleeps:
  assumes "sleep_inv None c" and "posted c = hs @ TimerFired a # hs'" and "heap c a = Some rp" and "\<not> dead rp"
  shows "sleep_inv (Some (a, rp_pid rp)) (cancel_timer a (c\<lparr>posted := hs @ hs'\<rparr>))"
proof -
  let ?c = "cancel_timer a (c\<lparr>posted := hs @ hs'\<rparr>)"
  have m: "timers_match None c" using assms(1) by (simp add: sleep_inv_def)
  have "timers_match (Some a) ?c"
    by (rule timers_matchI) (use timers_matchD [OF m] assms(2) in \<open>fastforce simp: cancel_timer_def\<close>)+
  moreover have "table_ok ?c"
    by (rule table_ok_frame [OF sleep_inv_table [OF assms(1)] same_table_trans [OF same_table_fields(2) same_table_basic(3)]])
  ultimately show ?thesis using assms(3) by (simp add: sleep_inv_def cancel_timer_def)
qed

lemma expire_sleeps:
  assumes "sleep_inv None c"
  shows "sleep_inv None (c\<lparr>waits := remove1 (a, t) (waits c), posted := posted c @ [TimerFired a]\<rparr>)"
proof -
  have m: "timers_match None c" using assms by (simp add: sleep_inv_def)
  have r: "(b, u) \<in> set (remove1 (a, t) (waits c)) \<Longrightarrow> (b, u) \<in> set (waits c)" for b u
    using set_remove1_subset by fastforce
  have "timers_match None (c\<lparr>waits := remove1 (a, t) (waits c), posted := posted c @ [TimerFired a]\<rparr>)"
    by (rule timers_matchI) (use timers_matchD [OF m] r in \<open>fastforce simp: in_set_remove1\<close>)+
  then show ?thesis using table_ok_frame [OF sleep_inv_table [OF assms] same_table_fields(6)] by (simp add: sleep_inv_def)
qed

interpretation sleeping: scheduler_invariant any_spec sleep_inv
proof
  fix c :: "('st, 'm) Context" and a p rp
  note call = sleep_inv_keeps [OF _ do_call_still table.T_call]
  have push: "sleep_inv None (c\<lparr>queue := items, slots := st\<rparr>)" if "sleep_inv None c" for c :: "('st, 'm) Context" and items st
    using that by (rule sleep_frame) simp_all
  show "sleep_inv None c \<Longrightarrow> heap c a = Some rp \<Longrightarrow> \<not> dead rp \<Longrightarrow> sleep_inv (Some (a, rp_pid rp)) (cancel_timer a c)"
    by (rule cancel_enters)
  show "sleep_inv (Some (a, p)) c \<Longrightarrow> keeps (sleep_inv (Some (a, p))) (process_last a rp c)"
    by (rule sleep_inv_keeps [OF _ process_last_still table.sched.J_process]) (auto dest: sleep_inv_table)
  show "sleep_inv (Some (a, p)) c \<Longrightarrow> sleep_inv (Some (a, p)) (upd_proc a (\<lambda>rp. rp\<lparr>resumes := resumes rp + 1\<rparr>) c)"
    by (erule sleep_frame) (auto intro!: still_upd_proc same_table_upd_proc simp: same_wait_def)
  show "sleep_inv (Some (a, p)) c \<Longrightarrow> keeps (sleep_inv (Some (a, p))) (do_call a r c)" for r
    by (rule call) (auto dest: sleep_inv_table)
  show "sleep_inv None c \<Longrightarrow> keeps (sleep_inv None) (do_call a r c)" for r
    by (rule call) (auto dest: sleep_inv_table)
  show "sleep_inv (Some (a, p)) c \<Longrightarrow> keeps (sleep_inv (Some (a, p))) (finish_await aw c)" for aw
    by (rule sleep_inv_keeps [OF _ finish_await_still table.sched.J_await]) (auto dest: sleep_inv_table)
  show "sleep_inv (Some (a, p)) c \<Longrightarrow> keeps (sleep_inv None) (arm a (underlying aw)
      (upd_proc a (\<lambda>rp. rp\<lparr>lastWaiting := Some (underlying aw), task := Some (Some aw, fs)\<rparr>) c))" for aw fs
    by (rule suspend_arms)
  show "sleep_inv (Some (a, p)) c \<Longrightarrow>
      sleep_inv None (addtoDestroy p s (upd_proc a (\<lambda>rp. rp\<lparr>lastWaiting := None, task := None\<rparr>) c))" for s
    by (rule throw_sleeps [OF end_sleeps])
  show "sleep_inv (Some (a, p)) c \<Longrightarrow> sleep_inv None (addtoDestroy p s c)" for s by (rule throw_sleeps)
  show "sleep_inv None c \<Longrightarrow> sleep_inv None ((put_promise (UserP k) q' c)\<lparr>posted := posted c @ hs\<rparr>)" for k q' hs
    by (erule sleep_frame) simp_all
  show "sleep_inv None c \<Longrightarrow> keeps (sleep_inv None) (spawn sp c)" for sp
    using sleep_inv_keeps [OF _ spawnWith_still, of None c "\<lambda>a. a" sp] table.T_spawn_plain [of c sp]
    by (auto simp: spawnWith_def spawn_def dest: sleep_inv_table)
  show "sleep_inv None c \<Longrightarrow> sleep_inv None (c\<lparr>queue := items, slots := st\<rparr>)" for items st by (rule push)
  show "sleep_inv None c \<Longrightarrow> heap c a = Some rp \<Longrightarrow> \<not> dead rp \<Longrightarrow>
      sleep_inv (Some (a, rp_pid rp)) (cancel_timer a (c\<lparr>queue := items, slots := st\<rparr>))" for items st
    by (rule cancel_enters [OF push]) simp_all
  show "sleep_inv None c \<Longrightarrow> sleep_inv None (c\<lparr>queue := items\<rparr>)" for items by (erule sleep_frame) simp_all
qed (auto intro: expire_sleeps destroy_sleeps sleep_init elim: take_sleeps fire_sleeps)

section \<open>Timers and sleeping processes\<close>

text \<open>C3: Timers run for sleeping processes, and only for them: in every reachable state of every program, a live
  process has a timer of \<open>t\<close> milliseconds running exactly when it is suspended on something with the timeout
  \<open>t\<close>. So no process sleeps without a timer that will wake it, and no timer of an earlier wait is left that
  could wake a process out of something else.\<close>

theorem sleeping_iff_timer:
  assumes "reachable any_spec P c" and "heap c a = Some rp" and "\<not> dead rp"
  shows "(a, t) \<in> set (waits c) \<longleftrightarrow>
    (\<exists>w. lastWaiting rp = Some w \<and> \<not> isReadyForResume w \<and> sleepFor w = Some t)"
proof -
  have "sleep_inv None c" by (rule sleeping.reachable_keeps [OF assms(1)]) simp
  then have m: "timers_match None c" by (simp add: sleep_inv_def)
  have "TimerFired a \<notin> set (posted c)" using reachable_timers [OF assms(1)] by (auto simp: timer_inv_def)
  then have "(a, t) \<in> set (waits c) \<longleftrightarrow> sleeps_for rp t"
    using timers_matchD(1) [OF m assms(2,3)] timers_matchD(3) [OF m, of a t] assms(2) by auto
  then show ?thesis by (simp add: sleeps_for_def)
qed

theorem sleeping_iff_timer_witness:
  "\<exists>rp. heap sleep_c2 0 = Some rp \<and> \<not> dead rp \<and> (0, 5) \<in> set (waits sleep_c2)
     \<and> ((0, 5) \<in> set (waits sleep_c2) \<longleftrightarrow> (\<exists>w. lastWaiting rp = Some w \<and> \<not> isReadyForResume w \<and> sleepFor w = Some 5))"
proof -
  obtain rp where rp: "heap sleep_c2 0 = Some rp" "\<not> dead rp" by (simp add: sleep_c2_def demo_rp_def)
  moreover have "(0, 5) \<in> set (waits sleep_c2)" by (simp add: sleep_c2_def)
  ultimately show ?thesis using sleeping_iff_timer [OF sleep_reachable rp, of 5] by blast
qed

end
