(* ===== verification/Death.thy ===== *)
theory Death
  imports Wakeup
begin

text \<open>
  What the inner loop of \<open>run\<close> destroys: exactly the processes on the list and those that are linked
  to them directly or through others, and whom it notifies.
\<close>

section \<open>Who is doomed\<close>

inductive doomed :: "('st, 'm) Context \<Rightarrow> addr \<Rightarrow> bool" for c :: "('st, 'm) Context" where
  listed: "(a, s) \<in> set (toDestroy c) \<Longrightarrow> doomed c a"
| linked: "doomed c a \<Longrightarrow> heap c a = Some rp \<Longrightarrow> q \<in> set (killOnDie (rp_process rp)) \<Longrightarrow>
     findProc q c = Some b \<Longrightarrow> doomed c b"

text \<open>
  \<open>kills ps c c2\<close>: \<open>c2\<close> is \<open>c\<close> after the processes of the identifiers \<open>ps\<close> have been taken out of the
  table and put on the list.
\<close>

definition kills :: "Pid set \<Rightarrow> ('st, 'm) Context \<Rightarrow> ('st, 'm) Context \<Rightarrow> bool" where
  "kills ps c c2 \<longleftrightarrow>
     (\<forall>q b. findProc q c2 = Some b \<longleftrightarrow> findProc q c = Some b \<and> q \<notin> ps)
     \<and> fst ` set (toDestroy c2) = fst ` set (toDestroy c) \<union> {b. \<exists>q\<in>ps. findProc q c = Some b}
     \<and> (\<forall>x. heap c2 x = (if \<exists>q\<in>ps. findProc q c = Some x then map_option (\<lambda>rp. rp\<lparr>dead := True\<rparr>) (heap c x)
                          else heap c x))"

lemma kills_refl: "kills {} c c"
  by (simp add: kills_def)

lemma kills_one:
  assumes "owned_by X c"
  shows "kills {p} c (addtoDestroy p s c)"
proof (cases "findProc p c")
  case None
  then show ?thesis by (auto simp: kills_def addtoDestroy_def)
next
  case (Some a)
  let ?c = "addtoDestroy p s c"
  have o: "owned_by X ?c" using assms by (rule owned_by_addtoDestroy)
  obtain rp where rp: "heap c a = Some rp" "\<not> dead rp" "rp_pid rp = p"
    and h: "heap ?c = (heap c)(a \<mapsto> rp\<lparr>dead := True\<rparr>)"
    by (rule addtoDestroy_effect [OF assms Some])
  have "findProc q ?c = Some b \<longleftrightarrow> findProc q c = Some b \<and> q \<noteq> p" for q b
  proof (cases "b = a")
    case True
    then show ?thesis using findProc_iff [OF o, of q b] findProc_iff [OF assms, of q b] h rp by auto
  next
    case False
    then have "findProc q ?c = Some b \<longleftrightarrow> findProc q c = Some b"
      using findProc_iff [OF o, of q b] findProc_iff [OF assms, of q b] h by simp
    then show ?thesis using Some False by auto
  qed
  moreover have "toDestroy ?c = toDestroy c @ [(a, s)]" using Some by (simp add: addtoDestroy_def)
  ultimately show ?thesis using Some h rp(1) by (auto simp: kills_def)
qed

lemma kills_trans:
  assumes "kills ps c c1" and "kills qs c1 c2"
  shows "kills (ps \<union> qs) c c2"
proof -
  have f1: "findProc q c1 = Some b \<longleftrightarrow> findProc q c = Some b \<and> q \<notin> ps" for q b
    using assms(1) unfolding kills_def by metis
  have f2: "findProc q c2 = Some b \<longleftrightarrow> findProc q c1 = Some b \<and> q \<notin> qs" for q b
    using assms(2) unfolding kills_def by metis
  have d1: "fst ` set (toDestroy c1) = fst ` set (toDestroy c) \<union> {b. \<exists>q\<in>ps. findProc q c = Some b}"
    and d2: "fst ` set (toDestroy c2) = fst ` set (toDestroy c1) \<union> {b. \<exists>q\<in>qs. findProc q c1 = Some b}"
    using assms unfolding kills_def by metis+
  have h1: "heap c1 x = (if \<exists>q\<in>ps. findProc q c = Some x then map_option (\<lambda>rp. rp\<lparr>dead := True\<rparr>) (heap c x) else heap c x)"
    and h2: "heap c2 x = (if \<exists>q\<in>qs. findProc q c1 = Some x then map_option (\<lambda>rp. rp\<lparr>dead := True\<rparr>) (heap c1 x) else heap c1 x)" for x
    using assms unfolding kills_def by metis+
  have "heap c2 x = (if \<exists>q\<in>ps \<union> qs. findProc q c = Some x then map_option (\<lambda>rp. rp\<lparr>dead := True\<rparr>) (heap c x) else heap c x)" for x
    unfolding h2 h1 f1 by (cases "heap c x") auto
  moreover have "fst ` set (toDestroy c2) = fst ` set (toDestroy c) \<union> {b. \<exists>q\<in>ps \<union> qs. findProc q c = Some b}"
    unfolding d2 d1 f1 by auto
  ultimately show ?thesis unfolding kills_def using f1 f2 by simp
qed

lemma kills_fold:
  "owned_by X c \<Longrightarrow> kills (set ps) c (fold (\<lambda>p. addtoDestroy p s) ps c)"
proof (induction ps arbitrary: c)
  case Nil
  then show ?case by (simp add: kills_refl)
next
  case (Cons p ps)
  from kills_trans [OF kills_one [OF Cons.prems, of p s] Cons.IH [OF owned_by_addtoDestroy [OF Cons.prems]]]
  show ?case by simp
qed

section \<open>One round of the loop\<close>

lemma fold_queueSend_fields:
  "heap (fold (\<lambda>d. queueSend d m) ds c) = heap c" "processes (fold (\<lambda>d. queueSend d m) ds c) = processes c"
  "toDestroy (fold (\<lambda>d. queueSend d m) ds c) = toDestroy c"
  "queue (fold (\<lambda>d. queueSend d m) ds c)
     = queue c @ map (\<lambda>d. \<lparr>ti_pid = sa_pid d, ti_resume = None, ti_message = Some (d, m)\<rparr>) ds"
  by (induction ds arbitrary: c) (simp_all add: queueSend_def)

lemma findProc_cong: "heap c' = heap c \<Longrightarrow> processes c' = processes c \<Longrightarrow> findProc q c' = findProc q c"
  by (simp add: findProc_def split: option.split)

lemma queue_fold_addtoDestroy: "queue (fold (\<lambda>p. addtoDestroy p s) ps c) = queue c"
  by (induction ps arbitrary: c) (simp_all add: addtoDestroy_def upd_proc_def split: option.split)

text \<open>The state after one process object has been destroyed.\<close>

lemma destroy_front_effect:
  assumes ok: "table_ok c" and td: "toDestroy c = (a, s) # rest" and rp: "heap c a = Some rp"
  defines "ps \<equiv> set (killOnDie (rp_process rp))"
  shows "findProc q (destroy_front c) = Some b \<longleftrightarrow> findProc q c = Some b \<and> q \<notin> ps"
    and "fst ` set (toDestroy (destroy_front c)) = fst ` set rest \<union> {b. \<exists>q\<in>ps. findProc q c = Some b}"
    and "heap (destroy_front c) x = (if x = a then None
      else if \<exists>q\<in>ps. findProc q c = Some x then map_option (\<lambda>rp. rp\<lparr>dead := True\<rparr>) (heap c x) else heap c x)"
    and "queue (destroy_front c) = queue c @ map (\<lambda>d. \<lparr>ti_pid = sa_pid d, ti_resume = None,
      ti_message = Some (d, MPid (rp_pid rp))\<rparr>) (notifyOnDie (rp_process rp))"
proof -
  let ?c1 = "c\<lparr>toDestroy := rest\<rparr>"
  let ?c2 = "fold (\<lambda>q. addtoDestroy q s) (killOnDie (rp_process rp)) ?c1"
  let ?c3 = "fold (\<lambda>d. queueSend d (MPid (rp_pid rp))) (notifyOnDie (rp_process rp)) ?c2"
  have d: "destroy_front c = delete_process a ?c3"
    using td rp by (simp add: destroy_front_def destroy_def Let_def)
  have o: "owned_by {} c" using ok by (simp add: table_ok_iff)
  have o1: "owned_by {a} ?c1" using owned_by_pop [OF o td] .
  have f1: "findProc q ?c1 = findProc q c" for q by (rule findProc_cong) simp_all
  have k: "kills ps ?c1 ?c2" unfolding ps_def using o1 by (rule kills_fold)
  have o': "owned_by {} (destroy_front c)" using o by (rule owned_by_destroy_front)
  have heap: "heap (destroy_front c) x = (if x = a then None
      else if \<exists>q\<in>ps. findProc q c = Some x then map_option (\<lambda>rp. rp\<lparr>dead := True\<rparr>) (heap c x) else heap c x)" for x
    using k unfolding d kills_def by (auto simp: delete_process_def fold_queueSend_fields f1)
  then show "heap (destroy_front c) x = (if x = a then None
      else if \<exists>q\<in>ps. findProc q c = Some x then map_option (\<lambda>rp. rp\<lparr>dead := True\<rparr>) (heap c x) else heap c x)" .
  show "fst ` set (toDestroy (destroy_front c)) = fst ` set rest \<union> {b. \<exists>q\<in>ps. findProc q c = Some b}"
    using k unfolding d kills_def by (auto simp: delete_process_def fold_queueSend_fields f1)
  show "queue (destroy_front c) = queue c @ map (\<lambda>d. \<lparr>ti_pid = sa_pid d, ti_resume = None,
      ti_message = Some (d, MPid (rp_pid rp))\<rparr>) (notifyOnDie (rp_process rp))"
    unfolding d by (simp add: delete_process_def fold_queueSend_fields queue_fold_addtoDestroy)
  have dead: "dead rp" using owned_byD(4) [OF o, of a] td rp by auto
  show "findProc q (destroy_front c) = Some b \<longleftrightarrow> findProc q c = Some b \<and> q \<notin> ps"
    unfolding findProc_iff [OF o'] heap
  proof (cases "heap c b")
    case (Some rpb)
    have "(\<exists>q\<in>ps. findProc q c = Some b) \<longleftrightarrow> \<not> dead rpb \<and> rp_pid rpb \<in> ps"
      using Some findProc_iff [OF o] by auto
    then show "(\<exists>rpa. (if b = a then None else if \<exists>q\<in>ps. findProc q c = Some b then map_option (\<lambda>rp. rp\<lparr>dead := True\<rparr>) (heap c b)
        else heap c b) = Some rpa \<and> \<not> dead rpa \<and> rp_pid rpa = q) \<longleftrightarrow> findProc q c = Some b \<and> q \<notin> ps"
      using Some dead rp findProc_iff [OF o, of q b] by auto
  qed (use findProc_iff [OF o, of q b] in auto)
qed

lemma destroy_front_process:
  assumes "table_ok c" and "toDestroy c = (a, s) # rest" and "heap c a = Some rp" and "heap (destroy_front c) x = Some rp'"
  shows "\<exists>rpx. heap c x = Some rpx \<and> rp_process rp' = rp_process rpx"
  using assms(4) by (auto simp: destroy_front_effect(3) [OF assms(1-3)] split: if_splits)

lemma doomed_in_list: "x \<in> fst ` set (toDestroy c) \<Longrightarrow> doomed c x"
  by (auto intro: doomed.listed)

text \<open>Destroying the first process dooms no other process, and every doomed process but this one stays doomed.\<close>

lemma doomed_front_only:
  assumes ok: "table_ok c" and td: "toDestroy c = (a, s) # rest" and rp: "heap c a = Some rp" and "doomed (destroy_front c) b"
  shows "doomed c b"
proof -
  note eff = destroy_front_effect [OF ok td rp]
  have a: "doomed c a" by (rule doomed.listed [of a s]) (simp add: td)
  show ?thesis using assms(4)
  proof (induction rule: doomed.induct)
    case (listed x u)
    then have "x \<in> fst ` set (toDestroy (destroy_front c))" by force
    then have "(\<exists>u. (x, u) \<in> set (toDestroy c)) \<or> (\<exists>q\<in>set (killOnDie (rp_process rp)). findProc q c = Some x)"
      unfolding eff(2) using td by auto
    then show ?case using a rp by (blast intro: doomed.intros)
  next
    case (linked x rp' q y)
    then obtain rpx where "heap c x = Some rpx" "rp_process rp' = rp_process rpx"
      using destroy_front_process [OF ok td rp] by blast
    with linked show ?case by (auto simp: eff(1) intro: doomed.linked)
  qed
qed

lemma doomed_front_stays:
  assumes ok: "table_ok c" and td: "toDestroy c = (a, s) # rest" and rp: "heap c a = Some rp" and "doomed c b"
  shows "b = a \<or> doomed (destroy_front c) b"
proof -
  note eff = destroy_front_effect [OF ok td rp]
  have o: "owned_by {} c" using ok by (simp add: table_ok_iff)
  have dead: "dead rp" using owned_byD(4) [OF o, of a] td rp by auto
  show ?thesis using assms(4)
  proof (induction rule: doomed.induct)
    case (listed x u)
    then have "x = a \<or> x \<in> fst ` set rest" using td by force
    then show ?case using eff(2) doomed_in_list [of x "destroy_front c"] by blast
  next
    case (linked x rpx q y)
    have "y \<noteq> a" using linked.hyps(4) findProc_iff [OF o] rp dead by auto
    show ?case
    proof (cases "\<exists>q\<in>set (killOnDie (rp_process rp)). findProc q c = Some y")
      case True
      then show ?thesis using eff(2) by (auto intro!: doomed_in_list)
    next
      case False
      then have "x \<noteq> a" using linked.hyps(2,3,4) rp by auto
      with linked.IH have dx: "doomed (destroy_front c) x" by simp
      have "heap (destroy_front c) x \<noteq> None" using \<open>x \<noteq> a\<close> linked.hyps(2) by (simp add: eff(3))
      then obtain rp' where rp': "heap (destroy_front c) x = Some rp'" by auto
      with destroy_front_process [OF ok td rp] linked.hyps(2) have "rp_process rp' = rp_process rpx" by fastforce
      moreover have "findProc q (destroy_front c) = Some y" using linked.hyps(4) False eff(1) by auto
      ultimately show ?thesis using dx rp' linked.hyps(3) by (auto intro: doomed.linked)
    qed
  qed
qed

lemmas doomed_front = doomed_front_only doomed_front_stays

lemma toDestroy_object:
  assumes "table_ok c" and "toDestroy c = (a, s) # rest"
  obtains rp where "heap c a = Some rp"
  using assms owned_byD(4) [of "{}" c a] by (auto simp: table_ok_iff)

lemma doomed_nonempty: "doomed c b \<Longrightarrow> toDestroy c \<noteq> []"
  by (induction rule: doomed.induct) auto

lemma not_doomed_empty: "toDestroy c = [] \<Longrightarrow> \<not> doomed c b"
  using doomed_nonempty by blast

lemma destroy_all_heap:
  "table_ok c \<Longrightarrow> heap (destroy_all c) b = (if doomed c b then None else heap c b)"
proof (induction c rule: destroy_all.induct)
  case (1 c)
  show ?case
  proof (cases "toDestroy c")
    case Nil
    then show ?thesis by (simp add: destroy_all.simps [of c] not_doomed_empty)
  next
    case (Cons e rest)
    then obtain a s where td: "toDestroy c = (a, s) # rest" by (cases e) simp
    obtain rp where rp: "heap c a = Some rp" using "1.prems" td by (rule toDestroy_object)
    note eff = destroy_front_effect(3) [OF "1.prems" td rp, of b]
      and dm = doomed_front [OF "1.prems" td rp, of b]
    have a: "doomed c a" by (rule doomed.listed [of a s]) (simp add: td)
    have killed: "doomed c b" if "\<exists>q\<in>set (killOnDie (rp_process rp)). findProc q c = Some b"
      using that doomed.linked [OF a rp] by blast
    have "destroy_all c = destroy_all (destroy_front c)" using td by (subst destroy_all.simps) simp
    then show ?thesis
      using "1.IH" [OF _ table_ok_destroy [OF "1.prems"]] td eff dm killed a by auto
  qed
qed

lemma queue_destroy_all: "table_ok c \<Longrightarrow> set (queue c) \<subseteq> set (queue (destroy_all c))"
proof (induction c rule: destroy_all.induct)
  case (1 c)
  show ?case
  proof (cases "toDestroy c")
    case Nil
    then show ?thesis by (simp add: destroy_all.simps [of c])
  next
    case (Cons e rest)
    then obtain a s where td: "toDestroy c = (a, s) # rest" by (cases e) simp
    obtain rp where rp: "heap c a = Some rp" using "1.prems" td by (rule toDestroy_object)
    have "set (queue c) \<subseteq> set (queue (destroy_front c))"
      using destroy_front_effect(4) [OF "1.prems" td rp] by auto
    with "1.IH" [OF _ table_ok_destroy [OF "1.prems"]] td show ?thesis
      by (subst destroy_all.simps) auto
  qed
qed

lemma destroy_all_notifies:
  "table_ok c \<Longrightarrow> doomed c b \<Longrightarrow> heap c b = Some rp \<Longrightarrow> t \<in> set (notifyOnDie (rp_process rp)) \<Longrightarrow>
   \<lparr>ti_pid = sa_pid t, ti_resume = None, ti_message = Some (t, MPid (rp_pid rp))\<rparr> \<in> set (queue (destroy_all c))"
proof (induction c arbitrary: rp rule: destroy_all.induct)
  case (1 c)
  obtain a s rest where td: "toDestroy c = (a, s) # rest"
    using "1.prems"(2) not_doomed_empty [of c b] by (cases "toDestroy c") auto
  obtain rpa where rpa: "heap c a = Some rpa" using "1.prems"(1) td by (rule toDestroy_object)
  note ok = table_ok_destroy [OF "1.prems"(1)] and eff = destroy_front_effect [OF "1.prems"(1) td rpa]
  have da: "destroy_all c = destroy_all (destroy_front c)" using td by (subst destroy_all.simps) simp
  show ?case
  proof (cases "b = a")
    case True
    then have "\<lparr>ti_pid = sa_pid t, ti_resume = None, ti_message = Some (t, MPid (rp_pid rp))\<rparr>
        \<in> set (queue (destroy_front c))"
      using eff(4) "1.prems"(3,4) rpa by auto
    then show ?thesis using queue_destroy_all [OF ok] da by auto
  next
    case False
    then have d: "doomed (destroy_front c) b" using doomed_front(2) [OF "1.prems"(1) td rpa] "1.prems"(2) by blast
    obtain rp' where rp': "heap (destroy_front c) b = Some rp'" "rp_process rp' = rp_process rp" "rp_pid rp' = rp_pid rp"
      using eff(3) [of b] False "1.prems"(3) by (auto split: if_splits)
    from "1.IH" [OF _ ok d rp'(1)] rp' "1.prems"(4) td da show ?thesis by simp
  qed
qed

section \<open>Properties\<close>

text \<open>C2: The destruction loop of \<open>run\<close> ends with exactly the right processes gone: an object is
  destroyed if and only if it was on the list or is linked (\<open>killOnDie\<close>) to one that is destroyed;
  every other object is left unchanged.\<close>

theorem destroy_loop_exact:
  assumes "table_ok c"
  shows "toDestroy (destroy_all c) = [] \<and> heap (destroy_all c) b = (if doomed c b then None else heap c b)"
  using destroy_all_heap [OF assms] destroy_all_done by blast

lemma demo_mid_ok: "table_ok demo_mid" "doomed demo_mid 0"
proof -
  have "keeps table_ok (processQueueItem 1 demo_prog \<lparr>ti_pid = demo_pid, ti_resume = Some 0, ti_message = None\<rparr>
      (demo_c1\<lparr>queue := []\<rparr>))"
    by (rule table.sched.processQueueItem_keeps [OF _ reachable_table_ok [OF demo_any(1)]])
      (simp_all add: demo_c1_def)
  then show "table_ok demo_mid" unfolding demo_item by simp
  show "doomed demo_mid 0" by (rule doomed.listed [of _ "''''"]) (simp add: demo_mid_def)
qed

theorem destroy_loop_exact_witness: "heap (destroy_all demo_mid) 0 = None \<and> doomed demo_mid 0"
  using destroy_loop_exact [OF demo_mid_ok(1), of 0] demo_mid_ok(2) by simp

text \<open>C18: Nobody who asked to be told of a death is forgotten: for every process that the destruction
  loop destroys and every address in its \<open>notifyOnDie\<close>, the message with the identifier of the dead
  process is in the work queue when the loop ends.\<close>

theorem death_is_notified:
  assumes "table_ok c" and "doomed c b" and "heap c b = Some rp" and "t \<in> set (notifyOnDie (rp_process rp))"
  shows "\<lparr>ti_pid = sa_pid t, ti_resume = None, ti_message = Some (t, MPid (rp_pid rp))\<rparr> \<in> set (queue (destroy_all c))"
  using assms by (rule destroy_all_notifies)

text \<open>A process with a supervisor that is told of its death.\<close>

definition notify_mid :: "(nat, nat) Context" where
  "notify_mid = demo_mid\<lparr>heap := (\<lambda>_. None)(0 \<mapsto> demo_rp\<lparr>dead := True,
     rp_process := (rp_process demo_rp)\<lparr>notifyOnDie := [\<lparr>sa_pid = demo_pid, sa_slot = 7\<rparr>]\<rparr>\<rparr>)\<rparr>"

theorem death_is_notified_witness:
  "\<lparr>ti_pid = demo_pid, ti_resume = None,
     ti_message = Some (\<lparr>sa_pid = demo_pid, sa_slot = 7\<rparr>, MPid demo_pid)\<rparr> \<in> set (queue (destroy_all notify_mid))"
proof -
  let ?rp = "demo_rp\<lparr>dead := True, rp_process := (rp_process demo_rp)\<lparr>notifyOnDie := [\<lparr>sa_pid = demo_pid, sa_slot = 7\<rparr>]\<rparr>\<rparr>"
  have h: "heap notify_mid 0 = Some ?rp" by (simp add: notify_mid_def)
  have "same_table demo_mid notify_mid"
    by (simp add: same_table_def notify_mid_def demo_mid_def same_proc_def)
  then have ok: "table_ok notify_mid" by (rule table_ok_frame [OF demo_mid_ok(1)])
  have "doomed notify_mid 0"
    by (rule doomed.listed [of _ "''''"]) (simp add: notify_mid_def demo_mid_def)
  from death_is_notified [OF ok this h, of "\<lparr>sa_pid = demo_pid, sa_slot = 7\<rparr>"] show ?thesis
    by (simp add: demo_rp_def)
qed

end
