(* ===== verification/Links.thy ===== *)
theory Links
  imports Death
begin

text \<open>
  What linking promises (\<open>addKillOnDie\<close>, \<open>spawnLink\<close>): a process whose identifier is in the
  \<open>killOnDie\<close> list of another is destroyed with it and so never outlives it.
\<close>

section \<open>Guarded identifiers\<close>

text \<open>
  \<open>leashed a own p c\<close>: the object at \<open>a\<close>, as long as it exists, is that of the process \<open>own\<close> and has
  \<open>p\<close> in its list, and a process
  \<open>p\<close> is in the table only as long as that object exists.
\<close>

definition leashed :: "addr \<Rightarrow> Pid \<Rightarrow> Pid \<Rightarrow> ('st, 'm) Context \<Rightarrow> bool" where
  "leashed a own p c \<longleftrightarrow> a < next_addr c
     \<and> (\<forall>rp. heap c a = Some rp \<longrightarrow> rp_pid rp = own \<and> p \<in> set (killOnDie (rp_process rp)))
     \<and> (findProc p c \<noteq> None \<longrightarrow> heap c a \<noteq> None)"

definition guarded :: "addr \<Rightarrow> Pid \<Rightarrow> Pid \<Rightarrow> ('st, 'm) Context \<Rightarrow> bool" where
  "guarded a own p c \<longleftrightarrow> pid_bounded (\<le>) p c \<and> (next_addr c < 2 ^ 64 \<longrightarrow> leashed a own p c)"

lemma leashed_frame: "same_table c c' \<Longrightarrow> leashed a own p c \<Longrightarrow> leashed a own p c'"
  using same_table_heap(1,3) [of c c' a] findProc_same_table [of c c' p]
  by (fastforce simp: leashed_def same_table_def same_proc_def)

lemma heap_addtoDestroy:
  assumes "owned_by X c"
  shows "heap (addtoDestroy q s c) a = (if findProc q c = Some a then map_option (\<lambda>rp. rp\<lparr>dead := True\<rparr>) (heap c a) else heap c a)"
  using kills_one [OF assms, of q s] unfolding kills_def by simp

lemma leashed_kill:
  assumes "owned_by X c" and "leashed a own p c"
  shows "leashed a own p (addtoDestroy q s c)"
proof -
  have "findProc p (addtoDestroy q s c) = Some b \<Longrightarrow> findProc p c = Some b" for b
    using kills_one [OF assms(1), of q s] unfolding kills_def by blast
  then show ?thesis
    using assms(2) heap_addtoDestroy [OF assms(1), of q s a] versions_kill(1) [OF assms(1), of q s]
    by (auto simp: leashed_def split: if_splits)
qed

text \<open>When the object at \<open>a\<close> is destroyed, \<open>p\<close> is taken out of the table before.\<close>

lemma leashed_destroy:
  assumes ok: "table_ok c" and l: "leashed a own p c"
  shows "leashed a own p (destroy_front c)"
proof (cases "toDestroy c")
  case Nil
  with l show ?thesis by (simp add: destroy_front_def)
next
  case (Cons e rest)
  then obtain b s where td: "toDestroy c = (b, s) # rest" by (cases e) simp
  obtain rp where rp: "heap c b = Some rp" using ok td by (rule toDestroy_object)
  note eff = destroy_front_effect [OF ok td rp]
  have "next_addr (destroy_front c) = next_addr c"
    using ok versions_destroy [of c "(\<le>)"] by (simp add: table_ok_iff)
  moreover have "rp_pid rp' = own \<and> p \<in> set (killOnDie (rp_process rp'))" if "heap (destroy_front c) a = Some rp'" for rp'
    using l that by (auto simp: leashed_def eff(3) split: if_splits)
  moreover have "heap (destroy_front c) a \<noteq> None" if "findProc p (destroy_front c) \<noteq> None"
  proof -
    from that obtain x where "findProc p c = Some x" "p \<notin> set (killOnDie (rp_process rp))" using eff(1) by blast
    then show ?thesis using l rp by (auto simp: leashed_def eff(3))
  qed
  ultimately show ?thesis using l by (auto simp: leashed_def)
qed

text \<open>A spawn neither touches the object at \<open>a\<close> nor hands out \<open>p\<close> again.\<close>

lemma leashed_spawned:
  assumes g: "guarded a own p c" and n: "nextPid c = Ret q c1" and lt: "next_addr c < 2 ^ 64"
    and st: "same_table (c1\<lparr>next_addr := Suc (next_addr c1)\<rparr>) c2"
  shows "leashed a own p c2"
    and "rp_pid rp = q \<Longrightarrow> \<not> dead rp \<Longrightarrow> pr_pid (rp_process rp) = q \<Longrightarrow>
      leashed a own p (add_process q (next_addr c1) rp c2)"
proof -
  have ok: "table_ok c" and l: "leashed a own p c" and b: "versions_ok c" "bounded (\<le>) p c"
    using g lt by (simp_all add: guarded_def pid_bounded_def)
  then have t: "tombs_ok c" and o: "owned_by {} c" by (simp_all add: table_ok_iff)
  note i = nextPid_idx [OF t n] nextPid_table [OF n]
  have new: "p \<noteq> q" using nextPid_version(3) [OF t b(1) n lt b(2)] by auto
  let ?c1 = "c1\<lparr>next_addr := Suc (next_addr c1)\<rparr>"
  have o1: "owned_by {} ?c1" using owned_by_nextPid [OF o t n] .
  have "findProc p ?c1 = Some x \<longleftrightarrow> findProc p c = Some x" for x
    using findProc_iff [OF o1] findProc_iff [OF o] i(5) by simp
  then have f: "findProc p ?c1 = findProc p c" by (metis option.exhaust)
  have "leashed a own p ?c1" using l f i(5,7) by (simp add: leashed_def)
  then show l2: "leashed a own p c2" by (rule leashed_frame [OF st])
  assume rp: "rp_pid rp = q" "\<not> dead rp" "pr_pid (rp_process rp) = q"
  have o3: "owned_by {} (add_process q (next_addr c1) rp c2)"
    using table_ok_spawned(1) [OF ok n st rp] by (simp add: table_ok_iff)
  have o2: "owned_by {} c2" using table_ok_started(1) [OF ok n st] by (simp add: table_ok_iff)
  have "findProc p (add_process q (next_addr c1) rp c2) = Some x \<Longrightarrow> findProc p c2 = Some x" for x
    using findProc_iff [OF o3, of p x] findProc_iff [OF o2, of p x] rp new
    by (cases "x = next_addr c1") (auto simp: add_process_def)
  then show "leashed a own p (add_process q (next_addr c1) rp c2)"
    using l2 l i(7) by (auto simp: leashed_def add_process_def)
qed

interpretation leash: table_preserved any_spec "guarded a own p" for a own p
proof
  fix c c1 c2 :: "('st, 'm) Context" and q s rp
    and sp :: "('st, 'm) SpawnSpec"
  have ok: "guarded a own p c \<Longrightarrow> table_ok c" by (simp add: guarded_def pid_bounded_def)
  then show "guarded a own p c \<Longrightarrow> table_ok c" .
  have o: "guarded a own p c \<Longrightarrow> owned_by {} c" using ok by (simp add: table_ok_iff)
  show "guarded a own p c \<Longrightarrow> same_table c c2 \<Longrightarrow> guarded a own p c2"
    using upto.T_frame [of p c c2] leashed_frame [of c c2 a own p] by (auto simp: guarded_def same_table_def)
  show "guarded a own p c \<Longrightarrow> guarded a own p (addtoDestroy q s c)"
    using upto.T_kill [of p c q s] leashed_kill [OF o, of a own p q s] versions_kill(1) [OF o, where q = q and s = s]
    by (simp add: guarded_def)
  show "guarded a own p c \<Longrightarrow> guarded a own p (destroy_front c)"
    using upto.T_destroy [of p c] leashed_destroy [OF ok, of a own p] versions_destroy [OF o, where R = "(\<le>)"]
    by (simp add: guarded_def)
  assume g: "guarded a own p c" and n: "nextPid c = Ret q c1"
    and st: "same_table (c1\<lparr>next_addr := Suc (next_addr c1)\<rparr>) c2"
  have na: "next_addr c2 = Suc (next_addr c)"
    using st nextPid_table(3) [OF n] ok [OF g] by (simp add: same_table_def table_ok_iff)
  have u: "pid_bounded (\<le>) p c" using g by (simp add: guarded_def)
  show "may_throw sp \<Longrightarrow> guarded a own p c2"
    using upto.T_leak [OF u n st, of sp] na leashed_spawned(1) [OF g n _ st] by (simp add: guarded_def)
  show "rp_pid rp = q \<Longrightarrow> \<not> dead rp \<Longrightarrow> pr_pid (rp_process rp) = q \<Longrightarrow>
      guarded a own p (add_process q (next_addr c1) rp c2)"
    using upto.T_spawn [OF u n st, of rp] na leashed_spawned(2) [OF g n _ st, of rp]
    by (simp add: guarded_def) (simp add: add_process_def)
qed

text \<open>Killing a process and destroying what is to be destroyed leaves none of those linked to it.\<close>

lemma killed_with_links:
  assumes ok: "table_ok c" and f: "findProc own c = Some a" and h: "heap c a = Some rp"
    and c': "c' = addtoDestroy own s c"
  shows "toDestroy c' = toDestroy c @ [(a, s)]" and "heap (destroy_all c') a = None"
    and "q \<in> set (killOnDie (rp_process rp)) \<Longrightarrow> findProc q (destroy_all c') = None"
proof -
  have o: "owned_by {} c" and ok': "table_ok c'" using ok table_ok_kill by (auto simp: table_ok_iff c')
  then have o': "owned_by {} c'" by (simp add: table_ok_iff)
  show td: "toDestroy c' = toDestroy c @ [(a, s)]" using f by (simp add: c' addtoDestroy_def)
  have d: "doomed c' a" by (rule doomed.listed [of a s]) (simp add: td)
  then show g: "heap (destroy_all c') a = None" using destroy_all_heap [OF ok'] by simp
  assume q: "q \<in> set (killOnDie (rp_process rp))"
  have h': "heap c' a = Some (rp\<lparr>dead := True\<rparr>)" using heap_addtoDestroy [OF o, of own s a] f h by (simp add: c')
  have "owned_by {} (destroy_all c')" using table.sched.destroy_all_keeps [OF ok'] by (simp add: table_ok_iff)
  then have "\<exists>rpb. heap (destroy_all c') b = Some rpb \<and> \<not> dead rpb \<and> rp_pid rpb = q" if "findProc q (destroy_all c') = Some b" for b
    using that findProc_iff by blast
  then have "findProc q c' = Some b \<and> \<not> doomed c' b" if "findProc q (destroy_all c') = Some b" for b
    using that findProc_iff [OF o', of q b] destroy_all_heap [OF ok', of b] by (auto split: if_splits)
  then show "findProc q (destroy_all c') = None"
    using doomed.linked [OF d h', of q] q by (cases "findProc q (destroy_all c')") auto
qed

section \<open>Properties\<close>

lemma guarded_start:
  assumes "versions_inv c" and "heap c a = Some rp" and "p \<in> set (killOnDie (rp_process rp))" and "findProc p c = Some b"
  shows "guarded a (rp_pid rp) p c"
  using assms found_bounded [OF assms(1,4)] heap_below [of c a rp]
  by (auto simp: guarded_def leashed_def versions_inv_def)

lemma guarded_alive:
  assumes "guarded a own p c" and "toDestroy c = []" and "next_addr c < 2 ^ 64" and "findProc p c \<noteq> None"
  shows "findProc own c = Some a"
proof -
  have o: "owned_by {} c" and l: "leashed a own p c"
    using assms(1,3) by (simp_all add: guarded_def pid_bounded_def table_ok_iff)
  then obtain rp where rp: "heap c a = Some rp" "rp_pid rp = own" using assms(4) by (auto simp: leashed_def)
  have "Some a \<in> set (processes c)" using o rp(1) assms(2) by (auto simp: owned_by_def)
  then have "\<not> dead rp" using owned_byD(1) [OF o] rp(1) by (metis in_set_conv_nth option.inject)
  then show ?thesis using rp findProc_iff [OF o] by blast
qed

text \<open>C7: A linked process never outlives the one it is linked to: when a process has the identifier of
  another in its \<open>killOnDie\<close> list (from \<open>spawnLink\<close>, \<open>link\<close> or \<open>addKillOnDie\<close>) and both are alive, then
  in every later state of the run in which the other is still alive, the first is alive too, whatever the
  processes and the io service do, as long as fewer than \<open>2^64\<close> processes have been created.\<close>

theorem linked_never_outlives:
  assumes "reachable any_spec P c" and "heap c a = Some rp" and "p \<in> set (killOnDie (rp_process rp))"
    and "findProc p c = Some b" and "run_steps any_spec P c c'" and "next_addr c' < 2 ^ 64" and "findProc p c' \<noteq> None"
  shows "findProc (rp_pid rp) c' = Some a"
proof -
  have "versions_inv c" by (rule versions.sched.reachable_keeps [OF assms(1)]) simp
  then have "guarded a (rp_pid rp) p c" using assms(2-4) by (rule guarded_start)
  then have g: "guarded a (rp_pid rp) p c'" by (rule leash.sched.run_steps_keeps [OF assms(5), rotated]) simp
  have "toDestroy c' = []" by (rule reachable_toDestroy [OF reachable_run_steps [OF assms(5,1)]])
  then show ?thesis using g assms(6,7) by (blast intro: guarded_alive)
qed

text \<open>Two processes, the second linked to the first by its constructor.\<close>

definition link_pid :: Pid where
  "link_pid = \<lparr>idx = 1, version = 0\<rparr>"

definition link_c2 :: "(nat, nat) Context" where
  "link_c2 = demo_c1\<lparr>
     heap := (\<lambda>_. None)(0 \<mapsto> demo_rp\<lparr>rp_process := (rp_process demo_rp)\<lparr>killOnDie := [link_pid]\<rparr>\<rparr>,
       1 \<mapsto> demo_rp\<lparr>rp_pid := link_pid, rp_process := (rp_process demo_rp)\<lparr>pr_pid := link_pid, killOnDie := [demo_pid]\<rparr>\<rparr>),
     next_addr := 2, processes := [Some 0, Some 1],
     queue := queue demo_c1 @ [\<lparr>ti_pid = link_pid, ti_resume = Some 0, ti_message = None\<rparr>]\<rparr>"

lemma link_spawn: "spawn (demo_spec\<lparr>sp_links := [demo_pid]\<rparr>) demo_c1 = Ret link_pid link_c2"
  by (simp add: spawn_def nextPid_def demo_c1_def Context_init_def vector_max_size_def spawnArgs_def construct_def
      demo_spec_def ProcessArgs_init_def Process_init_def demo_pid_def link_pid_def link_c2_def demo_rp_def
      queueResume_def link_with_def findProc_def upd_proc_def addKillOnDie_def Let_def fun_upd_twist)

theorem linked_never_outlives_witness:
  "reachable any_spec demo_prog link_c2 \<and> findProc link_pid link_c2 = Some 1 \<and> findProc demo_pid link_c2 = Some 0"
proof -
  let ?rp = "demo_rp\<lparr>rp_process := (rp_process demo_rp)\<lparr>killOnDie := [link_pid]\<rparr>\<rparr>"
  have r: "reachable any_spec demo_prog link_c2"
    by (rule reachable.spawned [OF demo_any(1) _ link_spawn]) simp
  have h: "heap link_c2 0 = Some ?rp" by (simp add: link_c2_def)
  have f: "findProc link_pid link_c2 = Some 1"
    by (simp add: findProc_def link_c2_def link_pid_def demo_rp_def)
  have "findProc (rp_pid ?rp) link_c2 = Some 0"
    by (rule linked_never_outlives [OF r h _ f run_steps.run_refl]) (simp_all add: f, simp add: link_c2_def)
  then show ?thesis using r f by (simp add: demo_rp_def)
qed

end
