(* ===== verification/Buffer.thy ===== *)
theory Buffer
  imports BaseTypes
begin

text \<open>
  \<open>eslang_io/Tcp.h\<close>: \<open>Buffer\<close> with its shared, reference counted storage, and \<open>BufferCollection\<close>.
  A \<open>Buff\<close> lives on a heap of its own, by address, until its last reference is released.
\<close>

section \<open>Buff\<close>

type_synonym byte = "8 word"

record Buff =
  bdata :: "byte list"
  refs :: "32 word"

record BuffHeap =
  buffs :: "nat \<Rightarrow> Buff option"
  next_buff :: nat

definition new_Buff :: "byte list \<Rightarrow> BuffHeap \<Rightarrow> nat \<times> BuffHeap" where
  "new_Buff d h =
     (next_buff h, h\<lparr>buffs := (buffs h)(next_buff h \<mapsto> \<lparr>bdata = d, refs = 0\<rparr>), next_buff := Suc (next_buff h)\<rparr>)"

text \<open>References to a \<open>Buff\<close> that is gone are undefined behaviour: \<open>None\<close>.\<close>

definition intrusive_ptr_add_ref :: "nat \<Rightarrow> BuffHeap \<Rightarrow> BuffHeap option" where
  "intrusive_ptr_add_ref p h =
     (case buffs h p of
        None \<Rightarrow> None
      | Some b \<Rightarrow> Some (h\<lparr>buffs := (buffs h)(p \<mapsto> b\<lparr>refs := refs b + 1\<rparr>)\<rparr>))"

definition intrusive_ptr_release :: "nat \<Rightarrow> BuffHeap \<Rightarrow> BuffHeap option" where
  "intrusive_ptr_release p h =
     (case buffs h p of
        None \<Rightarrow> None
      | Some b \<Rightarrow>
          let b = b\<lparr>refs := refs b - 1\<rparr> in
          Some (h\<lparr>buffs := (buffs h)(p := (if refs b = 0 then None else Some b))\<rparr>))"

text \<open>\<open>Buff::append\<close> has an empty body.\<close>

definition Buff_append :: "byte list \<Rightarrow> uint64 \<Rightarrow> Buff \<Rightarrow> Buff" where
  "Buff_append mem len b = b"

section \<open>Buffer\<close>

record Buffer =
  bufptr :: nat
  bufoffset :: uint64
  buflength :: uint64

definition Buffer_size :: "Buffer \<Rightarrow> uint64" where
  "Buffer_size b = buflength b"

text \<open>
  The private constructor takes the pointer by value (one more reference while the caller's own
  pointer still exists) and moves it into \<open>buffer_\<close>.
\<close>

definition Buffer_init :: "nat \<Rightarrow> BuffHeap \<Rightarrow> (Buffer \<times> BuffHeap) option" where
  "Buffer_init p h =
     (case intrusive_ptr_add_ref p h of
        None \<Rightarrow> None
      | Some h \<Rightarrow>
          (case buffs h p of
             None \<Rightarrow> None
           | Some b \<Rightarrow> Some (\<lparr>bufptr = p, bufoffset = 0, buflength = of_nat (length (bdata b))\<rparr>, h)))"

text \<open>\<open>make\<close> and \<open>makeCopy\<close>: a local pointer, the \<open>Buffer\<close>, and the end of the local pointer.\<close>

definition Buffer_make :: "byte list \<Rightarrow> BuffHeap \<Rightarrow> (Buffer \<times> BuffHeap) option" where
  "Buffer_make d h =
     (let (p, h) = new_Buff d h in
      case intrusive_ptr_add_ref p h of
        None \<Rightarrow> None
      | Some h \<Rightarrow>
          (case Buffer_init p h of
             None \<Rightarrow> None
           | Some (b, h) \<Rightarrow> map_option (Pair b) (intrusive_ptr_release p h)))"

definition Buffer_makeCopy :: "byte list \<Rightarrow> nat \<Rightarrow> BuffHeap \<Rightarrow> (Buffer \<times> BuffHeap) option" where
  "Buffer_makeCopy mem len h = (if len \<le> length mem then Buffer_make (take len mem) h else None)"

text \<open>The copy constructor and the destructor.\<close>

definition Buffer_copy :: "Buffer \<Rightarrow> BuffHeap \<Rightarrow> (Buffer \<times> BuffHeap) option" where
  "Buffer_copy b h = map_option (Pair b) (intrusive_ptr_add_ref (bufptr b) h)"

definition Buffer_destroy :: "Buffer \<Rightarrow> BuffHeap \<Rightarrow> BuffHeap option" where
  "Buffer_destroy b h = intrusive_ptr_release (bufptr b) h"

text \<open>\<open>consume\<close> asserts that enough is left: \<open>None\<close> is a failed assertion.\<close>

definition Buffer_consume :: "uint64 \<Rightarrow> Buffer \<Rightarrow> Buffer option" where
  "Buffer_consume n b =
     (if buflength b \<ge> n then Some (b\<lparr>buflength := buflength b - n, bufoffset := bufoffset b + n\<rparr>) else None)"

text \<open>The bytes \<open>[data(), data() + size())\<close>; \<open>None\<close> when they are not all inside the storage.\<close>

definition Buffer_bytes :: "BuffHeap \<Rightarrow> Buffer \<Rightarrow> byte list option" where
  "Buffer_bytes h b =
     (case buffs h (bufptr b) of
        None \<Rightarrow> None
      | Some bf \<Rightarrow>
          if unat (bufoffset b) + unat (buflength b) \<le> length (bdata bf)
          then Some (take (unat (buflength b)) (drop (unat (bufoffset b)) (bdata bf))) else None)"

definition Buffer_append :: "Buffer \<Rightarrow> Buffer \<Rightarrow> BuffHeap \<Rightarrow> (Buffer \<times> BuffHeap) option" where
  "Buffer_append b c h =
     (case (buffs h (bufptr b), buffs h (bufptr c)) of
        (Some bf, Some cf) \<Rightarrow>
          Some (b\<lparr>buflength := buflength b + Buffer_size c\<rparr>,
                h\<lparr>buffs := (buffs h)(bufptr b \<mapsto>
                     Buff_append (drop (unat (bufoffset c)) (bdata cf)) (Buffer_size c) bf)\<rparr>)
      | _ \<Rightarrow> None)"

section \<open>BufferCollection\<close>

type_synonym BufferCollection = "Buffer list"

text \<open>
  \<open>combine\<close>: the sum of the sizes in \<open>size_t\<close> arithmetic, which is reserved (a vector of bytes holds
  at most \<open>2^63 - 1\<close>), then the bytes one after the other.
\<close>

definition byte_vector_max :: nat where
  "byte_vector_max = 2 ^ 63 - 1"

definition total_size :: "BufferCollection \<Rightarrow> uint64" where
  "total_size bs = fold (\<lambda>b acc. acc + Buffer_size b) bs 0"

primrec insert_all :: "BuffHeap \<Rightarrow> BufferCollection \<Rightarrow> byte list \<Rightarrow> byte list option" where
  "insert_all h [] v = Some v"
| "insert_all h (b # bs) v =
     (case Buffer_bytes h b of None \<Rightarrow> None | Some d \<Rightarrow> insert_all h bs (v @ d))"

definition combine :: "BufferCollection \<Rightarrow> BuffHeap \<Rightarrow> (Buffer, BuffHeap) res" where
  "combine bs h =
     (if unat (total_size bs) > byte_vector_max then Throw ''vector::reserve'' h
      else case insert_all h bs [] of
             None \<Rightarrow> Undef UseAfterFree
           | Some v \<Rightarrow>
               if length v > byte_vector_max then Throw ''vector::_M_range_insert'' h
               else (case Buffer_make v h of None \<Rightarrow> Undef UseAfterFree | Some (b, h) \<Rightarrow> Ret b h))"

section \<open>Facts on the heap\<close>

text \<open>Fresh addresses are free, and storage is a vector of bytes.\<close>

definition heap_ok :: "BuffHeap \<Rightarrow> bool" where
  "heap_ok h \<longleftrightarrow> (\<forall>p\<ge>next_buff h. buffs h p = None) \<and> (\<forall>p bf. buffs h p = Some bf \<longrightarrow> length (bdata bf) \<le> byte_vector_max)"

definition empty_heap :: BuffHeap where
  "empty_heap = \<lparr>buffs = (\<lambda>_. None), next_buff = 0\<rparr>"

lemma heap_ok_empty: "heap_ok empty_heap"
  by (simp add: heap_ok_def empty_heap_def)

lemma Buffer_make_eq:
  "Buffer_make d h = Some (\<lparr>bufptr = next_buff h, bufoffset = 0, buflength = of_nat (length d)\<rparr>,
     h\<lparr>buffs := (buffs h)(next_buff h \<mapsto> \<lparr>bdata = d, refs = 1\<rparr>), next_buff := Suc (next_buff h)\<rparr>)"
  by (simp add: Buffer_make_def new_Buff_def Let_def intrusive_ptr_add_ref_def Buffer_init_def intrusive_ptr_release_def)

lemma heap_ok_make: "heap_ok h \<Longrightarrow> length d \<le> byte_vector_max \<Longrightarrow> Buffer_make d h = Some (b, h') \<Longrightarrow> heap_ok h'"
  by (auto simp: Buffer_make_eq heap_ok_def split: if_splits)

lemma Buffer_make_frame:
  assumes "heap_ok h" and "Buffer_make d h = Some (b, h')" and "buffs h (bufptr c) \<noteq> None"
  shows "Buffer_bytes h' c = Buffer_bytes h c"
proof -
  have "bufptr c \<noteq> next_buff h" using assms(1,3) by (metis heap_ok_def order_refl)
  then show ?thesis using assms(2) by (auto simp: Buffer_make_eq Buffer_bytes_def)
qed

lemma unat_vector_size: "n \<le> byte_vector_max \<Longrightarrow> unat (of_nat n :: uint64) = n"
  by (simp add: unat_of_nat byte_vector_max_def)

lemma Buffer_bytes_length: "Buffer_bytes h b = Some d \<Longrightarrow> length d = unat (Buffer_size b)"
  by (auto simp: Buffer_bytes_def Buffer_size_def split: option.splits if_splits)

text \<open>C36: A buffer made from bytes reads back exactly these bytes, for every length a vector can have,
  and making it changes no other buffer.\<close>

theorem make_bytes_roundtrip:
  assumes "length d \<le> byte_vector_max" and "heap_ok h"
  shows "\<exists>b h'. Buffer_make d h = Some (b, h') \<and> Buffer_bytes h' b = Some d \<and> unat (Buffer_size b) = length d
    \<and> heap_ok h' \<and> (\<forall>c. buffs h (bufptr c) \<noteq> None \<longrightarrow> Buffer_bytes h' c = Buffer_bytes h c)"
proof -
  obtain b h' where m: "Buffer_make d h = Some (b, h')" by (simp add: Buffer_make_eq)
  have "buffs h (bufptr c) \<noteq> None \<longrightarrow> Buffer_bytes h' c = Buffer_bytes h c" for c
    using Buffer_make_frame [OF assms(2) m] by blast
  moreover have "Buffer_bytes h' b = Some d" "unat (Buffer_size b) = length d"
    using m unat_vector_size [OF assms(1)] by (auto simp: Buffer_make_eq Buffer_bytes_def Buffer_size_def)
  ultimately show ?thesis using m heap_ok_make [OF assms(2,1) m] by blast
qed

theorem make_bytes_roundtrip_witness:
  "\<exists>b h'. Buffer_make [1, 2, 3] empty_heap = Some (b, h') \<and> Buffer_bytes h' b = Some [1, 2, 3]"
  using make_bytes_roundtrip [OF _ heap_ok_empty, of "[1, 2, 3]"] by (auto simp: byte_vector_max_def)

lemma unat_add_vector:
  "unat a + unat b \<le> byte_vector_max \<Longrightarrow> unat (a + b) = unat a + unat (b :: uint64)"
  by (simp add: byte_vector_max_def unat_word_ariths(1))

text \<open>\<open>consume\<close> drops the first bytes of a buffer and nothing else; when it is asked for more bytes
  than are left, the assertion fails.\<close>

theorem consume_drops_prefix:
  assumes "heap_ok h" and "Buffer_bytes h b = Some d"
  shows "(Buffer_consume n b = None \<longleftrightarrow> length d < unat n)
    \<and> (\<forall>b'. Buffer_consume n b = Some b' \<longrightarrow> Buffer_bytes h b' = Some (drop (unat n) d))"
proof -
  have l: "length d = unat (buflength b)" using Buffer_bytes_length [OF assms(2)] by (simp add: Buffer_size_def)
  obtain bf where bf: "buffs h (bufptr b) = Some bf" "unat (bufoffset b) + unat (buflength b) \<le> length (bdata bf)"
      "d = take (unat (buflength b)) (drop (unat (bufoffset b)) (bdata bf))"
    using assms(2) by (auto simp: Buffer_bytes_def split: option.splits if_splits)
  have "length (bdata bf) \<le> byte_vector_max" using assms(1) bf(1) by (auto simp: heap_ok_def)
  then have o: "unat n \<le> unat (buflength b) \<Longrightarrow> unat (bufoffset b + n) = unat (bufoffset b) + unat n"
    using bf(2) by (intro unat_add_vector) simp
  have s: "unat n \<le> unat (buflength b) \<Longrightarrow> unat (buflength b - n) = unat (buflength b) - unat n"
    by (simp add: unat_sub word_le_nat_alt)
  show ?thesis
    using l bf o s by (auto simp: Buffer_consume_def Buffer_bytes_def word_le_nat_alt drop_take add.commute)
qed

theorem consume_drops_prefix_witness:
  "\<exists>b h b'. Buffer_make [1, 2, 3] empty_heap = Some (b, h) \<and> Buffer_consume 2 b = Some b' \<and> Buffer_bytes h b' = Some [3]"
proof -
  obtain b h where m: "Buffer_make [1, 2, 3] empty_heap = Some (b, h)" by (simp add: Buffer_make_eq)
  have ok: "heap_ok h" by (rule heap_ok_make [OF heap_ok_empty _ m]) (simp add: byte_vector_max_def)
  have b: "Buffer_bytes h b = Some [1, 2, 3]" using m by (auto simp: Buffer_make_eq Buffer_bytes_def)
  obtain b' where "Buffer_consume 2 b = Some b'" using m by (auto simp: Buffer_make_eq Buffer_consume_def)
  with consume_drops_prefix [OF ok b, of 2] m show ?thesis by auto
qed

section \<open>combine\<close>

lemma insert_all_eq:
  "\<forall>b\<in>set bs. Buffer_bytes h b \<noteq> None \<Longrightarrow> insert_all h bs v = Some (v @ concat (map (the \<circ> Buffer_bytes h) bs))"
  by (induction bs arbitrary: v) auto

lemma fold_sizes: "fold (\<lambda>b acc. acc + Buffer_size b) bs a = a + sum_list (map Buffer_size bs)"
  by (induction bs arbitrary: a) (simp_all add: add.assoc)

lemma total_size_unat:
  "sum_list (map (\<lambda>b. unat (Buffer_size b)) bs) \<le> byte_vector_max \<Longrightarrow>
   unat (total_size bs) = sum_list (map (\<lambda>b. unat (Buffer_size b)) bs)"
proof (induction bs)
  case (Cons b bs)
  then have "unat (total_size bs) = sum_list (map (\<lambda>b. unat (Buffer_size b)) bs)" by simp
  moreover have "total_size (b # bs) = Buffer_size b + total_size bs" by (simp add: total_size_def fold_sizes)
  ultimately show ?case using Cons.prems by (simp add: unat_add_vector)
qed (simp add: total_size_def)

text \<open>\<open>BufferCollection::combine\<close> gives one buffer with the bytes of all buffers of the collection in
  order, and leaves the buffers of the collection as they are.\<close>

theorem combine_concatenates:
  assumes "heap_ok h" and "\<forall>b\<in>set bs. Buffer_bytes h b \<noteq> None"
    and "sum_list (map (\<lambda>b. unat (Buffer_size b)) bs) \<le> byte_vector_max"
  shows "\<exists>b h'. combine bs h = Ret b h' \<and> Buffer_bytes h' b = Some (concat (map (the \<circ> Buffer_bytes h) bs))
    \<and> (\<forall>c\<in>set bs. Buffer_bytes h' c = Buffer_bytes h c)"
proof -
  let ?v = "concat (map (the \<circ> Buffer_bytes h) bs)"
  have "length (the (Buffer_bytes h b)) = unat (Buffer_size b)" if "b \<in> set bs" for b
    using that assms(2) Buffer_bytes_length [of h b] by auto
  then have "length ?v = sum_list (map (\<lambda>b. unat (Buffer_size b)) bs)"
    by (simp add: length_concat comp_def cong: map_cong)
  then have v: "length ?v \<le> byte_vector_max" using assms(3) by simp
  obtain b h' where m: "Buffer_make ?v h = Some (b, h')" by (simp add: Buffer_make_eq)
  have "buffs h (bufptr c) \<noteq> None" if "c \<in> set bs" for c
    using that assms(2) by (auto simp: Buffer_bytes_def split: option.splits)
  then have "\<forall>c\<in>set bs. Buffer_bytes h' c = Buffer_bytes h c"
    using Buffer_make_frame [OF assms(1) m] by blast
  moreover have "Buffer_bytes h' b = Some ?v"
    using m unat_vector_size [OF v] by (auto simp: Buffer_make_eq Buffer_bytes_def)
  moreover have "combine bs h = Ret b h'"
    using total_size_unat [OF assms(3)] assms(3) v m insert_all_eq [OF assms(2), of "[]"]
    by (simp add: combine_def)
  ultimately show ?thesis by blast
qed

theorem combine_concatenates_witness:
  "\<exists>a h1 b h2 c h3. Buffer_make [1, 2] empty_heap = Some (a, h1) \<and> Buffer_make [3] h1 = Some (b, h2)
     \<and> combine [a, b] h2 = Ret c h3 \<and> Buffer_bytes h3 c = Some [1, 2, 3]"
proof -
  obtain a h1 where a: "Buffer_make [1, 2] empty_heap = Some (a, h1)" by (simp add: Buffer_make_eq)
  obtain b h2 where b: "Buffer_make [3] h1 = Some (b, h2)" by (simp add: Buffer_make_eq)
  have ok1: "heap_ok h1" by (rule heap_ok_make [OF heap_ok_empty _ a]) (simp add: byte_vector_max_def)
  have ok: "heap_ok h2" by (rule heap_ok_make [OF ok1 _ b]) (simp add: byte_vector_max_def)
  have bytes: "Buffer_bytes h2 a = Some [1, 2]" "Buffer_bytes h2 b = Some [3]"
    using a b by (auto simp: Buffer_make_eq Buffer_bytes_def empty_heap_def)
  have "sum_list (map (\<lambda>b. unat (Buffer_size b)) [a, b]) \<le> byte_vector_max"
    using a b by (auto simp: Buffer_make_eq Buffer_size_def byte_vector_max_def)
  from combine_concatenates [OF ok _ this] bytes a b show ?thesis by auto
qed

text \<open>\<open>append\<close> does not append: it only increases the length. After appending a non-empty buffer to a
  buffer that ends where its storage ends (as every freshly made one does), the range
  \<open>[data(), data() + size())\<close> is no longer inside the storage.\<close>

theorem append_runs_past_storage:
  assumes "heap_ok h" and "buffs h (bufptr b) = Some bf" and "unat (bufoffset b) + unat (buflength b) = length (bdata bf)"
    and "Buffer_bytes h c = Some d" and "d \<noteq> []" and "length (bdata bf) + length d \<le> byte_vector_max"
    and "Buffer_append b c h = Some (b', h')"
  shows "Buffer_bytes h' b' = None"
proof -
  have l: "length d = unat (Buffer_size c)" using assms(4) by (rule Buffer_bytes_length)
  then have "unat (buflength b + Buffer_size c) = unat (buflength b) + length d"
    using assms(3,6) by (simp add: unat_add_vector)
  moreover have "b' = b\<lparr>buflength := buflength b + Buffer_size c\<rparr>" "buffs h' (bufptr b) = Some bf"
    using assms(2,7) by (auto simp: Buffer_append_def Buff_append_def split: option.splits)
  moreover have "\<not> unat (bufoffset b) + (unat (buflength b) + length d) \<le> length (bdata bf)"
    using assms(3,5) length_greater_0_conv [of d] by linarith
  ultimately show ?thesis by (simp add: Buffer_bytes_def)
qed

theorem append_runs_past_storage_witness:
  "\<exists>b h b' h'. Buffer_make [1, 2] empty_heap = Some (b, h) \<and> Buffer_append b b h = Some (b', h') \<and> Buffer_bytes h' b' = None"
proof -
  obtain b h where m: "Buffer_make [1, 2] empty_heap = Some (b, h)" by (simp add: Buffer_make_eq)
  have ok: "heap_ok h" by (rule heap_ok_make [OF heap_ok_empty _ m]) (simp add: byte_vector_max_def)
  have bf: "buffs h (bufptr b) = Some \<lparr>bdata = [1, 2], refs = 1\<rparr>" "Buffer_bytes h b = Some [1, 2]"
      "unat (bufoffset b) + unat (buflength b) = 2"
    using m by (auto simp: Buffer_make_eq Buffer_bytes_def)
  obtain b' h' where "Buffer_append b b h = Some (b', h')" using bf by (auto simp: Buffer_append_def)
  with append_runs_past_storage [OF ok bf(1) _ bf(2), of b' h'] bf(3) m show ?thesis
    by (auto simp: byte_vector_max_def)
qed

section \<open>Reference counts\<close>

text \<open>
  A program that makes, copies and destroys buffers: \<open>hs\<close> are the \<open>Buffer\<close> objects that exist. An
  operation on an object that does not exist does nothing; \<open>None\<close> is an access to freed storage.
\<close>

datatype handle_op = HMake "byte list" | HCopy nat | HDestroy nat

primrec handle_step :: "handle_op \<Rightarrow> Buffer list \<times> BuffHeap \<Rightarrow> (Buffer list \<times> BuffHeap) option" where
  "handle_step (HMake d) s = (case s of (hs, h) \<Rightarrow> map_option (\<lambda>(b, h). (b # hs, h)) (Buffer_make d h))"
| "handle_step (HCopy i) s =
     (case s of (hs, h) \<Rightarrow>
        if i < length hs then map_option (\<lambda>(b, h). (b # hs, h)) (Buffer_copy (hs ! i) h) else Some (hs, h))"
| "handle_step (HDestroy i) s =
     (case s of (hs, h) \<Rightarrow>
        if i < length hs then map_option (Pair (take i hs @ drop (Suc i) hs)) (Buffer_destroy (hs ! i) h)
        else Some (hs, h))"

primrec handle_run :: "handle_op list \<Rightarrow> Buffer list \<times> BuffHeap \<Rightarrow> (Buffer list \<times> BuffHeap) option" where
  "handle_run [] s = Some s"
| "handle_run (x # xs) s = (case handle_step x s of None \<Rightarrow> None | Some s \<Rightarrow> handle_run xs s)"

definition handles_to :: "nat \<Rightarrow> Buffer list \<Rightarrow> nat" where
  "handles_to p hs = length (filter (\<lambda>b. bufptr b = p) hs)"

primrec count_ok :: "nat \<Rightarrow> Buff option \<Rightarrow> bool" where
  "count_ok n None = (n = 0)"
| "count_ok n (Some bf) = (n \<noteq> 0 \<and> refs bf = of_nat n)"

definition refs_ok :: "Buffer list \<Rightarrow> BuffHeap \<Rightarrow> bool" where
  "refs_ok hs h \<longleftrightarrow> (\<forall>p\<ge>next_buff h. buffs h p = None) \<and> (\<forall>p. count_ok (handles_to p hs) (buffs h p))"

lemma refs_okD: "refs_ok hs h \<Longrightarrow> count_ok (handles_to p hs) (buffs h p)" "refs_ok hs h \<Longrightarrow> next_buff h \<le> q \<Longrightarrow> buffs h q = None"
  by (simp_all add: refs_ok_def)

lemma handles_to_Cons: "handles_to p (b # hs) = (if bufptr b = p then Suc (handles_to p hs) else handles_to p hs)"
  by (simp add: handles_to_def)

lemma handles_to_remove:
  assumes "i < length hs"
  shows "handles_to p hs = (if bufptr (hs ! i) = p then Suc (handles_to p (take i hs @ drop (Suc i) hs))
    else handles_to p (take i hs @ drop (Suc i) hs))"
proof -
  have "hs = take i hs @ hs ! i # drop (Suc i) hs" using assms by (rule id_take_nth_drop)
  then have "handles_to p hs = handles_to p (take i hs @ hs ! i # drop (Suc i) hs)" by simp
  then show ?thesis by (simp add: handles_to_def)
qed

lemma handles_to_le: "handles_to p hs \<le> length hs"
  by (simp add: handles_to_def)

lemma refs_ok_look:
  assumes "refs_ok hs h" and "b \<in> set hs"
  obtains bf where "buffs h (bufptr b) = Some bf" "refs bf = of_nat (handles_to (bufptr b) hs)"
    "handles_to (bufptr b) hs \<noteq> 0"
proof -
  have "handles_to (bufptr b) hs \<noteq> 0" using assms(2) by (auto simp: handles_to_def filter_empty_conv)
  with refs_okD(1) [OF assms(1), of "bufptr b"] that show thesis by (cases "buffs h (bufptr b)") auto
qed

lemma unat_minus_one: "(of_nat n :: 32 word) - 1 = of_nat (n - 1)" if "n \<noteq> 0"
  using that by (cases n) simp_all

lemma of_nat_32_zero: "n < 2 ^ 32 \<Longrightarrow> (of_nat n :: 32 word) = 0 \<longleftrightarrow> n = 0"
  by (simp add: word_of_nat_eq_0_iff) (auto dest: dvd_imp_le)

lemma refs_ok_make:
  assumes "refs_ok hs h" and "Buffer_make d h = Some (b, h')"
  shows "refs_ok (b # hs) h'"
proof -
  have h': "bufptr b = next_buff h" "next_buff h' = Suc (next_buff h)"
      "buffs h' = (buffs h)(next_buff h \<mapsto> \<lparr>bdata = d, refs = 1\<rparr>)"
    using assms(2) by (auto simp: Buffer_make_eq)
  have "buffs h (next_buff h) = None" using assms(1) by (simp add: refs_ok_def)
  with refs_okD(1) [OF assms(1), of "next_buff h"] have "handles_to (next_buff h) hs = 0" by simp
  then have "count_ok (handles_to p (b # hs)) (buffs h' p)" for p
    using h' refs_okD(1) [OF assms(1), of p] by (cases "p = next_buff h") (simp_all add: handles_to_Cons)
  then show ?thesis using assms(1) h' by (simp add: refs_ok_def)
qed

lemma refs_ok_copy:
  assumes ok: "refs_ok hs h" and b: "b \<in> set hs"
  shows "\<exists>h'. Buffer_copy b h = Some (b, h') \<and> refs_ok (b # hs) h'"
proof -
  obtain bf where bf: "buffs h (bufptr b) = Some bf" "refs bf = of_nat (handles_to (bufptr b) hs)"
    using ok b by (rule refs_ok_look)
  let ?h = "h\<lparr>buffs := (buffs h)(bufptr b \<mapsto> bf\<lparr>refs := refs bf + 1\<rparr>)\<rparr>"
  have "bufptr b < next_buff h" using ok bf(1) by (metis not_le option.distinct(1) refs_ok_def)
  moreover have "count_ok (handles_to p (b # hs)) (buffs ?h p)" for p
    using bf refs_okD(1) [OF ok, of p] by (cases "p = bufptr b") (simp_all add: handles_to_Cons add.commute)
  ultimately have "refs_ok (b # hs) ?h" using ok by (simp add: refs_ok_def)
  then show ?thesis using bf(1) by (simp add: Buffer_copy_def intrusive_ptr_add_ref_def)
qed

lemma refs_ok_destroy:
  assumes ok: "refs_ok hs h" and i: "i < length hs" and n: "length hs < 2 ^ 32"
  shows "\<exists>h'. Buffer_destroy (hs ! i) h = Some h' \<and> refs_ok (take i hs @ drop (Suc i) hs) h'"
proof -
  let ?p = "bufptr (hs ! i)" and ?hs = "take i hs @ drop (Suc i) hs"
  obtain bf where bf: "buffs h ?p = Some bf" "refs bf = of_nat (handles_to ?p hs)" "handles_to ?p hs \<noteq> 0"
    using refs_ok_look [OF ok, of "hs ! i"] i by auto
  have c: "handles_to ?p hs = Suc (handles_to ?p ?hs)" using handles_to_remove [OF i, of ?p] by simp
  have r: "refs bf - 1 = of_nat (handles_to ?p ?hs)" using bf(2) c by simp
  have z: "refs bf - 1 = 0 \<longleftrightarrow> handles_to ?p ?hs = 0"
    unfolding r using of_nat_32_zero [of "handles_to ?p ?hs"] handles_to_le [of ?p hs] c n by simp
  let ?h = "h\<lparr>buffs := (buffs h)(?p := (if refs bf - 1 = 0 then None else Some (bf\<lparr>refs := refs bf - 1\<rparr>)))\<rparr>"
  have "count_ok (handles_to p ?hs) (buffs ?h p)" for p
  proof (cases "p = ?p")
    case True
    then show ?thesis using r z by simp
  next
    case False
    then have "handles_to p ?hs = handles_to p hs" using handles_to_remove [OF i, of p] by simp
    then show ?thesis using False refs_okD(1) [OF ok, of p] by simp
  qed
  moreover have "?p < next_buff h" using ok bf(1) by (metis not_le option.distinct(1) refs_ok_def)
  ultimately have "refs_ok ?hs ?h" using ok by (simp add: refs_ok_def)
  then show ?thesis using bf(1) by (simp add: Buffer_destroy_def intrusive_ptr_release_def Let_def)
qed

lemma handle_step_ok:
  assumes "refs_ok hs h" and "length hs < 2 ^ 32"
  shows "\<exists>hs' h'. handle_step x (hs, h) = Some (hs', h') \<and> refs_ok hs' h' \<and> length hs' \<le> Suc (length hs)"
proof (cases x)
  case (HMake d)
  obtain b h' where m: "Buffer_make d h = Some (b, h')" by (simp add: Buffer_make_eq)
  then show ?thesis using HMake refs_ok_make [OF assms(1) m] by simp
next
  case (HCopy i)
  then show ?thesis using refs_ok_copy [OF assms(1), of "hs ! i"] assms(1) by (cases "i < length hs") auto
next
  case (HDestroy i)
  then show ?thesis using refs_ok_destroy [OF assms(1) _ assms(2), of i] assms(1) by (cases "i < length hs") auto
qed

lemma handle_run_ok:
  "refs_ok hs h \<Longrightarrow> length hs + length xs < 2 ^ 32 \<Longrightarrow>
   \<exists>hs' h'. handle_run xs (hs, h) = Some (hs', h') \<and> refs_ok hs' h'"
proof (induction xs arbitrary: hs h)
  case (Cons x xs)
  obtain hs1 h1 where s: "handle_step x (hs, h) = Some (hs1, h1)" "refs_ok hs1 h1" "length hs1 \<le> Suc (length hs)"
    using handle_step_ok [OF Cons.prems(1), of x] Cons.prems(2) by auto
  then show ?case using Cons.IH [OF s(2)] Cons.prems(2) by simp
qed simp

text \<open>C25: The reference counts of buffers are right: in a program that makes, copies and destroys buffers
  in any order, no operation touches freed storage, and storage exists exactly as long as some buffer
  refers to it. The counter has 32 bits, so this is stated for fewer than \<open>2^32\<close> operations.\<close>

theorem storage_lives_iff_referenced:
  assumes "length xs < 2 ^ 32"
  shows "\<exists>hs h. handle_run xs ([], empty_heap) = Some (hs, h) \<and> (\<forall>p. buffs h p \<noteq> None \<longleftrightarrow> (\<exists>b\<in>set hs. bufptr b = p))"
proof -
  have "refs_ok [] empty_heap" by (simp add: refs_ok_def empty_heap_def handles_to_def)
  then obtain hs h where r: "handle_run xs ([], empty_heap) = Some (hs, h)" "refs_ok hs h"
    using handle_run_ok [of "[]" empty_heap xs] assms by auto
  have "buffs h p \<noteq> None \<longleftrightarrow> (\<exists>b\<in>set hs. bufptr b = p)" for p
  proof -
    have "buffs h p \<noteq> None \<longleftrightarrow> handles_to p hs \<noteq> 0"
      using refs_okD(1) [OF r(2), of p] by (cases "buffs h p") simp_all
    also have "\<dots> \<longleftrightarrow> (\<exists>b\<in>set hs. bufptr b = p)" by (simp add: handles_to_def filter_empty_conv)
    finally show ?thesis .
  qed
  with r(1) show ?thesis by blast
qed

theorem storage_lives_iff_referenced_witness:
  "\<exists>hs h. handle_run [HMake [1], HCopy 0, HDestroy 0, HDestroy 0] ([], empty_heap) = Some (hs, h)
     \<and> (\<forall>p. buffs h p \<noteq> None \<longleftrightarrow> (\<exists>b\<in>set hs. bufptr b = p))"
  by (rule storage_lives_iff_referenced) simp

end
