(* ===== verification/Event_Run.thy ===== *)
theory Event_Run
  imports Prelude
begin

text \<open>
  Components that react to events: postconditions for operations, which name the undefined behaviour that
  is possible and exclude missing fuel, runs over a sequence of events, and what follows from an invariant
  of the single event for all runs. The locales are interpreted on the socket process and on the owners of
  coroutine frames.
\<close>

section \<open>Total postconditions\<close>

text \<open>
  \<open>res_within U Q E r\<close>: a normal return satisfies \<open>Q\<close>, a throw satisfies \<open>E\<close>, undefined behaviour is one of
  \<open>U\<close>, and nothing else happens. \<open>res_total\<close> is the case without undefined behaviour.
\<close>

primrec res_within :: "ub set \<Rightarrow> ('a \<Rightarrow> 's \<Rightarrow> bool) \<Rightarrow> ('s \<Rightarrow> bool) \<Rightarrow> ('a, 's) res \<Rightarrow> bool" where
  "res_within U Q E (Ret a s) = Q a s"
| "res_within U Q E (Throw e s) = E s"
| "res_within U Q E (Undef u) = (u \<in> U)"
| "res_within U Q E NoFuel = False"

abbreviation res_total :: "('a \<Rightarrow> 's \<Rightarrow> bool) \<Rightarrow> ('s \<Rightarrow> bool) \<Rightarrow> ('a, 's) res \<Rightarrow> bool" where
  "res_total \<equiv> res_within {}"

named_theorems total_intros

lemma res_within_bind [total_intros]:
  "res_within U Q E r \<Longrightarrow> (\<And>a s. Q a s \<Longrightarrow> res_within U Q' E (f a s)) \<Longrightarrow> res_within U Q' E (res_bind r f)"
  by (cases r) auto

lemma res_total_bind:
  "res_total Q E r \<Longrightarrow> (\<And>a s. Q a s \<Longrightarrow> res_within U Q' E (f a s)) \<Longrightarrow> res_within U Q' E (res_bind r f)"
  by (cases r) auto

lemma res_total_finally:
  "res_total Q E r \<Longrightarrow> (\<And>a s. Q a s \<Longrightarrow> res_total (\<lambda>_. Q' a) E' (f s)) \<Longrightarrow>
   (\<And>s. E s \<Longrightarrow> res_total (\<lambda>_. E') E' (f s)) \<Longrightarrow> res_total Q' E' (res_finally r f)"
  by (cases r; cases "f (case r of Ret a s \<Rightarrow> s | Throw e s \<Rightarrow> s)") fastforce+

lemma res_within_mono:
  "res_within U Q E r \<Longrightarrow> (\<And>a s. Q a s \<Longrightarrow> Q' a s) \<Longrightarrow> (\<And>s. E s \<Longrightarrow> E' s) \<Longrightarrow> res_within U Q' E' r"
  by (cases r) auto

lemmas res_total_mono = res_within_mono [where U = "{}"]

lemma res_within_more: "res_within U Q E r \<Longrightarrow> U \<subseteq> U' \<Longrightarrow> res_within U' Q E r"
  by (cases r) auto

lemma res_total_RetE:
  assumes "res_total Q (\<lambda>_. False) r"
  obtains a s where "r = Ret a s" "Q a s"
  using assms by (cases r) auto

section \<open>Runs\<close>

primrec run_events :: "('e \<Rightarrow> 's \<Rightarrow> (unit, 's) res) \<Rightarrow> 'e list \<Rightarrow> 's \<Rightarrow> (unit, 's) res" where
  "run_events step [] s = Ret () s"
| "run_events step (e # es) s = res_bind (step e s) (\<lambda>_ s. run_events step es s)"

text \<open>\<open>risk e\<close> is the undefined behaviour that the event \<open>e\<close> may lead to.\<close>

locale event_machine =
  fixes step :: "'e \<Rightarrow> 's \<Rightarrow> (unit, 's) res"
    and good :: "'s \<Rightarrow> bool"
    and risk :: "'e \<Rightarrow> ub set"
  assumes step_good: "good s \<Longrightarrow> res_within (risk e) (\<lambda>_. good) (\<lambda>_. False) (step e s)"
begin

lemma run_within: "good s \<Longrightarrow> res_within (\<Union>e \<in> set es. risk e) (\<lambda>_. good) (\<lambda>_. False) (run_events step es s)"
proof (induction es arbitrary: s)
  case (Cons e es)
  have "res_within (\<Union>e \<in> set (e # es). risk e) (\<lambda>_. good) (\<lambda>_. False) (step e s)"
    by (rule res_within_more [OF step_good [OF Cons.prems]]) simp
  moreover have "res_within (\<Union>e \<in> set (e # es). risk e) (\<lambda>_. good) (\<lambda>_. False) (run_events step es s1)" if "good s1" for s1
    by (rule res_within_more [OF Cons.IH [OF that]]) auto
  ultimately show ?case by (simp only: run_events.simps) (rule res_within_bind)
qed simp

lemma run_good: "good s \<Longrightarrow> (\<And>e. e \<in> set es \<Longrightarrow> risk e = {}) \<Longrightarrow> \<exists>s'. run_events step es s = Ret () s' \<and> good s'"
  using run_within [of s es] by (cases "run_events step es s") auto

lemma run_goodD: "good s \<Longrightarrow> run_events step es s = Ret () s' \<Longrightarrow> good s'"
  using run_within [of s es] by simp

lemma step_goodD: "good s \<Longrightarrow> step e s = Ret () s' \<Longrightarrow> good s'"
  using step_good [of s e] by simp

end

text \<open>
  A machine that works through streams: \<open>over\<close> says that it has stopped, which it never takes back;
  as long as it has not, every event adds its input to what the machine has seen.
\<close>

locale stream_machine = event_machine +
  fixes over :: "'s \<Rightarrow> bool"
    and seen :: "'s \<Rightarrow> 'd list"
    and "input" :: "'e \<Rightarrow> 'd list"
    and allowed :: "'e \<Rightarrow> bool"
  assumes over_stays: "good s \<Longrightarrow> over s \<Longrightarrow> step e s = Ret () s' \<Longrightarrow> over s'"
    and step_seen: "good s \<Longrightarrow> allowed e \<Longrightarrow> step e s = Ret () s' \<Longrightarrow> \<not> over s' \<Longrightarrow> seen s' = seen s @ input e"
begin

lemma run_over: "good s \<Longrightarrow> over s \<Longrightarrow> run_events step es s = Ret () s' \<Longrightarrow> over s'"
proof (induction es arbitrary: s)
  case (Cons e es)
  then obtain s1 where s1: "step e s = Ret () s1" "run_events step es s1 = Ret () s'" by (auto simp: res_bind_Ret_conv)
  then show ?case using Cons over_stays [of s e s1] step_goodD [of s e s1] by simp
qed simp

lemma run_seen:
  "good s \<Longrightarrow> list_all allowed es \<Longrightarrow> run_events step es s = Ret () s' \<Longrightarrow> \<not> over s' \<Longrightarrow>
   seen s' = seen s @ concat (map input es)"
proof (induction es arbitrary: s)
  case (Cons e es)
  obtain s1 where s1: "step e s = Ret () s1" and r: "run_events step es s1 = Ret () s'"
    using Cons.prems(3) by (auto simp: res_bind_Ret_conv)
  have g: "good s1" using step_goodD [OF Cons.prems(1) s1] .
  have "\<not> over s1" using run_over [OF g _ r] Cons.prems(4) by blast
  then have "seen s1 = seen s @ input e" using step_seen Cons.prems(1,2) s1 by simp
  then show ?case using Cons.IH [OF g _ r] Cons.prems(2,4) by simp
qed simp

end

end
