(* ===== verification/Socket.thy ===== *)
theory Socket
  imports Waiting Buffer Event_Run
begin

text \<open>
  \<open>eslang_io/Tcp.cpp\<close>: the process \<open>TSocketProcess\<close> that owns a socket, with both its traits (plain
  and SSL). Its members are shared by the coroutine \<open>run()\<close> and by the completion handlers of the
  asynchronous operations, so the state is one record, every handler is an operation on it, and the
  coroutine is a location together with the code that follows it. The promise, the message queues
  and the buffers are those of the other theories.

  The socket itself belongs to \<open>boost::asio\<close>: the state records which operations are outstanding,
  what has been read and what has been handed over for writing, and a completion arrives as an event
  with an error code of its choice. The other processes are events too: they push messages, of whose buffers
  they may keep copies, and they resume this process when it waits for the context or for another queue.
\<close>

section \<open>State\<close>

text \<open>
  \<open>boost::system::error_code\<close>: no error, the two codes the handlers compare with, and any other
  error, with the text of \<open>message()\<close>.
\<close>

datatype error_code = NoError | OperationAborted string | Eof string | OtherError string

primrec message :: "error_code \<Rightarrow> string" where
  "message NoError = ''Success''"
| "message (OperationAborted t) = t"
| "message (Eof t) = t"
| "message (OtherError t) = t"

record ReceiveData =
  rd_sender :: Pid
  rd_data :: Buffer

text \<open>What the process sends: itself to its owner, and received data.\<close>

datatype SocketMessage = NewSocket SendAddress Pid | Received SendAddress ReceiveData

text \<open>
  Where the coroutine is suspended: at its initial suspension, in \<open>start()\<close> during the SSL handshake,
  on \<open>recv(init)\<close>, inside \<open>sendThrottled\<close> (on the yield or on the promise of the receiver's queue,
  with the data moved into its frame), on \<open>p_\<close> while a write is going on, or on \<open>p_\<close> and the two
  slots; or it has returned, or thrown.
\<close>

datatype location =
    AtStart | AtHandshake | AtInit | AtYield ReceiveData | AtThrottle ReceiveData
  | AtWriting | AtIdle | Ended | Failed string

text \<open>
  The members of the process, the local promise of \<open>start()\<close>, its place in the scheduler (resume
  counter and posted continuations), the heap of buffers with the copies that senders have kept of what they
  sent, and the socket: outstanding operations, data read
  so far, data handed to \<open>async_write\<close> so far. \<open>nextRead\<close> is an optional whose value is gone (\<open>Some None\<close>)
  between the move and the reset. A write in flight is the range it was given, which holds no reference.
\<close>

record Sock =
  sk_pid :: Pid
  ssl :: bool
  throttled :: bool
  onReady :: SendAddress
  send_data :: "(Buffer, uint64) MessageQueue"
  send_many_data :: "(BufferCollection, uint64) MessageQueue"
  sk_init :: "(SendAddress, uint64) MessageQueue"
  handshake :: "uint64 EslangPromise"
  eof :: bool
  prom :: "uint64 EslangPromise"
  except :: "ExceptionWrapper option"
  toSend :: "SendAddress option"
  readBuff :: "byte list"
  nextRead :: "ReceiveData option option"
  isWriting :: bool
  location :: location
  sk_resumes :: uint64
  sk_posted :: "uint64 list"
  woken :: "uint64 list"
  bheap :: BuffHeap
  kept :: "Buffer list"
  handshaking :: nat
  reading :: nat
  writing :: "Buffer list"
  arrived :: "byte list list"
  started :: "byte list list"
  sent :: "SocketMessage list"

definition read_size :: nat where
  "read_size = 16000"

definition TSocketProcess_init :: "Pid \<Rightarrow> bool \<Rightarrow> bool \<Rightarrow> SendAddress \<Rightarrow> Sock" where
  "TSocketProcess_init pid is_ssl thr ready =
     \<lparr>sk_pid = pid, ssl = is_ssl, throttled = thr, onReady = ready,
      send_data = MessageQueue_init, send_many_data = MessageQueue_init, sk_init = MessageQueue_init,
      handshake = EslangPromise_init, eof = False, prom = EslangPromise_init, except = None, toSend = None,
      readBuff = replicate read_size 0, nextRead = None, isWriting = False,
      location = AtStart, sk_resumes = 0, sk_posted = [], woken = [], bheap = empty_heap, kept = [],
      handshaking = 0, reading = 0, writing = [], arrived = [], started = [], sent = []\<rparr>"

section \<open>Members of TSocketProcess\<close>

definition checkExcept :: "Sock \<Rightarrow> (unit, Sock) res" where
  "checkExcept s =
     (case except s of
        None \<Rightarrow> Ret () s
      | Some ew \<Rightarrow> (case maybeThrowException ew of Some e \<Rightarrow> Throw e s | None \<Rightarrow> Ret () s))"

definition setValue :: "Sock \<Rightarrow> Sock" where
  "setValue s = (let (p, hs) = setIfUnset (prom s) in s\<lparr>prom := p, sk_posted := sk_posted s @ hs\<rparr>)"

definition sock_setException :: "string \<Rightarrow> Sock \<Rightarrow> Sock" where
  "sock_setException e s =
     (let s = setValue s in
      if except s = None then s\<lparr>except := Some (make_ExceptionWrapper e)\<rparr> else s)"

definition setError :: "error_code \<Rightarrow> Sock \<Rightarrow> Sock" where
  "setError ec s = sock_setException (concatString [PStr ''Listener threw '', PStr (message ec)]) s"

definition send_out :: "SocketMessage \<Rightarrow> Sock \<Rightarrow> Sock" where
  "send_out m s = s\<lparr>sent := sent s @ [m]\<rparr>"

text \<open>\<open>asyncRead\<close>, and its completion handler. The handler of a read is given the number of bytes.\<close>

definition asyncRead :: "Sock \<Rightarrow> Sock" where
  "asyncRead s = s\<lparr>reading := reading s + 1\<rparr>"

definition drop_buffer :: "Buffer \<Rightarrow> Sock \<Rightarrow> (unit, Sock) res" where
  "drop_buffer b s =
     (case Buffer_destroy b (bheap s) of None \<Rightarrow> Undef UseAfterFree | Some h \<Rightarrow> Ret () (s\<lparr>bheap := h\<rparr>))"

definition set_nextRead :: "ReceiveData \<Rightarrow> Sock \<Rightarrow> (unit, Sock) res" where
  "set_nextRead rd s =
     res_bind (case nextRead s of Some (Some old) \<Rightarrow> drop_buffer (rd_data old) s | _ \<Rightarrow> Ret () s)
       (\<lambda>_ s. Ret () (s\<lparr>nextRead := Some (Some rd)\<rparr>))"

definition on_read :: "error_code \<Rightarrow> nat \<Rightarrow> Sock \<Rightarrow> (unit, Sock) res" where
  "on_read error bytes s =
     (case error of
        OperationAborted _ \<Rightarrow> Ret () s
      | Eof _ \<Rightarrow> Ret () (setValue (s\<lparr>eof := True\<rparr>))
      | OtherError _ \<Rightarrow> Ret () (setError error s)
      | NoError \<Rightarrow>
          if bytes > 0
          then (case Buffer_makeCopy (readBuff s) bytes (bheap s) of
                  None \<Rightarrow> Undef UseAfterFree
                | Some (b, h) \<Rightarrow>
                    let rd = \<lparr>rd_sender = sk_pid s, rd_data = b\<rparr>; s = s\<lparr>bheap := h\<rparr> in
                    if throttled s
                    then res_bind (set_nextRead rd s) (\<lambda>_ s. Ret () (setValue s))
                    else (case toSend s of
                            None \<Rightarrow> Undef EmptyOptional
                          | Some a \<Rightarrow> Ret () (asyncRead (send_out (Received a rd) s))))
          else Ret () (asyncRead s))"

text \<open>
  \<open>write\<close> takes its buffer by value; the buffer is destroyed when \<open>write\<close> returns. \<open>async_write\<close> is
  given the range only.
\<close>

definition sock_write :: "Buffer \<Rightarrow> Sock \<Rightarrow> (unit, Sock) res" where
  "sock_write buff s =
     (let s = s\<lparr>isWriting := True, prom := EslangPromise_assign (prom s) EslangPromise_init\<rparr> in
      case Buffer_bytes (bheap s) buff of
        None \<Rightarrow> Undef UseAfterFree
      | Some d \<Rightarrow>
          drop_buffer buff (s\<lparr>writing := writing s @ [buff], started := started s @ [d]\<rparr>))"

definition on_write :: "error_code \<Rightarrow> Sock \<Rightarrow> Sock" where
  "on_write ec s =
     (case ec of
        OperationAborted _ \<Rightarrow> s
      | _ \<Rightarrow>
          let s = s\<lparr>isWriting := False\<rparr> in
          if ec \<noteq> NoError then setError ec s else setValue s)"

text \<open>The handler of the handshake in \<open>SslSocketTraits::start\<close>.\<close>

definition on_handshake :: "error_code \<Rightarrow> Sock \<Rightarrow> Sock" where
  "on_handshake error s =
     (case error of
        OperationAborted _ \<Rightarrow> s
      | _ \<Rightarrow>
          let (p, hs) =
            (if error \<noteq> NoError
             then setException (concatString [PStr ''SSL handshake threw '', PStr (message error)]) (handshake s)
             else setIfUnset (handshake s))
          in s\<lparr>handshake := p, sk_posted := sk_posted s @ hs\<rparr>)"

section \<open>run()\<close>

text \<open>
  Suspension: the context installs a continuation with the present resume counter on the promise of
  the awaitable, which posts it at once when the promise is already set.
\<close>

definition suspend_on_prom :: "location \<Rightarrow> Sock \<Rightarrow> Sock" where
  "suspend_on_prom l s =
     (let (p, hs) = setContinuation (sk_resumes s) (prom s)
      in s\<lparr>prom := p, sk_posted := sk_posted s @ hs, location := l\<rparr>)"

text \<open>
  The context during one resume: the answers to \<open>waitOnQueue\<close> and \<open>canQueue\<close>, which the code asks at most once
  between two suspensions, and whether the promise of the receiver's queue exists. \<open>canQueue\<close> gives no promise,
  so that the message may be queued, or the promise to wait for; when the receiver is dead and its place in
  the table is empty, it dereferences a null pointer. The promise goes away with the receiver.
\<close>

datatype queue_answer = MayQueue | MustWait | NoProcess

record ContextState =
  busy :: bool
  can_queue :: queue_answer
  promise_lives :: bool

text \<open>
  The loop of \<open>sendThrottled\<close> of the data of \<open>nextRead\<close>, and after it \<open>nextRead.reset()\<close> and
  \<open>asyncRead()\<close>. The result says whether the coroutine goes on (otherwise it is suspended).
\<close>

definition send_loop :: "ContextState \<Rightarrow> ReceiveData \<Rightarrow> Sock \<Rightarrow> (bool, Sock) res" where
  "send_loop q rd s =
     (case can_queue q of
        NoProcess \<Rightarrow> Undef NullDeref
      | MustWait \<Rightarrow> Ret False (s\<lparr>location := AtThrottle rd\<rparr>)
      | MayQueue \<Rightarrow>
          (case toSend s of
             None \<Rightarrow> Undef EmptyOptional
           | Some a \<Rightarrow> Ret True (asyncRead ((send_out (Received a rd) s)\<lparr>nextRead := None\<rparr>))))"

definition read_part :: "ContextState \<Rightarrow> Sock \<Rightarrow> (bool, Sock) res" where
  "read_part q s =
     (case nextRead s of
        None \<Rightarrow> Ret True s
      | Some None \<Rightarrow> Undef NullDeref
      | Some (Some rd) \<Rightarrow>
          let s = s\<lparr>nextRead := Some None\<rparr> in
          if busy q then Ret False (s\<lparr>location := AtYield rd\<rparr>) else send_loop q rd s)"

text \<open>
  \<open>tryRecv(send_data, send_many_data)\<close> takes a message from each slot that has one; the tuple is a
  local of the block, and its buffers are released when the block is left.
\<close>

definition take_data :: "Sock \<Rightarrow> (Buffer option, Sock) res" where
  "take_data s =
     (if \<not> mq_empty (send_data s)
      then (case mq_pop (send_data s) of
              None \<Rightarrow> Undef EmptyOptional
            | Some (b, mq, hs) \<Rightarrow> Ret (Some b) (s\<lparr>send_data := mq, woken := woken s @ hs\<rparr>))
      else Ret None s)"

definition take_many :: "Sock \<Rightarrow> (BufferCollection option, Sock) res" where
  "take_many s =
     (if \<not> mq_empty (send_many_data s)
      then (case mq_pop (send_many_data s) of
              None \<Rightarrow> Undef EmptyOptional
            | Some (bs, mq, hs) \<Rightarrow> Ret (Some bs) (s\<lparr>send_many_data := mq, woken := woken s @ hs\<rparr>))
      else Ret None s)"

primrec release_all :: "Buffer list \<Rightarrow> Sock \<Rightarrow> (unit, Sock) res" where
  "release_all [] s = Ret () s"
| "release_all (b # bs) s = res_bind (drop_buffer b s) (\<lambda>_ s. release_all bs s)"

definition write_first :: "Buffer option \<Rightarrow> BufferCollection option \<Rightarrow> Sock \<Rightarrow> (unit, Sock) res" where
  "write_first d m s =
     (case d of
        Some b \<Rightarrow>
          (case Buffer_copy b (bheap s) of
             None \<Rightarrow> Undef UseAfterFree
           | Some (b, h) \<Rightarrow> sock_write b (s\<lparr>bheap := h\<rparr>))
      | None \<Rightarrow>
          (case m of
             None \<Rightarrow> Ret () s
           | Some bs \<Rightarrow>
               (case combine bs (bheap s) of
                  Ret b h \<Rightarrow> sock_write b (s\<lparr>bheap := h\<rparr>)
                | Throw e h \<Rightarrow> Throw e (s\<lparr>bheap := h\<rparr>)
                | Undef u \<Rightarrow> Undef u
                | NoFuel \<Rightarrow> NoFuel)))"

definition after_idle :: "Sock \<Rightarrow> (unit, Sock) res" where
  "after_idle s =
     res_bind (take_data s) (\<lambda>d s.
     res_bind (take_many s) (\<lambda>m s.
       res_finally (res_bind (checkExcept s) (\<lambda>_ s. write_first d m s))
         (release_all ((case d of None \<Rightarrow> [] | Some b \<Rightarrow> [b]) @ (case m of None \<Rightarrow> [] | Some bs \<Rightarrow> bs)))))"

definition write_part :: "Sock \<Rightarrow> (bool, Sock) res" where
  "write_part s =
     (if isWriting s
      then if isReady (prom s) then res_bind (checkExcept s) (\<lambda>_ s. Ret True s)
           else Ret False (suspend_on_prom AtWriting s)
      else if \<not> mq_empty (send_data s) \<or> \<not> mq_empty (send_many_data s)
           then res_bind (after_idle s) (\<lambda>_ s. Ret True s)
           else Ret False (suspend_on_prom AtIdle s))"

text \<open>The loop, entered at its condition; each round spends one unit of fuel.\<close>

fun run_loop :: "nat \<Rightarrow> ContextState \<Rightarrow> Sock \<Rightarrow> (unit, Sock) res" where
  "run_loop 0 q s = NoFuel"
| "run_loop (Suc n) q s =
     (if eof s then Ret () (s\<lparr>location := Ended\<rparr>)
      else res_bind (read_part q s) (\<lambda>go s.
        if go then res_bind (write_part s) (\<lambda>go s. if go then run_loop n q s else Ret () s)
        else Ret () s))"

text \<open>The second half of a round, after \<open>sendThrottled\<close> was suspended.\<close>

definition rest_of_round :: "nat \<Rightarrow> ContextState \<Rightarrow> ReceiveData \<Rightarrow> Sock \<Rightarrow> (unit, Sock) res" where
  "rest_of_round n q rd s =
     res_bind (send_loop q rd s) (\<lambda>go s.
       if go then res_bind (write_part s) (\<lambda>go s. if go then run_loop n q s else Ret () s)
       else Ret () s)"

text \<open>From \<open>recv(init)\<close> on.\<close>

definition after_init :: "nat \<Rightarrow> ContextState \<Rightarrow> Sock \<Rightarrow> (unit, Sock) res" where
  "after_init n q s =
     (case mq_pop (sk_init s) of
        None \<Rightarrow> Throw ''Message was not ready'' s
      | Some (a, mq, hs) \<Rightarrow>
          run_loop n q (asyncRead (s\<lparr>sk_init := mq, woken := woken s @ hs, toSend := Some a\<rparr>)))"

text \<open>From the end of \<open>start()\<close> on.\<close>

definition after_start :: "nat \<Rightarrow> ContextState \<Rightarrow> Sock \<Rightarrow> (unit, Sock) res" where
  "after_start n q s =
     (let s = send_out (NewSocket (onReady s) (sk_pid s)) s in
      if mq_empty (sk_init s) then Ret () (s\<lparr>location := AtInit\<rparr>) else after_init n q s)"

text \<open>The \<open>start()\<close> of the plain socket returns at once, that of the SSL socket waits for the handshake.\<close>

definition start :: "nat \<Rightarrow> ContextState \<Rightarrow> Sock \<Rightarrow> (unit, Sock) res" where
  "start n q s =
     (if ssl s
      then let (p, hs) = setContinuation (sk_resumes s) EslangPromise_init
           in Ret () (s\<lparr>handshaking := handshaking s + 1, location := AtHandshake, handshake := p, sk_posted := sk_posted s @ hs\<rparr>)
      else after_start n q s)"

text \<open>
  \<open>RunningProcess::resume\<close> on this coroutine: consume the signal of the promise it waited on, its own or the
  one of the receiver's queue, count, continue; an exception ends the process.
\<close>

definition process_own :: "ContextState \<Rightarrow> Sock \<Rightarrow> (unit, Sock) res" where
  "process_own q s =
     (case location s of
        AtHandshake \<Rightarrow> (case process (handshake s) of Inl e \<Rightarrow> Throw e s | Inr p \<Rightarrow> Ret () (s\<lparr>handshake := p\<rparr>))
      | AtWriting \<Rightarrow> (case process (prom s) of Inl e \<Rightarrow> Throw e s | Inr p \<Rightarrow> Ret () (s\<lparr>prom := p\<rparr>))
      | AtIdle \<Rightarrow> (case process (prom s) of Inl e \<Rightarrow> Throw e s | Inr p \<Rightarrow> Ret () (s\<lparr>prom := p\<rparr>))
      | AtThrottle _ \<Rightarrow> if promise_lives q then Ret () s else Undef DanglingPromise
      | _ \<Rightarrow> Ret () s)"

definition continue :: "nat \<Rightarrow> ContextState \<Rightarrow> Sock \<Rightarrow> (unit, Sock) res" where
  "continue n q s =
     (case location s of
        AtStart \<Rightarrow> start n q s
      | AtHandshake \<Rightarrow> after_start n q s
      | AtInit \<Rightarrow> after_init n q s
      | AtYield rd \<Rightarrow> rest_of_round n q rd s
      | AtThrottle rd \<Rightarrow> rest_of_round n q rd s
      | AtWriting \<Rightarrow> res_bind (checkExcept s) (\<lambda>_ s. run_loop n q s)
      | AtIdle \<Rightarrow> res_bind (after_idle s) (\<lambda>_ s. run_loop n q s)
      | _ \<Rightarrow> Ret () s)"

definition gone :: "Sock \<Rightarrow> bool" where
  "gone s = (case location s of Ended \<Rightarrow> True | Failed _ \<Rightarrow> True | _ \<Rightarrow> False)"

definition sock_resume :: "nat \<Rightarrow> ContextState \<Rightarrow> Sock \<Rightarrow> (unit, Sock) res" where
  "sock_resume n q s =
     (if gone s then Ret () s
      else case res_bind (process_own q s) (\<lambda>_ s. continue n q (s\<lparr>sk_resumes := sk_resumes s + 1\<rparr>)) of
             Throw e s \<Rightarrow> Ret () (s\<lparr>location := Failed (concatString [PStr ''Caught exception: '', PStr e])\<rparr>)
           | r \<Rightarrow> r)"

section \<open>Events\<close>

text \<open>
  \<open>Kick\<close>: the context resumes the process, from its initial suspension, after a yield, or when the
  queue of the receiver has room again or is destroyed. \<open>Wake i\<close>: the io service invokes the \<open>i\<close>-th posted
  continuation. \<open>SendData\<close>, \<open>SendMany\<close>, \<open>SendInit\<close>: the context delivers a message; of every buffer its sender
  may have kept a copy. \<open>ReleaseCopy i\<close>: the sender destroys the \<open>i\<close>-th copy that is left. \<open>HandshakeDone\<close>, \<open>ReadDone\<close>, \<open>WriteDone\<close>: an operation completes.
  Operations are aborted only by the destructor, so a process that is alive sees no
  \<open>operation_aborted\<close>. Events that cannot happen leave the state as it is, and so does every event
  after the end of the process.
\<close>

datatype event =
    Kick ContextState
  | Wake nat ContextState
  | SendData "byte list" bool ContextState
  | SendMany "(byte list \<times> bool) list" ContextState
  | SendInit SendAddress ContextState
  | ReleaseCopy nat
  | HandshakeDone error_code
  | ReadDone error_code "byte list"
  | WriteDone error_code

primrec aborted :: "error_code \<Rightarrow> bool" where
  "aborted NoError = False"
| "aborted (OperationAborted t) = True"
| "aborted (Eof t) = False"
| "aborted (OtherError t) = False"

definition kickable :: "location \<Rightarrow> bool" where
  "kickable l = (case l of AtStart \<Rightarrow> True | AtYield _ \<Rightarrow> True | AtThrottle _ \<Rightarrow> True | _ \<Rightarrow> False)"

text \<open>The sender of a message: it makes a buffer and, with \<open>keep\<close>, passes on a copy and keeps its own.\<close>

definition sender_makes :: "byte list \<Rightarrow> bool \<Rightarrow> Sock \<Rightarrow> (Buffer \<times> Sock) option" where
  "sender_makes d keep s =
     (case Buffer_make d (bheap s) of
        None \<Rightarrow> None
      | Some (b, h) \<Rightarrow>
          if keep
          then map_option (\<lambda>(b', h). (b', s\<lparr>bheap := h, kept := kept s @ [b]\<rparr>)) (Buffer_copy b h)
          else Some (b, s\<lparr>bheap := h\<rparr>))"

primrec make_all :: "(byte list \<times> bool) list \<Rightarrow> Sock \<Rightarrow> (Buffer list \<times> Sock) option" where
  "make_all [] s = Some ([], s)"
| "make_all (x # xs) s =
     (case sender_makes (fst x) (snd x) s of
        None \<Rightarrow> None
      | Some (b, s) \<Rightarrow> map_option (\<lambda>(bs, s). (b # bs, s)) (make_all xs s))"

text \<open>Delivery of a message: \<open>RunningProcess::send\<close>.\<close>

definition deliver_data :: "nat \<Rightarrow> ContextState \<Rightarrow> byte list \<Rightarrow> bool \<Rightarrow> Sock \<Rightarrow> (unit, Sock) res" where
  "deliver_data n q d keep s =
     (case sender_makes d keep s of
        None \<Rightarrow> Undef UseAfterFree
      | Some (b, s) \<Rightarrow>
          let s' = s\<lparr>send_data := mq_push b (send_data s)\<rparr> in
          if location s = AtIdle then sock_resume n q s' else Ret () s')"

definition deliver_many :: "nat \<Rightarrow> ContextState \<Rightarrow> (byte list \<times> bool) list \<Rightarrow> Sock \<Rightarrow> (unit, Sock) res" where
  "deliver_many n q ds s =
     (case make_all ds s of
        None \<Rightarrow> Undef UseAfterFree
      | Some (bs, s) \<Rightarrow>
          let s' = s\<lparr>send_many_data := mq_push bs (send_many_data s)\<rparr> in
          if location s = AtIdle then sock_resume n q s' else Ret () s')"

definition deliver_init :: "nat \<Rightarrow> ContextState \<Rightarrow> SendAddress \<Rightarrow> Sock \<Rightarrow> (unit, Sock) res" where
  "deliver_init n q a s =
     (let s' = s\<lparr>sk_init := mq_push a (sk_init s)\<rparr> in
      if location s = AtInit then sock_resume n q s' else Ret () s')"

text \<open>A read stores its bytes in \<open>readBuff\<close> before its handler runs.\<close>

definition read_done :: "error_code \<Rightarrow> byte list \<Rightarrow> Sock \<Rightarrow> (unit, Sock) res" where
  "read_done ec d s =
     (let s = s\<lparr>reading := reading s - 1\<rparr> in
      if ec = NoError
      then on_read ec (length d)
             (s\<lparr>readBuff := d @ drop (length d) (readBuff s), arrived := arrived s @ (if d = [] then [] else [d])\<rparr>)
      else on_read ec 0 s)"

primrec sock_act :: "nat \<Rightarrow> event \<Rightarrow> Sock \<Rightarrow> (unit, Sock) res" where
  "sock_act n (Kick q) s = (if kickable (location s) then sock_resume n q s else Ret () s)"
| "sock_act n (Wake i q) s =
     (if i < length (sk_posted s)
      then let s' = s\<lparr>sk_posted := take i (sk_posted s) @ drop (Suc i) (sk_posted s)\<rparr> in
           if sk_posted s ! i = sk_resumes s then sock_resume n q s' else Ret () s'
      else Ret () s)"
| "sock_act n (SendData d keep q) s = (if length d \<le> byte_vector_max then deliver_data n q d keep s else Ret () s)"
| "sock_act n (SendMany ds q) s =
     (if \<forall>d\<in>set ds. length (fst d) \<le> byte_vector_max then deliver_many n q ds s else Ret () s)"
| "sock_act n (SendInit a q) s = deliver_init n q a s"
| "sock_act n (ReleaseCopy i) s =
     (if i < length (kept s) then drop_buffer (kept s ! i) (s\<lparr>kept := take i (kept s) @ drop (Suc i) (kept s)\<rparr>) else Ret () s)"
| "sock_act n (HandshakeDone ec) s =
     (if handshaking s > 0 \<and> \<not> aborted ec then Ret () (on_handshake ec (s\<lparr>handshaking := handshaking s - 1\<rparr>)) else Ret () s)"
| "sock_act n (ReadDone ec d) s =
     (if reading s > 0 \<and> \<not> aborted ec \<and> length d \<le> read_size then read_done ec d s else Ret () s)"
| "sock_act n (WriteDone ec) s =
     (if writing s \<noteq> [] \<and> \<not> aborted ec then Ret () (on_write ec (s\<lparr>writing := tl (writing s)\<rparr>)) else Ret () s)"

definition sock_event :: "nat \<Rightarrow> event \<Rightarrow> Sock \<Rightarrow> (unit, Sock) res" where
  "sock_event n e s = (if gone s then Ret () s else sock_act n e s)"

end
