(* ===== verification/Tcp.thy ===== *)
theory Tcp
  imports Links Socket
begin

text \<open>
  The rest of \<open>eslang_io/Tcp.h\<close> and \<open>Tcp.cpp\<close>: the functions of \<open>struct Tcp\<close> with which a process talks
  to a socket process, the listener process that accepts connections, and \<open>StreamBatcher\<close>. They are
  clients of the context: a socket is a process of the table with three member slots.
\<close>

section \<open>Messages and processes\<close>

text \<open>The payloads of the messages the library sends, beside those of the program.\<close>

datatype 'm TcpMessage =
    DataMsg Buffer
  | ManyMsg BufferCollection
  | InitMsg SendAddress
  | SocketMsg Pid
  | ReceiveMsg ReceiveData
  | OtherMsg 'm

text \<open>
  What \<open>spawn<TSocketProcess<Traits>>\<close> constructs. The coroutine of the socket is the machine of theory
  \<open>Socket\<close>; here only its first frame is of interest.
\<close>

definition socket_spec :: "bool \<Rightarrow> ('st, 'm) frame \<Rightarrow> ('st, 'm) SpawnSpec" where
  "socket_spec is_ssl run =
     \<lparr>sp_classes = [''TSocketProcess'', if is_ssl then ''SslSocketTraits'' else ''PlainSocketTraits'', ''SocketProcess'', ''Process''],
      sp_members = [''send_data'', ''send_many_data'', ''init''],
      sp_links = [], sp_throws = None, sp_start = run\<rparr>"

section \<open>Sending to a socket\<close>

text \<open>\<open>makeSendAddress(socket.pid, &SocketProcess::slot)\<close>, then \<open>send\<close>.\<close>

definition to_socket :: "string \<Rightarrow> Pid \<Rightarrow> 'm TcpMessage \<Rightarrow> ('st, 'm TcpMessage) Context \<Rightarrow>
    (bool, ('st, 'm TcpMessage) Context) res" where
  "to_socket slot socket m c =
     res_bind (makeSendAddress socket ''SocketProcess'' slot c) (\<lambda>a c. let (w, c) = send a (MVal m) c in Ret w c)"

definition Tcp_send :: "Pid \<Rightarrow> Buffer \<Rightarrow> ('st, 'm TcpMessage) Context \<Rightarrow> (bool, ('st, 'm TcpMessage) Context) res" where
  "Tcp_send socket data = to_socket ''send_data'' socket (DataMsg data)"

definition Tcp_sendMany :: "Pid \<Rightarrow> BufferCollection \<Rightarrow> ('st, 'm TcpMessage) Context \<Rightarrow>
    (bool, ('st, 'm TcpMessage) Context) res" where
  "Tcp_sendMany socket data = to_socket ''send_many_data'' socket (ManyMsg data)"

definition Tcp_initRecvSocket :: "Pid \<Rightarrow> SendAddress \<Rightarrow> ('st, 'm TcpMessage) Context \<Rightarrow>
    (unit, ('st, 'm TcpMessage) Context) res" where
  "Tcp_initRecvSocket socket new_socket_address c =
     res_bind (to_socket ''init'' socket (InitMsg new_socket_address) c) (\<lambda>_ c. Ret () c)"

text \<open>
  The throttled forms return the method task of \<open>sendThrottled\<close>, which the caller awaits; the address
  is made before, in the caller, which goes on as \<open>f\<close>.
\<close>

definition throttled_to_socket :: "string \<Rightarrow> Pid \<Rightarrow> 'm TcpMessage \<Rightarrow> ('st, 'm TcpMessage) frame \<Rightarrow>
    ('st, 'm TcpMessage) code" where
  "throttled_to_socket slot socket m f =
     CoCall (CMakeSendAddress socket ''SocketProcess'' slot) (\<lambda>r. case r of
         AAddr a \<Rightarrow> CoMethod (sendThrottled a (MVal m)) f
       | _ \<Rightarrow> CoThrow '''')"

definition Tcp_sendThrottled :: "Pid \<Rightarrow> Buffer \<Rightarrow> ('st, 'm TcpMessage) frame \<Rightarrow> ('st, 'm TcpMessage) code" where
  "Tcp_sendThrottled socket data = throttled_to_socket ''send_data'' socket (DataMsg data)"

definition Tcp_sendManyThrottled :: "Pid \<Rightarrow> BufferCollection \<Rightarrow> ('st, 'm TcpMessage) frame \<Rightarrow>
    ('st, 'm TcpMessage) code" where
  "Tcp_sendManyThrottled socket data = throttled_to_socket ''send_many_data'' socket (ManyMsg data)"

section \<open>StreamBatcher\<close>

text \<open>
  A batcher collects buffers and sends them as one collection. Moving the collection into the argument
  of \<open>sendMany\<close> empties it before the call, which may throw; what leaves the destructor as an exception
  ends the program.
\<close>

record StreamBatcher =
  sb_socket :: Pid
  sb_buffs :: BufferCollection

definition StreamBatcher_init :: "Pid \<Rightarrow> StreamBatcher" where
  "StreamBatcher_init socket = \<lparr>sb_socket = socket, sb_buffs = []\<rparr>"

definition batcher_push :: "Buffer \<Rightarrow> StreamBatcher \<Rightarrow> StreamBatcher" where
  "batcher_push b sb = sb\<lparr>sb_buffs := sb_buffs sb @ [b]\<rparr>"

definition batcher_clear :: "StreamBatcher \<Rightarrow> ('st, 'm TcpMessage) Context \<Rightarrow>
    StreamBatcher \<times> (unit, ('st, 'm TcpMessage) Context) res" where
  "batcher_clear sb c =
     (if length (sb_buffs sb) \<noteq> 0
      then (sb\<lparr>sb_buffs := []\<rparr>, res_bind (Tcp_sendMany (sb_socket sb) (sb_buffs sb) c) (\<lambda>_ c. Ret () c))
      else (sb, Ret () c))"

definition batcher_destroy :: "StreamBatcher \<Rightarrow> ('st, 'm TcpMessage) Context \<Rightarrow>
    (unit, ('st, 'm TcpMessage) Context) res" where
  "batcher_destroy sb c = (case snd (batcher_clear sb c) of Throw e c \<Rightarrow> Undef Terminated | r \<Rightarrow> r)"

section \<open>The listener\<close>

text \<open>
  The options of a listener. The factory of the SSL context is a function of the SSL library, and of the
  user: what calling it gives is an exception or a context. \<open>load\<close> is what loading the files gives.
\<close>

record ListenerOptions =
  lo_throttled :: bool
  port :: nat
  sslContextFactory :: "(string + unit) option"

definition withSslFiles :: "(string \<Rightarrow> string \<Rightarrow> string \<Rightarrow> string + unit) \<Rightarrow> string \<Rightarrow> string \<Rightarrow> string \<Rightarrow>
    ListenerOptions \<Rightarrow> ListenerOptions" where
  "withSslFiles load ca cert key r = r\<lparr>sslContextFactory := Some (load ca cert key)\<rparr>"

text \<open>The members of the listener; its promise is a promise of the context, \<open>accepting\<close> says whether an accept is outstanding.\<close>

record ListenerProcess =
  newSocket :: SendAddress
  options :: ListenerOptions
  error_p :: nat
  sslContext :: bool
  accepting :: bool

definition listener_spec :: "ListenerOptions \<Rightarrow> ('st, 'm) frame \<Rightarrow> ('st, 'm) SpawnSpec" where
  "listener_spec opts run =
     \<lparr>sp_classes = [''ListenerProcess'', ''Process''], sp_members = [], sp_links = [],
      sp_throws = (case sslContextFactory opts of Some (Inl e) \<Rightarrow> Some e | _ \<Rightarrow> None), sp_start = run\<rparr>"

definition ListenerProcess_init :: "SendAddress \<Rightarrow> ListenerOptions \<Rightarrow> nat \<Rightarrow> ListenerProcess" where
  "ListenerProcess_init new_socket_address opts e =
     \<lparr>newSocket = new_socket_address, options = opts, error_p = e,
      sslContext = (case sslContextFactory opts of None \<Rightarrow> False | Some _ \<Rightarrow> True), accepting = False\<rparr>"

definition Tcp_makeListener :: "addr \<Rightarrow> Pid \<Rightarrow> ListenerOptions \<Rightarrow> ('st, 'm) frame \<Rightarrow> ('st, 'm) Context \<Rightarrow>
    (Pid, ('st, 'm) Context) res" where
  "Tcp_makeListener parent own opts run c = spawnLink parent own (listener_spec opts run) c"

text \<open>
  \<open>run()\<close>: opening, binding and listening may throw (\<open>setup\<close>, an error of the network); then the first
  accept is started, and the coroutine waits for an error.
\<close>

definition listener_run :: "string option \<Rightarrow> nat \<Rightarrow> ('st, 'm) frame \<Rightarrow> ('st, 'm) code" where
  "listener_run setup e f =
     (case setup of
        Some error \<Rightarrow> CoThrow error
      | None \<Rightarrow> CoAwait (AWaiting (WaitOnFuture (UserP e))) f)"

definition asyncAccept :: "ListenerProcess \<Rightarrow> ListenerProcess" where
  "asyncAccept l = l\<lparr>accepting := True\<rparr>"

definition listener_setException :: "error_code \<Rightarrow> ListenerProcess \<Rightarrow> ('st, 'm) Context \<Rightarrow> (unit, ('st, 'm) Context) res" where
  "listener_setException ec l c =
     (case promise_at c (UserP (error_p l)) of
        None \<Rightarrow> Undef DanglingPromise
      | Some p \<Rightarrow>
          let (p, hs) = setException (concatString [PStr ''Listener threw '', PStr (message ec)]) p in
          Ret () ((put_promise (UserP (error_p l)) p c)\<lparr>posted := posted c @ hs\<rparr>))"

text \<open>
  The completion handler of an accept in the listener at \<open>this\<close>; \<open>opt\<close> is the exception of
  \<open>set_option\<close>, if it throws one, and \<open>run\<close> the first frame of the socket process.
\<close>

definition on_accept :: "addr \<Rightarrow> ('st, 'm) frame \<Rightarrow> error_code \<Rightarrow> string option \<Rightarrow> ListenerProcess \<Rightarrow>
    ('st, 'm) Context \<Rightarrow> (ListenerProcess, ('st, 'm) Context) res" where
  "on_accept this run ec opt l c =
     (let l = l\<lparr>accepting := False\<rparr> in
      case ec of
        OperationAborted _ \<Rightarrow> Ret l c
      | NoError \<Rightarrow>
          (case opt of
             Some e \<Rightarrow> Throw e c
           | None \<Rightarrow>
               res_bind (spawn (socket_spec (sslContext l) run) c) (\<lambda>p c.
                 Ret (asyncAccept l) (addKillOnDie_at this p c)))
      | _ \<Rightarrow> res_bind (listener_setException ec l c) (\<lambda>_ c. Ret l c))"

end
