(* ===== verification/Tcp_Ok.thy ===== *)
theory Tcp_Ok
  imports Tcp
begin

text \<open>
  What the functions of \<open>struct Tcp\<close>, the listener and \<open>StreamBatcher\<close> promise to the processes that use
  them.
\<close>

section \<open>A spawned socket\<close>

lemma socket_spec_simps [simp]:
  "sp_links (socket_spec s run) = []" "sp_throws (socket_spec s run) = None" "sp_start (socket_spec s run) = run"
  "sp_members (socket_spec s run) = [''send_data'', ''send_many_data'', ''init'']"
  "''SocketProcess'' \<in> set (sp_classes (socket_spec s run))"
  by (simp_all add: socket_spec_def)

text \<open>The object of a socket, with its slots numbered from \<open>k\<close>.\<close>

definition socket_object :: "bool \<Rightarrow> Pid \<Rightarrow> SlotId \<Rightarrow> ('st, 'm) frame \<Rightarrow> ('st, 'm) RunningProcess" where
  "socket_object s p k run =
     \<lparr>dead = False, rp_pid = p,
      rp_process = (Process_init (ProcessArgs_init p) (sp_classes (socket_spec s run :: ('st, 'm) SpawnSpec)))
        \<lparr>pr_members := [(''send_data'', k), (''send_many_data'', k + 1), (''init'', k + 2)]\<rparr>,
      task = Some (None, [run]), lastWaiting = None, resumes = 0\<rparr>"

definition socket_slots :: "addr \<Rightarrow> SlotId \<Rightarrow> ('m Message, handler) slots" where
  "socket_slots a k = [(k + 2, Slot_init a), (k + 1, Slot_init a), (k, Slot_init a)]"

lemma spawn_socket:
  assumes "table_ok c" and "spawn (socket_spec s run) c = Ret p c1"
  obtains c0 where "nextPid c = Ret p c0"
    and "c1 = queueResume p 0 (add_process p (next_addr c) (socket_object s p (next_slot c) run)
           (c0\<lparr>next_addr := Suc (next_addr c), slots := socket_slots (next_addr c) (next_slot c) @ slots c, next_slot := next_slot c + 3\<rparr>))"
proof -
  from assms(2) obtain q c0 where n: "nextPid c = Ret q c0" by (cases "nextPid c") (simp_all add: spawn_def)
  have f: "slots c0 = slots c" "next_slot c0 = next_slot c" "next_addr c0 = next_addr c"
    using n by (auto simp: nextPid_def Let_def split: if_splits)
  from assms(2) n f have "q = p \<and> c1 = queueResume p 0 (add_process p (next_addr c) (socket_object s p (next_slot c) run)
           (c0\<lparr>next_addr := Suc (next_addr c), slots := socket_slots (next_addr c) (next_slot c) @ slots c, next_slot := next_slot c + 3\<rparr>))"
    by (auto simp: spawn_def spawnArgs_def construct_def new_slot_def Let_def ProcessArgs_init_def Process_init_def
        socket_object_def socket_slots_def add_process_def queueResume_def)
  with n that show ?thesis by blast
qed

lemma spawn_socket_found:
  assumes "table_ok c" and "spawn (socket_spec s run) c = Ret p c1"
  shows "table_ok c1" and "heap c1 = (heap c)(next_addr c \<mapsto> socket_object s p (next_slot c) run)"
    and "findProc p c1 = Some (next_addr c)"
    and "slots c1 = socket_slots (next_addr c) (next_slot c) @ slots c" and "next_addr c1 = Suc (next_addr c)"
proof -
  have "keeps table_ok (spawn (socket_spec s run) c)" using assms(1) by (rule table.T_spawn_plain) simp
  then show ok: "table_ok c1" using assms(2) by simp
  obtain c0 where n: "nextPid c = Ret p c0" and c1: "c1 = queueResume p 0 (add_process p (next_addr c)
      (socket_object s p (next_slot c) run) (c0\<lparr>next_addr := Suc (next_addr c), slots := socket_slots (next_addr c) (next_slot c) @ slots c, next_slot := next_slot c + 3\<rparr>))"
    using assms by (rule spawn_socket)
  have "heap c0 = heap c" using n by (auto simp: nextPid_def Let_def split: if_splits)
  then show h: "heap c1 = (heap c)(next_addr c \<mapsto> socket_object s p (next_slot c) run)"
    and "slots c1 = socket_slots (next_addr c) (next_slot c) @ slots c" and "next_addr c1 = Suc (next_addr c)"
    by (simp_all add: c1 queueResume_def add_process_def)
  have "heap c1 (next_addr c) = Some (socket_object s p (next_slot c) run)" by (simp add: h)
  then show "findProc p c1 = Some (next_addr c)"
    using findProc_iff [of "{}" c1 p] ok by (simp add: table_ok_iff socket_object_def)
qed

section \<open>Accepting\<close>

lemma accept_spawns:
  assumes "table_ok c" and "heap c this = Some rp" and "on_accept this run NoError opt l c = Ret l' c1"
  obtains p c0 where "spawn (socket_spec (sslContext l) run) c = Ret p c0" and "c1 = addKillOnDie_at this p c0"
    and "findProc p c1 = Some (next_addr c)"
    and "heap c1 this = Some (rp\<lparr>rp_process := addKillOnDie p (rp_process rp)\<rparr>)"
proof -
  from assms(3) obtain p c0 where s: "spawn (socket_spec (sslContext l) run) c = Ret p c0" "c1 = addKillOnDie_at this p c0"
    by (auto simp: on_accept_def Let_def res_bind_Ret_conv split: option.splits)
  note f = spawn_socket_found [OF assms(1) s(1)]
  have "this \<noteq> next_addr c" using heap_below [OF assms(1,2)] by simp
  moreover have "findProc p c1 = findProc p c0" unfolding s(2) by (rule findProc_same_table) simp
  ultimately show ?thesis
    using that [OF s] f assms(2) s(2) by (simp add: addKillOnDie_at_def upd_proc_def)
qed

lemma run_steps_toDestroy: "run_steps S P c c' \<Longrightarrow> toDestroy c = [] \<Longrightarrow> toDestroy c' = []"
  by (induction rule: run_steps.induct) (auto elim!: run_stepE simp: destroy_all_done)

text \<open>C22: A connection never outlives its listener: after an accept, at whatever later moment between two
  rounds of \<open>run\<close> the new socket process is still alive, the listener is alive too, whatever the
  processes and the io service do in between (with fewer than \<open>2^64\<close> processes created).\<close>

theorem accepted_socket_never_outlives_listener:
  assumes "reachable any_spec P c0" and "io_steps any_spec P c0 c" and "heap c this = Some rp"
    and "on_accept this run NoError opt l c = Ret l' c1" and "findProc p c1 = Some (next_addr c)"
    and "io_steps any_spec P c1 c2" and "run_steps any_spec P (destroy_all c2) c3"
    and "next_addr c3 < 2 ^ 64" and "findProc p c3 \<noteq> None"
  shows "findProc (rp_pid rp) c3 = Some this"
proof -
  have "versions_inv c0" by (rule versions.sched.reachable_keeps [OF assms(1)]) simp
  then have v: "versions_inv c" by (rule versions.sched.io_steps_keeps [OF assms(2), rotated]) simp
  then have ok: "table_ok c" by (simp add: versions_inv_def)
  obtain q c' where s: "spawn (socket_spec (sslContext l) run) c = Ret q c'" "c1 = addKillOnDie_at this q c'"
      "findProc q c1 = Some (next_addr c)" "heap c1 this = Some (rp\<lparr>rp_process := addKillOnDie q (rp_process rp)\<rparr>)"
    using ok assms(3,4) by (rule accept_spawns)
  have "keeps versions_inv (spawn (socket_spec (sslContext l) run) c)" using v by (rule versions.T_spawn_plain) simp
  then have v1: "versions_inv c1" using s(1,2) by (auto intro: versions.T_frame)
  then have "owned_by {} c1" by (simp add: versions_inv_def table_ok_iff)
  then have "q = p" using s(3) assms(5) findProc_iff by fastforce
  then have "guarded this (rp_pid rp) p c1"
    using guarded_start [OF v1 s(4), of p] assms(5) by (simp add: addKillOnDie_def)
  then have "guarded this (rp_pid rp) p c2" by (rule leash.sched.io_steps_keeps [OF assms(6), rotated]) simp
  then have "guarded this (rp_pid rp) p (destroy_all c2)" by (rule leash.sched.destroy_all_keeps)
  then have "guarded this (rp_pid rp) p c3" by (rule leash.sched.run_steps_keeps [OF assms(7), rotated]) simp
  moreover have "toDestroy c3 = []" using assms(7) destroy_all_done by (rule run_steps_toDestroy)
  ultimately show ?thesis using assms(8,9) by (blast intro: guarded_alive)
qed

text \<open>A listener without SSL in the context with one process, and the accept of a first connection.\<close>

definition demo_listener :: ListenerProcess where
  "demo_listener = ListenerProcess_init \<lparr>sa_pid = demo_pid, sa_slot = 0\<rparr>
     \<lparr>lo_throttled = True, port = 12345, sslContextFactory = None\<rparr> 0"

lemmas accept_eval = on_accept_def demo_listener_def ListenerProcess_init_def asyncAccept_def spawn_def spawnArgs_def
  construct_def socket_spec_def nextPid_def demo_c1_def Context_init_def vector_max_size_def ProcessArgs_init_def
  Process_init_def new_slot_def queueResume_def addKillOnDie_at_def upd_proc_def

lemma demo_accept:
  "\<exists>l' c1. on_accept 0 (UserFrame 0) NoError None demo_listener demo_c1 = Ret l' c1 \<and> accepting l' \<and> toDestroy c1 = []
     \<and> next_addr c1 = 2 \<and> findProc \<lparr>idx = 1, version = 0\<rparr> c1 = Some 1"
  by (simp add: accept_eval findProc_def Let_def)

theorem accepted_socket_never_outlives_listener_witness:
  "\<exists>l' c1. on_accept 0 (UserFrame 0) NoError None demo_listener demo_c1 = Ret l' c1
     \<and> findProc \<lparr>idx = 1, version = 0\<rparr> (destroy_all c1) = Some 1 \<and> findProc demo_pid (destroy_all c1) = Some 0"
proof -
  obtain l' c1 where a: "on_accept 0 (UserFrame 0) NoError None demo_listener demo_c1 = Ret l' c1"
      "toDestroy c1 = []" "next_addr c1 = 2" "findProc \<lparr>idx = 1, version = 0\<rparr> c1 = Some 1"
    using demo_accept by blast
  have d: "destroy_all c1 = c1" using a(2) by (simp add: destroy_all.simps)
  have h: "heap demo_c1 0 = Some demo_rp" "next_addr demo_c1 = 1" by (simp_all add: demo_c1_def)
  have "findProc (rp_pid demo_rp) (destroy_all c1) = Some 0"
    by (rule accepted_socket_never_outlives_listener [OF demo_any(1) io_steps.io_refl h(1) a(1) _ io_steps.io_refl run_steps.run_refl])
      (use a h d in auto)
  then show ?thesis using a(1,4) d by (auto simp: demo_rp_def)
qed

lemma map_of_put:
  "map_of xs n = Some (a, p) \<Longrightarrow> map_of (map (\<lambda>(i, a, q). if i = n then (i, a, p') else (i, a, q)) xs) n = Some (a, p')"
  by (induction xs) (auto split: if_splits)

lemma promise_at_put: "promise_at c (UserP n) = Some p \<Longrightarrow> promise_at (put_promise (UserP n) p' c) (UserP n) = Some p'"
  using map_of_put by (fastforce simp: promise_at_def put_promise_def)

lemma resume_throws:
  "heap c this = Some rp \<Longrightarrow> \<not> dead rp \<Longrightarrow> run_task n P this rp (cancel_timer this c) = Throw e c' \<Longrightarrow>
   resume n P this c = Ret () (addtoDestroy (rp_pid rp) (''Caught exception: '' @ e) c')"
  by (simp add: resume_def concatString_def)

text \<open>C26: An accept error ends the listener and all its connections: the completion handler posts the
  wake-up of the listener, which waits for its error promise; invoking it ends the listener with the
  error, and the destruction that follows leaves neither the listener nor any process it was linked to.\<close>

theorem accept_error_ends_listener:
  assumes ok: "table_ok c" and h: "heap c this = Some rp" "\<not> dead rp" "lastWaiting rp = Some (WaitOnFuture (UserP (error_p l)))"
    and p: "promise_at c (UserP (error_p l)) = Some p" "exec p = Some (WakeFuture this (resumes rp))" "\<not> is_set p" "exception p = None"
  shows "\<exists>c1 c2. on_accept this run (OtherError t) opt l c = Ret (l\<lparr>accepting := False\<rparr>) c1
    \<and> posted c1 = posted c @ [WakeFuture this (resumes rp)]
    \<and> run_handler n P (WakeFuture this (resumes rp)) (c1\<lparr>posted := posted c\<rparr>) = Ret () c2
    \<and> toDestroy c2 = toDestroy c @ [(this, ''Caught exception: Listener threw '' @ t)]
    \<and> heap (destroy_all c2) this = None \<and> (\<forall>q\<in>set (killOnDie (rp_process rp)). findProc q (destroy_all c2) = None)"
proof -
  let ?e = "''Listener threw '' @ t"
  let ?p = "\<lparr>exec = None, is_set = True, exception = Some (Impl ?e)\<rparr>"
  let ?c = "put_promise (UserP (error_p l)) ?p c"
  let ?c1 = "?c\<lparr>posted := posted c @ [WakeFuture this (resumes rp)]\<rparr>"
  let ?cc = "cancel_timer this (?c1\<lparr>posted := posted c\<rparr>)"
  have "setException ?e p = (?p, [WakeFuture this (resumes rp)])"
    using p(2-4) by (cases p) (simp add: setException_def setIfUnset_def set_promise_def make_ExceptionWrapper_def)
  then have a: "on_accept this run (OtherError t) opt l c = Ret (l\<lparr>accepting := False\<rparr>) ?c1"
    using p(1) by (simp add: on_accept_def listener_setException_def concatString_def)
  have hc: "heap ?cc = heap c" "processes ?cc = processes c" "toDestroy ?cc = toDestroy c"
    by (simp_all add: put_promise_def cancel_timer_def)
  have pr: "promise_at ?cc (UserP (error_p l)) = Some ?p"
    using promise_at_put [OF p(1), of ?p] by (simp add: promise_at_def cancel_timer_def)
  have "run_task n P this rp ?cc = Throw ?e ?cc" using h pr by (simp add: run_task_def process_last_def process_def)
  moreover have hp: "heap (?c1\<lparr>posted := posted c\<rparr>) this = Some rp" using h(1) by (simp add: put_promise_def)
  ultimately have "resume n P this (?c1\<lparr>posted := posted c\<rparr>) = Ret () (addtoDestroy (rp_pid rp) (''Caught exception: '' @ ?e) ?cc)"
    using resume_throws [OF hp h(2)] by blast
  with hp have r: "run_handler n P (WakeFuture this (resumes rp)) (?c1\<lparr>posted := posted c\<rparr>) = Ret () (addtoDestroy (rp_pid rp) (''Caught exception: '' @ ?e) ?cc)"
    by simp
  have st: "same_table c ?cc" by (simp add: same_table_def hc) (simp add: put_promise_def cancel_timer_def)
  have f: "findProc (rp_pid rp) ?cc = Some this"
    using findProc_same_table [OF st] findProc_iff [of "{}" c] ok h by (simp add: table_ok_iff)
  have "heap ?cc this = Some rp" using h(1) hc(1) by simp
  note k = killed_with_links [OF table_ok_frame [OF ok st] f this refl, where s = "''Caught exception: '' @ ?e"]
  from k(1) hc(3) have td: "toDestroy (addtoDestroy (rp_pid rp) (''Caught exception: '' @ ?e) ?cc)
      = toDestroy c @ [(this, ''Caught exception: Listener threw '' @ t)]" by simp
  show ?thesis by (intro exI conjI ballI, rule a, simp, rule r, rule td, rule k(2), rule k(3))
qed

text \<open>The listener waiting for an error, linked to nothing yet.\<close>

definition waiting_listener :: "(nat, nat) Context" where
  "waiting_listener = demo_c1\<lparr>
     heap := (\<lambda>_. None)(0 \<mapsto> demo_rp\<lparr>lastWaiting := Some (WaitOnFuture (UserP 0)), resumes := 1\<rparr>),
     promises := [(0, 0, \<lparr>exec = Some (WakeFuture 0 1), is_set = False, exception = None\<rparr>)]\<rparr>"

theorem accept_error_ends_listener_witness:
  "\<exists>c1 c2. on_accept 0 (UserFrame 0) (OtherError ''no files'') None demo_listener waiting_listener = Ret demo_listener c1
    \<and> run_handler 0 demo_prog (WakeFuture 0 1) (c1\<lparr>posted := []\<rparr>) = Ret () c2
    \<and> toDestroy c2 = [(0, ''Caught exception: Listener threw no files'')] \<and> heap (destroy_all c2) 0 = None"
proof -
  let ?rp = "demo_rp\<lparr>lastWaiting := Some (WaitOnFuture (UserP 0)), resumes := 1\<rparr>"
  let ?p = "\<lparr>exec = Some (WakeFuture 0 1), is_set = False, exception = None\<rparr>"
  have st: "same_table demo_c1 waiting_listener"
    by (simp add: same_table_def waiting_listener_def demo_c1_def same_proc_def)
  have h: "heap waiting_listener 0 = Some ?rp" "promise_at waiting_listener (UserP (error_p demo_listener)) = Some ?p"
    "posted waiting_listener = []" "toDestroy waiting_listener = []"
    by (simp_all add: waiting_listener_def promise_at_def demo_listener_def ListenerProcess_init_def demo_c1_def Context_init_def)
  show ?thesis
    using accept_error_ends_listener [OF table_ok_frame [OF reachable_table_ok [OF demo_any(1)] st] h(1) _ _ h(2),
        of "UserFrame 0" "''no files''" None 0 demo_prog] h(3,4)
    by (simp add: demo_rp_def demo_listener_def ListenerProcess_init_def) blast
qed

section \<open>Sending\<close>

lemma socket_members:
  "map_of (pr_members (rp_process (socket_object s p k run))) ''send_data'' = Some k"
  "map_of (pr_members (rp_process (socket_object s p k run))) ''send_many_data'' = Some (k + 1)"
  "map_of (pr_members (rp_process (socket_object s p k run))) ''init'' = Some (k + 2)"
  "''SocketProcess'' \<in> set (pr_classes (rp_process (socket_object s p k run)))"
  by (simp_all add: socket_object_def Process_init_def ProcessArgs_init_def Let_def)

lemma to_socket_alive:
  "findProc p c = Some a \<Longrightarrow> heap c a = Some rp \<Longrightarrow> ''SocketProcess'' \<in> set (pr_classes (rp_process rp)) \<Longrightarrow>
   map_of (pr_members (rp_process rp)) slot = Some i \<Longrightarrow>
   to_socket slot p m c = (let c = queueSend \<lparr>sa_pid = p, sa_slot = i\<rparr> (MVal m) c in Ret (waitOnQueue c) c)"
  by (simp add: to_socket_def makeSendAddress_def send_def Let_def)

lemma to_socket_dead:
  "findProc p c = None \<Longrightarrow> to_socket slot p m c = Throw (''No process found for pid '' @ toString p) c"
  by (simp add: to_socket_def makeSendAddress_def concatString_def)

text \<open>Delivery to a process that has not started yet: the message waits in its slot.\<close>

lemma deliver_not_waiting:
  assumes "findProc p c = Some a" and "heap c a = Some rp" and "lastWaiting rp = None"
    and "slot_queue (slots c) i = Some mq"
  shows "processQueueItem n P \<lparr>ti_pid = p, ti_resume = None, ti_message = Some (\<lparr>sa_pid = p, sa_slot = i\<rparr>, m)\<rparr> c
    = Ret () (c\<lparr>slots := set_slot_queue i (mq_push m mq) (slots c)\<rparr>)"
  using assms by (simp add: processQueueItem_def rp_send_def waitingFor_def Let_def)

text \<open>The work item of \<open>Tcp::send\<close>.\<close>

definition data_item :: "Pid \<Rightarrow> SlotId \<Rightarrow> Buffer \<Rightarrow> 'm TcpMessage ToProcessItem" where
  "data_item p d b = \<lparr>ti_pid = p, ti_resume = None, ti_message = Some (\<lparr>sa_pid = p, sa_slot = d\<rparr>, MVal (DataMsg b))\<rparr>"

text \<open>C28: What is sent to a new connection arrives: \<open>Tcp::send\<close> to a socket process that has just been
  spawned succeeds and puts exactly one item at the end of the work queue, and processing this item
  puts the data into the slot \<open>send_data\<close> of this process and changes no other slot.\<close>

theorem tcp_send_reaches_socket:
  assumes "reachable any_spec P c" and "spawn (socket_spec s run) c = Ret p c1"
  shows "owner c1 (next_slot c) = findProc p c1 \<and> owner c1 (next_slot c) \<noteq> None \<and> (\<exists>w c2 c3. Tcp_send p b c1 = Ret w c2 \<and> queue c2 = queue c1 @ [data_item p (next_slot c) b]
    \<and> processQueueItem n P (data_item p (next_slot c) b) c2 = Ret () c3 \<and> slot_list (slots c3) = (slot_list (slots c1))(next_slot c := [MVal (DataMsg b)]))"
proof -
  have ok: "table_ok c" using assms(1) by (rule reachable_table_ok)
  note f = spawn_socket_found [OF ok assms(2)]
  let ?d = "next_slot c"
  let ?o = "socket_object s p (next_slot c) run"
  have h: "heap c1 (next_addr c) = Some ?o" by (simp add: f(2))
  let ?c2 = "queueSend \<lparr>sa_pid = p, sa_slot = ?d\<rparr> (MVal (DataMsg b)) c1"

  have q: "slot_queue (slots c1) ?d = Some MessageQueue_init"
    by (simp add: f(4) socket_slots_def slot_queue_def Slot_init_def)
  have o: "owner c1 ?d = Some (next_addr c)"
    by (simp add: f(4) owner_def socket_slots_def  Slot_init_def)
  have send: "Tcp_send p b c1 = Ret (waitOnQueue ?c2) ?c2"
    using to_socket_alive [OF f(3) h socket_members(4) socket_members(1)] by (simp add: Tcp_send_def Let_def)
  have "findProc p ?c2 = Some (next_addr c)" using f(3) by (simp add: findProc_same_table [OF same_table_basic(1)])
  then have "processQueueItem n P (data_item p ?d b) ?c2
      = Ret () (?c2\<lparr>slots := set_slot_queue ?d (mq_push (MVal (DataMsg b)) MessageQueue_init) (slots ?c2)\<rparr>)"
    unfolding data_item_def by (rule deliver_not_waiting [where rp = ?o]) (use h q in \<open>simp_all add: queueSend_def socket_object_def\<close>)
  moreover have "slot_list (set_slot_queue ?d (mq_push (MVal (DataMsg b)) MessageQueue_init) (slots ?c2))
      = (slot_list (slots c1))(?d := [MVal (DataMsg b)])"
    using slot_list_set [OF q] by (simp add: queueSend_def mq.contents_push [OF mq.inv_empty] mq.contents_empty)
  moreover have "queue ?c2 = queue c1 @ [data_item p ?d b]" by (simp add: queueSend_def data_item_def)
  ultimately show ?thesis using send o f(3) by auto
qed

definition demo_buffer :: Buffer where
  "demo_buffer = \<lparr>bufptr = 0, bufoffset = 0, buflength = 1\<rparr>"

theorem tcp_send_reaches_socket_witness:
  "\<exists>c1 w c2. spawn (socket_spec False (UserFrame 0)) (Context_init :: (nat, nat TcpMessage) Context) = Ret demo_pid c1
     \<and> Tcp_send demo_pid demo_buffer c1 = Ret w c2 \<and> queue c2 = queue c1 @ [data_item demo_pid 0 demo_buffer]"
proof -
  let ?c = "Context_init :: (nat, nat TcpMessage) Context"
  obtain c1 where s: "spawn (socket_spec False (UserFrame 0)) ?c = Ret demo_pid c1"
    by (simp add: accept_eval demo_pid_def Let_def)
  have "next_slot ?c = 0" by (simp add: Context_init_def)
  then show ?thesis using s tcp_send_reaches_socket [OF reachable.fresh s, where b = demo_buffer and n = 0 and P = "\<lambda>_ _. CoReturn AUnit"] by auto
qed

section \<open>Batching\<close>

definition push_all :: "Buffer list \<Rightarrow> StreamBatcher \<Rightarrow> StreamBatcher" where
  "push_all bs sb = fold batcher_push bs sb"

lemma push_all_init [simp]: "push_all bs (StreamBatcher_init p) = \<lparr>sb_socket = p, sb_buffs = bs\<rparr>"
proof -
  have "fold batcher_push bs sb = sb\<lparr>sb_buffs := sb_buffs sb @ bs\<rparr>" for sb
    by (induction bs arbitrary: sb) (simp_all add: batcher_push_def)
  then show ?thesis by (simp add: push_all_def StreamBatcher_init_def)
qed

text \<open>
  The life of a batcher: any sequence of \<open>push\<close> and \<open>clear\<close>, and at the end its destructor. When a \<open>clear\<close> throws, the
  batcher is empty already, so that the destructor does nothing.
\<close>

datatype batcher_op = PushOp Buffer | ClearOp

primrec batcher_life :: "batcher_op list \<Rightarrow> StreamBatcher \<Rightarrow> ('st, 'm TcpMessage) Context \<Rightarrow> (unit, ('st, 'm TcpMessage) Context) res" where
  "batcher_life [] sb c = batcher_destroy sb c"
| "batcher_life (x # xs) sb c =
     (case x of
        PushOp b \<Rightarrow> batcher_life xs (batcher_push b sb) c
      | ClearOp \<Rightarrow> res_bind (snd (batcher_clear sb c)) (\<lambda>_ c'. batcher_life xs (fst (batcher_clear sb c)) c'))"

text \<open>What is to be sent: the buffers pushed between two calls of \<open>clear\<close>, or after the last one, together; nothing for no buffers.\<close>

fun batches_of :: "batcher_op list \<Rightarrow> Buffer list \<Rightarrow> Buffer list list" where
  "batches_of [] bs = (if bs = [] then [] else [bs])"
| "batches_of (PushOp b # xs) bs = batches_of xs (bs @ [b])"
| "batches_of (ClearOp # xs) bs = (if bs = [] then [] else [bs]) @ batches_of xs []"

definition pushes_of :: "batcher_op list \<Rightarrow> Buffer list" where
  "pushes_of xs = concat (map (\<lambda>x. case x of PushOp b \<Rightarrow> [b] | ClearOp \<Rightarrow> []) xs)"

lemma batches_concat: "concat (batches_of xs bs) = bs @ pushes_of xs"
  by (induction xs bs rule: batches_of.induct) (simp_all add: pushes_of_def)

lemma batcher_clear_alive:
  assumes "findProc p c = Some a" and "heap c a = Some rp" and "''SocketProcess'' \<in> set (pr_classes (rp_process rp))"
    and "map_of (pr_members (rp_process rp)) ''send_many_data'' = Some i"
  shows "batcher_clear \<lparr>sb_socket = p, sb_buffs = bs\<rparr> c
    = (\<lparr>sb_socket = p, sb_buffs = []\<rparr>, Ret () (if bs = [] then c else queueSend \<lparr>sa_pid = p, sa_slot = i\<rparr> (MVal (ManyMsg bs)) c))"
  using to_socket_alive [OF assms] by (simp add: batcher_clear_def Tcp_sendMany_def Let_def)

lemma batcher_life_sends:
  assumes "findProc p c = Some a" and "heap c a = Some rp" and "''SocketProcess'' \<in> set (pr_classes (rp_process rp))"
    and "map_of (pr_members (rp_process rp)) ''send_many_data'' = Some i"
  shows "batcher_life xs \<lparr>sb_socket = p, sb_buffs = bs\<rparr> c
    = Ret () (fold (\<lambda>bs. queueSend \<lparr>sa_pid = p, sa_slot = i\<rparr> (MVal (ManyMsg bs))) (batches_of xs bs) c)"
  using assms(1,2)
proof (induction xs arbitrary: bs c)
  case Nil
  then show ?case using batcher_clear_alive [OF Nil assms(3,4)] by (simp add: batcher_destroy_def)
next
  case (Cons x xs)
  have n: "findProc p (queueSend \<lparr>sa_pid = p, sa_slot = i\<rparr> m c) = Some a" "heap (queueSend \<lparr>sa_pid = p, sa_slot = i\<rparr> m c) a = Some rp" for m
    using Cons.prems by (simp_all add: findProc_same_table [OF same_table_basic(1)]) (simp add: queueSend_def)
  show ?case
    using Cons.IH [OF n] Cons.IH [OF Cons.prems] batcher_clear_alive [OF Cons.prems assms(3,4)]
    by (cases x) (simp_all add: batcher_push_def)
qed

text \<open>C29: A batcher of a socket process that is alive sends every buffer exactly once: whatever the sequence of
  pushes and clears, by the end of its destructor the buffers pushed between two calls of \<open>clear\<close>, and after the
  last one, have been queued together as one message for the slot \<open>send_many_data\<close> of the socket process, no
  message has been queued where nothing was pushed, and one after the other these messages hold the buffers in
  the order of the pushes.\<close>

theorem batcher_sends_once:
  assumes "findProc p c = Some a" and "heap c a = Some rp" and "''SocketProcess'' \<in> set (pr_classes (rp_process rp))"
    and "map_of (pr_members (rp_process rp)) ''send_many_data'' = Some i"
  shows "batcher_life xs (StreamBatcher_init p) c
      = Ret () (fold (\<lambda>bs. queueSend \<lparr>sa_pid = p, sa_slot = i\<rparr> (MVal (ManyMsg bs))) (batches_of xs []) c)
    \<and> concat (batches_of xs []) = pushes_of xs \<and> [] \<notin> set (batches_of xs [])"
proof -
  have "[] \<notin> set (batches_of xs bs)" for bs by (induction xs bs rule: batches_of.induct) simp_all
  then show ?thesis using batcher_life_sends [OF assms] batches_concat [of xs "[]"] by (simp add: StreamBatcher_init_def)
qed

text \<open>Two messages: one from the \<open>clear\<close> after two pushes, one from the destructor after a third; the second \<open>clear\<close> sends nothing.\<close>

theorem batcher_sends_once_witness:
  "\<exists>c1. spawn (socket_spec False (UserFrame 0)) (Context_init :: (nat, nat TcpMessage) Context) = Ret demo_pid c1
     \<and> batcher_life [PushOp demo_buffer, PushOp demo_buffer, ClearOp, ClearOp, PushOp demo_buffer] (StreamBatcher_init demo_pid) c1
       = Ret () (queueSend \<lparr>sa_pid = demo_pid, sa_slot = 1\<rparr> (MVal (ManyMsg [demo_buffer]))
           (queueSend \<lparr>sa_pid = demo_pid, sa_slot = 1\<rparr> (MVal (ManyMsg [demo_buffer, demo_buffer])) c1))"
proof -
  let ?c = "Context_init :: (nat, nat TcpMessage) Context"
  obtain c1 where s: "spawn (socket_spec False (UserFrame 0)) ?c = Ret demo_pid c1"
    by (simp add: accept_eval demo_pid_def Let_def)
  note f = spawn_socket_found [OF table_ok_init s]
  have "heap c1 (next_addr ?c) = Some (socket_object False demo_pid (next_slot ?c) (UserFrame 0))" by (simp add: f(2))
  from batcher_sends_once [OF f(3) this socket_members(4,2), of "[PushOp demo_buffer, PushOp demo_buffer, ClearOp, ClearOp, PushOp demo_buffer]"] s
  show ?thesis by (simp add: Context_init_def del: batcher_life.simps)
qed

text \<open>A batcher that goes out of scope with buffers left after the socket process has died ends the
  whole program: the exception of \<open>makeSendAddress\<close> leaves the destructor.\<close>

theorem batcher_terminates_on_dead_socket:
  assumes "findProc p c = None" and "bs \<noteq> []"
  shows "batcher_destroy (push_all bs (StreamBatcher_init p)) c = Undef Terminated"
  using to_socket_dead [OF assms(1)] assms(2) by (simp add: batcher_destroy_def batcher_clear_def Tcp_sendMany_def)

theorem batcher_terminates_on_dead_socket_witness:
  "batcher_destroy (push_all [demo_buffer] (StreamBatcher_init demo_pid)) (Context_init :: (nat, nat TcpMessage) Context)
     = Undef Terminated"
  by (rule batcher_terminates_on_dead_socket) (simp_all add: findProc_def Context_init_def)

end
