(* ===== verification/Socket_Ok.thy ===== *)
theory Socket_Ok
  imports Socket "HOL-Library.Multiset"
begin

text \<open>
  What the socket process keeps true: the invariant of its state, for a coroutine that runs and for
  one that is suspended, and its preservation by every event. What can be undefined is what depends on the
  process the socket sends its data to: that process is looked up before data is sent to it, and the promise that
  says that its queue has room is looked at when the socket is resumed (\<open>risk\<close>).
\<close>

section \<open>Storage and its holders\<close>

text \<open>
  \<open>sole h ks hs\<close>: the buffers \<open>hs\<close> of the process and the copies \<open>ks\<close> of its senders are as \<open>make\<close> creates them,
  no two of \<open>hs\<close> and no two of \<open>ks\<close> share storage, and nobody else refers to it.
\<close>

definition bytes :: "BuffHeap \<Rightarrow> Buffer \<Rightarrow> byte list" where
  "bytes h b = (case buffs h (bufptr b) of None \<Rightarrow> [] | Some bf \<Rightarrow> bdata bf)"

definition owns :: "BuffHeap \<Rightarrow> 32 word \<Rightarrow> Buffer \<Rightarrow> bool" where
  "owns h r b \<longleftrightarrow> (\<exists>d. buffs h (bufptr b) = Some \<lparr>bdata = d, refs = r\<rparr> \<and> length d \<le> byte_vector_max
     \<and> bufoffset b = 0 \<and> buflength b = of_nat (length d))"

definition holders :: "Buffer list \<Rightarrow> Buffer list \<Rightarrow> Buffer \<Rightarrow> 32 word" where
  "holders ks hs b = (if bufptr b \<in> bufptr ` set hs \<and> bufptr b \<in> bufptr ` set ks then 2 else 1)"

definition sole :: "BuffHeap \<Rightarrow> Buffer list \<Rightarrow> Buffer list \<Rightarrow> bool" where
  "sole h ks hs \<longleftrightarrow> (\<forall>p\<ge>next_buff h. buffs h p = None) \<and> distinct (map bufptr hs) \<and> distinct (map bufptr ks)
     \<and> (\<forall>b\<in>set hs \<union> set ks. owns h (holders ks hs b) b)"

lemma holders_other:
  "bufptr c \<noteq> bufptr b \<Longrightarrow> holders ks (b # hs) c = holders ks hs c"
  "bufptr c \<noteq> bufptr b \<Longrightarrow> holders (b # ks) hs c = holders ks hs c"
  "bufptr c \<noteq> bufptr b \<Longrightarrow> holders (ks @ [b]) hs c = holders ks hs c"
  by (simp_all add: holders_def)

lemma sole_swap: "sole h ks hs = sole h hs ks"
  by (simp add: sole_def holders_def conj_commute conj_left_commute Un_commute)

lemma sole_mset:
  assumes "mset hs = mset hs'"
  shows "sole h ks hs = sole h ks hs'"
proof -
  have "mset (map bufptr hs) = mset (map bufptr hs')" using assms by simp
  then have "distinct (map bufptr hs) = distinct (map bufptr hs')" by (rule mset_eq_imp_distinct_iff)
  then show ?thesis using mset_eq_setD [OF assms] by (simp add: sole_def holders_def)
qed

lemma soleD:
  assumes "sole h ks hs"
  shows "\<And>p. next_buff h \<le> p \<Longrightarrow> buffs h p = None" "distinct (map bufptr hs)" "distinct (map bufptr ks)"
    "\<And>b. b \<in> set hs \<union> set ks \<Longrightarrow> owns h (holders ks hs b) b"
  using assms by (simp_all add: sole_def)

lemma owns_bytes: "owns h r b \<Longrightarrow> Buffer_bytes h b = Some (bytes h b)"
  by (auto simp: owns_def bytes_def Buffer_bytes_def unat_vector_size)

lemma owns_below:
  assumes "sole h ks hs" and "b \<in> set hs \<union> set ks"
  shows "bufptr b < next_buff h"
proof -
  have "buffs h (bufptr b) \<noteq> None" using assms by (auto simp: sole_def owns_def)
  then show ?thesis using soleD(1) [OF assms(1), of "bufptr b"] by force
qed

lemma owns_same: "owns h r b \<Longrightarrow> buffs h' (bufptr b) = buffs h (bufptr b) \<Longrightarrow> r' = r \<Longrightarrow> owns h' r' b"
  by (simp add: owns_def)

text \<open>\<open>frame h h' hs\<close>: the buffers \<open>hs\<close> keep their bytes.\<close>

definition frame :: "BuffHeap \<Rightarrow> BuffHeap \<Rightarrow> Buffer list \<Rightarrow> bool" where
  "frame h h' hs \<longleftrightarrow> (\<forall>b\<in>set hs. bytes h' b = bytes h b)"

definition contents :: "BuffHeap \<Rightarrow> Buffer list \<Rightarrow> byte list list" where
  "contents h bs = map (bytes h) bs"

lemma contents_simps [simp]:
  "contents h [] = []" "contents h (b # bs) = bytes h b # contents h bs" "contents h (bs @ cs) = contents h bs @ contents h cs"
  by (simp_all add: contents_def)

lemma contents_frame: "frame h h' hs \<Longrightarrow> set bs \<subseteq> set hs \<Longrightarrow> contents h' bs = contents h bs"
  by (auto simp: frame_def contents_def)

lemma frame_trans: "frame h h' hs \<Longrightarrow> frame h' h'' hs' \<Longrightarrow> set hs' \<subseteq> set hs \<Longrightarrow> frame h h'' hs'"
  by (auto simp: frame_def)

lemma sole_make:
  assumes "sole h ks hs" and "length d \<le> byte_vector_max" and "Buffer_make d h = Some (b, h')"
  shows "sole h' ks (b # hs)" "frame h h' hs" "bytes h' b = d" "next_buff h \<le> next_buff h'" "bufptr b = next_buff h"
    "\<And>p. p < next_buff h \<Longrightarrow> buffs h' p = buffs h p" "owns h' 1 b"
proof -
  have h': "b = \<lparr>bufptr = next_buff h, bufoffset = 0, buflength = of_nat (length d)\<rparr>" "next_buff h' = Suc (next_buff h)"
      "buffs h' = (buffs h)(next_buff h \<mapsto> \<lparr>bdata = d, refs = 1\<rparr>)"
    using assms(3) by (auto simp: Buffer_make_eq)
  have below: "bufptr c < next_buff h" if "c \<in> set hs \<union> set ks" for c using owns_below [OF assms(1) that] .
  show new: "owns h' 1 b" using h' assms(2) by (simp add: owns_def)
  have b: "holders ks (b # hs) b = 1" using below h'(1) by (fastforce simp: holders_def)
  have "owns h' (holders ks (b # hs) c) c" if c: "c \<in> set hs \<union> set ks" for c
    by (rule owns_same [OF soleD(4) [OF assms(1) c]]) (use below [OF c] h' in \<open>simp_all add: holders_other\<close>)
  moreover have "next_buff h \<notin> bufptr ` set hs" using below by fastforce
  ultimately show "sole h' ks (b # hs)" using assms(1) h' b new by (auto simp: sole_def)
  show "frame h h' hs" using below h'(3) by (fastforce simp: frame_def bytes_def)
  show "bytes h' b = d" "next_buff h \<le> next_buff h'" "bufptr b = next_buff h" using h' by (simp_all add: bytes_def)
  show "\<And>p. p < next_buff h \<Longrightarrow> buffs h' p = buffs h p" using h'(3) by simp
qed

text \<open>One holder of a storage goes away: a buffer of the process, or a copy of a sender.\<close>

lemma release_ref:
  assumes "owns h r b"
  shows "Buffer_destroy b h = Some (h\<lparr>buffs := (buffs h)(bufptr b := (if r = 1 then None else Some \<lparr>bdata = bytes h b, refs = r - 1\<rparr>))\<rparr>)"
  using assms by (auto simp: owns_def bytes_def Buffer_destroy_def intrusive_ptr_release_def Let_def)

lemma sole_destroy:
  assumes "sole h ks (b # hs)"
  shows "\<exists>h'. Buffer_destroy b h = Some h' \<and> sole h' ks hs \<and> frame h h' hs \<and> next_buff h' = next_buff h
    \<and> (bufptr b \<notin> bufptr ` set ks \<longrightarrow> buffs h' (bufptr b) = None) \<and> (\<forall>p. p \<noteq> bufptr b \<longrightarrow> buffs h' p = buffs h p)"
proof -
  let ?r = "holders ks (b # hs) b"
  let ?h = "h\<lparr>buffs := (buffs h)(bufptr b := (if ?r = 1 then None else Some \<lparr>bdata = bytes h b, refs = ?r - 1\<rparr>))\<rparr>"
  have own: "owns h ?r b" using soleD(4) [OF assms] by simp
  have fresh: "bufptr b < next_buff h" using owns_below [OF assms] by simp
  have "bufptr b \<notin> bufptr ` set hs" using soleD(2) [OF assms] by simp
  then have other: "bufptr c \<noteq> bufptr b" if "c \<in> set hs" for c using that by (metis imageI)
  have "owns ?h (holders ks hs c) c" if c: "c \<in> set hs \<union> set ks" for c
  proof (cases "bufptr c = bufptr b")
    case True
    then have "c \<in> set ks" using c other by auto
    then have "bufptr b \<in> bufptr ` set ks" using True by (metis imageI)
    then have r: "?r = 2" by (simp add: holders_def)
    have "owns h (holders ks (b # hs) c) c" using soleD(4) [OF assms] \<open>c \<in> set ks\<close> by simp
    then have "owns h 2 c" using r True by (simp add: holders_def)
    moreover have "holders ks hs c = 1" using True \<open>bufptr b \<notin> bufptr ` set hs\<close> by (simp add: holders_def)
    ultimately show ?thesis using r True by (auto simp: owns_def bytes_def)
  next
    case False
    have "c \<in> set (b # hs) \<union> set ks" using c by auto
    then show ?thesis by (rule owns_same [OF soleD(4) [OF assms]]) (use False in \<open>simp_all add: holders_other\<close>)
  qed
  then have "sole ?h ks hs" using assms fresh by (auto simp: sole_def)
  moreover have "frame h ?h hs" using other by (auto simp: frame_def bytes_def)
  moreover have "bufptr b \<notin> bufptr ` set ks \<longrightarrow> ?r = 1" by (simp add: holders_def)
  ultimately show ?thesis using release_ref [OF own] by (intro exI [of _ ?h]) simp
qed

lemma sole_release_copy:
  assumes "sole h (b # ks) hs"
  shows "\<exists>h'. Buffer_destroy b h = Some h' \<and> sole h' ks hs \<and> frame h h' hs \<and> next_buff h' = next_buff h
    \<and> (bufptr b \<notin> bufptr ` set hs \<longrightarrow> buffs h' (bufptr b) = None) \<and> (\<forall>p. p \<noteq> bufptr b \<longrightarrow> buffs h' p = buffs h p)"
proof -
  obtain h' where h': "Buffer_destroy b h = Some h'" "sole h' ks hs" "next_buff h' = next_buff h"
      "bufptr b \<notin> bufptr ` set hs \<longrightarrow> buffs h' (bufptr b) = None" "\<forall>p. p \<noteq> bufptr b \<longrightarrow> buffs h' p = buffs h p"
    using sole_destroy [of h hs b ks] assms sole_swap by metis
  have own: "owns h (holders (b # ks) hs b) b" using soleD(4) [OF assms] by simp
  have "bytes h' c = bytes h c" if c: "c \<in> set hs" for c
  proof (cases "bufptr c = bufptr b")
    case True
    then have "bufptr b \<in> bufptr ` set hs" using c by (metis imageI)
    then have "holders (b # ks) hs b = 2" by (simp add: holders_def)
    then show ?thesis using release_ref [OF own] h'(1) True by (auto simp: bytes_def)
  qed (use h'(5) in \<open>simp add: bytes_def\<close>)
  then show ?thesis using h' by (auto simp: frame_def)
qed

lemma sole_mset_copies: "mset ks = mset ks' \<Longrightarrow> sole h ks hs = sole h ks' hs"
  using sole_mset [of ks ks' h hs] by (simp only: sole_swap [of h _ hs])

text \<open>Copying a buffer and destroying the copy changes nothing.\<close>

lemma copy_then_destroy:
  assumes "owns h r b" and "r \<noteq> 0"
  shows "\<exists>h'. Buffer_copy b h = Some (b, h') \<and> Buffer_bytes h' b = Some (bytes h b) \<and> Buffer_destroy b h' = Some h"
proof -
  obtain d where d: "buffs h (bufptr b) = Some \<lparr>bdata = d, refs = r\<rparr>" "length d \<le> byte_vector_max"
      "bufoffset b = 0" "buflength b = of_nat (length d)"
    using assms by (auto simp: owns_def)
  let ?h = "h\<lparr>buffs := (buffs h)(bufptr b \<mapsto> \<lparr>bdata = d, refs = r + 1\<rparr>)\<rparr>"
  have "Buffer_copy b h = Some (b, ?h)" using d(1) by (simp add: Buffer_copy_def intrusive_ptr_add_ref_def)
  moreover have "Buffer_bytes ?h b = Some (bytes h b)" using d by (simp add: Buffer_bytes_def bytes_def unat_vector_size)
  moreover have "Buffer_destroy b ?h = Some h"
    using d(1) assms(2) by (simp add: Buffer_destroy_def intrusive_ptr_release_def Let_def fun_upd_idem)
  ultimately show ?thesis by blast
qed

lemma holders_nonzero [simp]: "holders ks hs b \<noteq> 0"
  by (simp add: holders_def)

text \<open>A sender makes a buffer, and may keep a copy.\<close>

lemma sole_sender_makes:
  assumes "sole (bheap s) (kept s) hs" and "length d \<le> byte_vector_max"
  shows "\<exists>b h ks. sender_makes d keep s = Some (b, s\<lparr>bheap := h, kept := ks\<rparr>) \<and> sole h ks (b # hs) \<and> frame (bheap s) h hs
    \<and> bytes h b = d \<and> next_buff (bheap s) \<le> next_buff h \<and> bufptr b = next_buff (bheap s) \<and> (keep \<longrightarrow> bufptr b \<in> bufptr ` set ks)
    \<and> (\<forall>p<next_buff (bheap s). buffs h p = buffs (bheap s) p \<and> (p \<in> bufptr ` set ks \<longleftrightarrow> p \<in> bufptr ` set (kept s)))"
proof -
  obtain b h where m: "Buffer_make d (bheap s) = Some (b, h)" by (simp add: Buffer_make_eq)
  note mk = sole_make [OF assms m]
  show ?thesis
  proof (cases keep)
    case False
    moreover have "s\<lparr>bheap := h\<rparr> = s\<lparr>bheap := h, kept := kept s\<rparr>" by simp
    ultimately show ?thesis using m mk by (intro exI [of _ b] exI [of _ h] exI [of _ "kept s"]) (simp add: sender_makes_def)
  next
    case True
    obtain e where e: "buffs h (bufptr b) = Some \<lparr>bdata = e, refs = 1\<rparr>" "length e \<le> byte_vector_max" "bufoffset b = 0"
        "buflength b = of_nat (length e)" using mk(7) by (auto simp: owns_def)
    let ?h = "h\<lparr>buffs := (buffs h)(bufptr b \<mapsto> \<lparr>bdata = e, refs = 2\<rparr>)\<rparr>"
    let ?ks = "kept s @ [b]"
    have c: "Buffer_copy b h = Some (b, ?h)" using e(1) by (simp add: Buffer_copy_def intrusive_ptr_add_ref_def)
    have below: "bufptr c < bufptr b" if "c \<in> set hs \<union> set (kept s)" for c using owns_below [OF assms(1) that] mk(5) by simp
    have "owns ?h (holders ?ks (b # hs) a) a" if a: "a \<in> set (b # hs) \<union> set ?ks" for a
    proof (cases "a = b")
      case True
      then show ?thesis using e by (simp add: owns_def holders_def)
    next
      case False
      then have "bufptr a \<noteq> bufptr b" "a \<in> set (b # hs) \<union> set (kept s)" using a below by fastforce+
      then show ?thesis by (intro owns_same [OF soleD(4) [OF mk(1)]]) (simp_all add: holders_other)
    qed
    moreover have "bufptr b \<notin> bufptr ` set (kept s)" using below by fastforce
    ultimately have so: "sole ?h ?ks (b # hs)" using mk(1) mk(5) owns_below [OF mk(1), of b] by (auto simp: sole_def)
    have "frame (bheap s) ?h hs" using mk(2) below by (fastforce simp: frame_def bytes_def)
    moreover have "bytes ?h b = d" using mk(3) e(1) by (simp add: bytes_def)
    ultimately show ?thesis using True m c so mk(4-6)
      by (intro exI [of _ b] exI [of _ ?h] exI [of _ ?ks]) (auto simp: sender_makes_def)
  qed
qed

lemma sole_make_all:
  assumes "sole (bheap s) (kept s) hs" and "\<forall>d\<in>set ds. length (fst d) \<le> byte_vector_max"
  shows "\<exists>bs h ks. make_all ds s = Some (bs, s\<lparr>bheap := h, kept := ks\<rparr>) \<and> sole h ks (bs @ hs) \<and> frame (bheap s) h hs
    \<and> next_buff (bheap s) \<le> next_buff h \<and> (\<forall>b\<in>set bs. next_buff (bheap s) \<le> bufptr b)
    \<and> (\<forall>p<next_buff (bheap s). buffs h p = buffs (bheap s) p \<and> (p \<in> bufptr ` set ks \<longleftrightarrow> p \<in> bufptr ` set (kept s)))"
  using assms
proof (induction ds arbitrary: s hs)
  case Nil
  have "make_all [] s = Some ([], s\<lparr>bheap := bheap s, kept := kept s\<rparr>)" by (cases s) simp
  then show ?case using Nil.prems(1)
    by (intro exI [of _ "[]"] exI [of _ "bheap s"] exI [of _ "kept s"] conjI) (simp_all add: frame_def del: make_all.simps)
next
  case (Cons d ds)
  obtain b h1 ks1 where m: "sender_makes (fst d) (snd d) s = Some (b, s\<lparr>bheap := h1, kept := ks1\<rparr>)" "sole h1 ks1 (b # hs)"
      "frame (bheap s) h1 hs" "next_buff (bheap s) \<le> next_buff h1" "bufptr b = next_buff (bheap s)"
      "\<forall>p<next_buff (bheap s). buffs h1 p = buffs (bheap s) p \<and> (p \<in> bufptr ` set ks1 \<longleftrightarrow> p \<in> bufptr ` set (kept s))"
    using sole_sender_makes [OF Cons.prems(1), of "fst d" "snd d"] Cons.prems(2) by auto
  let ?s = "s\<lparr>bheap := h1, kept := ks1\<rparr>"
  have "sole (bheap ?s) (kept ?s) (b # hs)" "\<forall>d\<in>set ds. length (fst d) \<le> byte_vector_max" using m(2) Cons.prems(2) by simp_all
  from Cons.IH [OF this] obtain bs h2 ks2 where r: "make_all ds ?s = Some (bs, s\<lparr>bheap := h2, kept := ks2\<rparr>)"
      "sole h2 ks2 (bs @ b # hs)" "frame h1 h2 (b # hs)" "next_buff h1 \<le> next_buff h2" "\<forall>b\<in>set bs. next_buff h1 \<le> bufptr b"
      "\<forall>p<next_buff h1. buffs h2 p = buffs h1 p \<and> (p \<in> bufptr ` set ks2 \<longleftrightarrow> p \<in> bufptr ` set ks1)" by auto
  have "sole h2 ks2 ((b # bs) @ hs)" using r(2) sole_mset [of "bs @ b # hs" "(b # bs) @ hs" h2] by simp
  moreover have "frame (bheap s) h2 hs" using m(3) r(3) by (auto simp: frame_def)
  moreover have "next_buff (bheap s) \<le> next_buff h2" "\<forall>c\<in>set (b # bs). next_buff (bheap s) \<le> bufptr c" using m(4,5) r(4,5) by auto
  moreover have "\<forall>p<next_buff (bheap s). buffs h2 p = buffs (bheap s) p \<and> (p \<in> bufptr ` set ks2 \<longleftrightarrow> p \<in> bufptr ` set (kept s))"
    using m(4,6) r(6) by simp
  moreover have "make_all (d # ds) s = Some (b # bs, s\<lparr>bheap := h2, kept := ks2\<rparr>)" using m(1) r(1) by simp
  ultimately show ?case by blast
qed

text \<open>\<open>combine\<close> either makes a new buffer or throws.\<close>

lemma sole_combine:
  assumes "sole h ks hs" and "set bs \<subseteq> set hs"
  shows "combine bs h = Throw ''vector::reserve'' h \<or> combine bs h = Throw ''vector::_M_range_insert'' h
    \<or> (\<exists>b h'. combine bs h = Ret b h' \<and> Buffer_make (concat (map (bytes h) bs)) h = Some (b, h')
         \<and> length (concat (map (bytes h) bs)) \<le> byte_vector_max)"
proof -
  have b: "Buffer_bytes h b = Some (bytes h b)" if "b \<in> set bs" for b
    using that assms soleD(4) [OF assms(1), of b] by (intro owns_bytes) auto
  then have "insert_all h bs [] = Some (concat (map (bytes h) bs))"
    using insert_all_eq [of bs h "[]"] by (simp add: comp_def cong: map_cong)
  then show ?thesis by (auto simp: combine_def Buffer_make_eq)
qed

lemma release_all_sole:
  assumes "sole (bheap s) ks (bs @ hs)"
  shows "\<exists>h'. release_all bs s = Ret () (s\<lparr>bheap := h'\<rparr>) \<and> sole h' ks hs \<and> frame (bheap s) h' hs
    \<and> next_buff h' = next_buff (bheap s) \<and> (\<forall>b\<in>set bs. bufptr b \<notin> bufptr ` set ks \<longrightarrow> buffs h' (bufptr b) = None)
    \<and> (\<forall>p. p \<notin> bufptr ` set bs \<longrightarrow> buffs h' p = buffs (bheap s) p)"
  using assms
proof (induction bs arbitrary: s)
  case Nil
  then show ?case by (intro exI [of _ "bheap s"]) (simp add: frame_def)
next
  case (Cons b bs)
  obtain h1 where h1: "Buffer_destroy b (bheap s) = Some h1" "sole h1 ks (bs @ hs)" "frame (bheap s) h1 (bs @ hs)"
      "next_buff h1 = next_buff (bheap s)" "bufptr b \<notin> bufptr ` set ks \<longrightarrow> buffs h1 (bufptr b) = None"
      "\<forall>p. p \<noteq> bufptr b \<longrightarrow> buffs h1 p = buffs (bheap s) p"
    using sole_destroy [of "bheap s" ks b "bs @ hs"] Cons.prems by auto
  obtain h2 where h2: "release_all bs (s\<lparr>bheap := h1\<rparr>) = Ret () (s\<lparr>bheap := h2\<rparr>)" "sole h2 ks hs" "frame h1 h2 hs"
      "next_buff h2 = next_buff h1" "\<forall>c\<in>set bs. bufptr c \<notin> bufptr ` set ks \<longrightarrow> buffs h2 (bufptr c) = None"
      "\<forall>p. p \<notin> bufptr ` set bs \<longrightarrow> buffs h2 p = buffs h1 p"
    using Cons.IH [of "s\<lparr>bheap := h1\<rparr>"] h1(2) by auto
  have "bufptr b \<notin> bufptr ` set bs" using soleD(2) [OF Cons.prems] by auto
  then have "bufptr b \<notin> bufptr ` set ks \<longrightarrow> buffs h2 (bufptr b) = None" using h1(5) h2(6) by simp
  moreover have "frame (bheap s) h2 hs" using h1(3) h2(3) by (auto simp: frame_def)
  moreover have "release_all (b # bs) s = Ret () (s\<lparr>bheap := h2\<rparr>)" using h1(1) h2(1) by (simp add: drop_buffer_def)
  ultimately show ?case using h1(4,6) h2(2,4-6) by (intro exI [of _ h2]) auto
qed

section \<open>The invariant\<close>

definition recvd :: "Sock \<Rightarrow> ReceiveData list" where
  "recvd s = concat (map (\<lambda>m. case m of NewSocket a p \<Rightarrow> [] | Received a rd \<Rightarrow> [rd]) (sent s))"

text \<open>All buffers that are somewhere: sent on, waiting to be sent on (\<open>pend\<close>), or queued for writing.\<close>

definition handles :: "ReceiveData list \<Rightarrow> Sock \<Rightarrow> Buffer list" where
  "handles pend s = map rd_data (recvd s @ pend) @ mq_list (send_data s) @ concat (mq_list (send_many_data s))"

text \<open>
  A range handed over for writing: the process holds no reference to its storage, and unless a sender has kept a
  copy the storage is gone.
\<close>

definition detached :: "Sock \<Rightarrow> Buffer list \<Rightarrow> Buffer \<Rightarrow> bool" where
  "detached s hs b \<longleftrightarrow> bufptr b < next_buff (bheap s) \<and> bufptr b \<notin> bufptr ` set hs
     \<and> (bufptr b \<in> bufptr ` set (kept s) \<or> buffs (bheap s) (bufptr b) = None)"

definition core :: "ReceiveData list \<Rightarrow> Sock \<Rightarrow> bool" where
  "core pend s \<longleftrightarrow> sole (bheap s) (kept s) (handles pend s)
     \<and> contents (bheap s) (map rd_data (recvd s @ pend)) = arrived s
     \<and> mq_ok (send_data s) \<and> mq_ok (send_many_data s) \<and> mq_ok (sk_init s) \<and> length (readBuff s) = read_size
     \<and> promise_ok (prom s) \<and> exception (prom s) = None
     \<and> length (writing s) = (if isWriting s then 1 else 0)
     \<and> (\<forall>b\<in>set (writing s). detached s (handles pend s) b)
     \<and> (\<forall>ew. except s = Some ew \<longrightarrow> maybeThrowException ew \<noteq> None)"

definition reads_ok :: "Sock \<Rightarrow> bool" where
  "reads_ok s \<longleftrightarrow> toSend s \<noteq> None \<and> reading s \<le> 1 \<and> (nextRead s \<noteq> None \<or> eof s \<longrightarrow> reading s = 0)
     \<and> (reading s = 1 \<or> nextRead s \<noteq> None \<or> eof s \<or> except s \<noteq> None)"

definition next_pend :: "Sock \<Rightarrow> ReceiveData list" where
  "next_pend s = (case nextRead s of Some (Some rd) \<Rightarrow> [rd] | _ \<Rightarrow> [])"

text \<open>The coroutine runs and is at the condition of its loop.\<close>

definition loop_ok :: "Sock \<Rightarrow> bool" where
  "loop_ok s \<longleftrightarrow> core (next_pend s) s \<and> reads_ok s \<and> nextRead s \<noteq> Some None
     \<and> (is_set (prom s) \<longrightarrow> \<not> isWriting s) \<and> (except s \<noteq> None \<longrightarrow> is_set (prom s))"

text \<open>The suspended coroutine: before the loop, in \<open>sendThrottled\<close>, and on \<open>p_\<close>.\<close>

definition fresh_ok :: "Sock \<Rightarrow> bool" where
  "fresh_ok s \<longleftrightarrow> core [] s \<and> nextRead s = None \<and> \<not> eof s \<and> except s = None \<and> reading s = 0 \<and> \<not> isWriting s
     \<and> \<not> is_set (prom s)"

definition sending_ok :: "ReceiveData \<Rightarrow> Sock \<Rightarrow> bool" where
  "sending_ok rd s \<longleftrightarrow> core [rd] s \<and> toSend s \<noteq> None \<and> nextRead s = Some None \<and> reading s = 0 \<and> \<not> eof s
     \<and> (is_set (prom s) \<longrightarrow> \<not> isWriting s) \<and> (except s \<noteq> None \<longrightarrow> is_set (prom s))"

definition armed :: "uint64 EslangPromise \<Rightarrow> Sock \<Rightarrow> bool" where
  "armed p s \<longleftrightarrow> (if is_set p then sk_resumes s \<in> set (sk_posted s) else exec p = Some (sk_resumes s))"

definition waiting_ok :: "Sock \<Rightarrow> bool" where
  "waiting_ok s \<longleftrightarrow> core (next_pend s) s \<and> reads_ok s \<and> nextRead s \<noteq> Some None
     \<and> (nextRead s \<noteq> None \<or> eof s \<or> except s \<noteq> None \<longrightarrow> is_set (prom s))"

definition sock_ok :: "Sock \<Rightarrow> bool" where
  "sock_ok s =
     (case location s of
        AtStart \<Rightarrow> fresh_ok s
      | AtHandshake \<Rightarrow> fresh_ok s \<and> promise_ok (handshake s) \<and> armed (handshake s) s
          \<and> (is_set (handshake s) \<or> handshaking s > 0)
      | AtInit \<Rightarrow> fresh_ok s \<and> mq_list (sk_init s) = []
      | AtYield rd \<Rightarrow> sending_ok rd s
      | AtThrottle rd \<Rightarrow> sending_ok rd s
      | AtWriting \<Rightarrow> waiting_ok s \<and> armed (prom s) s \<and> (isWriting s \<or> is_set (prom s))
      | AtIdle \<Rightarrow> waiting_ok s \<and> armed (prom s) s \<and> \<not> isWriting s \<and> mq_list (send_data s) = [] \<and> mq_list (send_many_data s) = []
      | _ \<Rightarrow> True)"

text \<open>
  The data that goes out: what has been handed to the socket and what is queued. When only \<open>send_data\<close>
  is used, nothing but a delivery changes it.
\<close>

definition data_view :: "Sock \<Rightarrow> byte list list" where
  "data_view s = started s @ contents (bheap s) (mq_list (send_data s))"

definition keeps_data :: "Sock \<Rightarrow> Sock \<Rightarrow> bool" where
  "keeps_data s s' \<longleftrightarrow>
     (mq_list (send_many_data s) = [] \<longrightarrow> mq_list (send_many_data s') = [] \<and> data_view s' = data_view s)"

lemma keeps_data_refl: "keeps_data s s"
  by (simp add: keeps_data_def)

lemma keeps_data_trans: "keeps_data s s' \<Longrightarrow> keeps_data s' s'' \<Longrightarrow> keeps_data s s''"
  by (simp add: keeps_data_def)

text \<open>Updates of members the invariant of the data does not look at.\<close>

lemma recvd_simps [simp]:
  "recvd (s\<lparr>bheap := h\<rparr>) = recvd s" "recvd (s\<lparr>prom := p\<rparr>) = recvd s" "recvd (s\<lparr>sk_posted := x\<rparr>) = recvd s"
  "recvd (s\<lparr>location := l\<rparr>) = recvd s" "recvd (s\<lparr>nextRead := r\<rparr>) = recvd s" "recvd (s\<lparr>eof := b\<rparr>) = recvd s"
  "recvd (s\<lparr>except := e\<rparr>) = recvd s" "recvd (s\<lparr>reading := n\<rparr>) = recvd s" "recvd (s\<lparr>isWriting := b\<rparr>) = recvd s"
  "recvd (s\<lparr>writing := ws\<rparr>) = recvd s" "recvd (s\<lparr>started := ds\<rparr>) = recvd s" "recvd (s\<lparr>woken := x\<rparr>) = recvd s"
  "recvd (s\<lparr>send_data := q\<rparr>) = recvd s" "recvd (s\<lparr>send_many_data := q'\<rparr>) = recvd s" "recvd (s\<lparr>sk_init := q''\<rparr>) = recvd s"
  "recvd (s\<lparr>toSend := a\<rparr>) = recvd s" "recvd (s\<lparr>sk_resumes := k\<rparr>) = recvd s" "recvd (s\<lparr>handshake := p\<rparr>) = recvd s"
  "recvd (s\<lparr>handshaking := n\<rparr>) = recvd s" "recvd (s\<lparr>readBuff := d\<rparr>) = recvd s" "recvd (s\<lparr>arrived := ds\<rparr>) = recvd s"
  by (simp_all add: recvd_def)

lemma recvd_send_out:
  "recvd (send_out (NewSocket a p) s) = recvd s" "recvd (send_out (Received a rd) s) = recvd s @ [rd]"
  by (simp_all add: recvd_def send_out_def)

section \<open>Writing\<close>

lemma assign_init: "EslangPromise_assign p EslangPromise_init = EslangPromise_init"
  by (cases p) (simp add: EslangPromise_assign_def EslangPromise_init_def)

lemma mq_take:
  assumes "mq_ok q"
  shows "(mq_empty q \<and> mq_list q = []) \<or>
    (\<exists>a mq hs. \<not> mq_empty q \<and> mq_pop q = Some (a, mq, hs) \<and> mq_ok mq \<and> mq_list q = a # mq_list mq)"
  using assms mq_pop_None [OF assms] mq_pop_Some(1,2) [OF assms]
  by (cases "mq_pop q") (auto simp: mq_empty_list)

lemma take_data_cases:
  assumes "mq_ok (send_data s)"
  shows "\<exists>d mq w. take_data s = Ret d (s\<lparr>send_data := mq, woken := w\<rparr>) \<and> mq_ok mq
    \<and> mq_list (send_data s) = (case d of None \<Rightarrow> [] | Some b \<Rightarrow> [b]) @ mq_list mq \<and> (d = None \<longleftrightarrow> mq_list (send_data s) = [])"
  using mq_take [OF assms]
proof
  assume "mq_empty (send_data s) \<and> mq_list (send_data s) = []"
  then show ?thesis using assms by (intro exI [of _ None] exI [of _ "send_data s"] exI [of _ "woken s"]) (simp add: take_data_def)
qed (auto simp: take_data_def, blast)

lemma take_many_cases:
  assumes "mq_ok (send_many_data s)"
  shows "\<exists>m mq w. take_many s = Ret m (s\<lparr>send_many_data := mq, woken := w\<rparr>) \<and> mq_ok mq
    \<and> mq_list (send_many_data s) = (case m of None \<Rightarrow> [] | Some bs \<Rightarrow> [bs]) @ mq_list mq
    \<and> (m = None \<longleftrightarrow> mq_list (send_many_data s) = [])"
  using mq_take [OF assms]
proof
  assume "mq_empty (send_many_data s) \<and> mq_list (send_many_data s) = []"
  then show ?thesis using assms by (intro exI [of _ None] exI [of _ "send_many_data s"] exI [of _ "woken s"]) (simp add: take_many_def)
qed (auto simp: take_many_def, blast)

text \<open>
  A write: \<open>b\<close> is the range handed over, whose storage is gone already or belongs to the message
  \<open>held\<close>; everybody else keeps what they have.
\<close>

definition wrote :: "Buffer list \<Rightarrow> Buffer list \<Rightarrow> byte list \<Rightarrow> Sock \<Rightarrow> Sock \<Rightarrow> bool" where
  "wrote held hs x s s' \<longleftrightarrow>
     (\<exists>h b. s' = s\<lparr>isWriting := True, prom := EslangPromise_init, writing := writing s @ [b],
              started := started s @ [x], bheap := h\<rparr>
        \<and> sole h (kept s) (held @ hs) \<and> frame (bheap s) h (held @ hs)
        \<and> bufptr b < next_buff h \<and> (b \<in> set held \<or> buffs h (bufptr b) = None))"

lemma write_data_ok:
  assumes "sole (bheap s) (kept s) (held @ hs)" and "b \<in> set held"
  shows "\<exists>s'. write_first (Some b) m s = Ret () s' \<and> wrote held hs (bytes (bheap s) b) s s'"
proof -
  have "owns (bheap s) (holders (kept s) (held @ hs) b) b" using soleD(4) [OF assms(1)] assms(2) by simp
  then obtain h where h: "Buffer_copy b (bheap s) = Some (b, h)" "Buffer_bytes h b = Some (bytes (bheap s) b)"
      "Buffer_destroy b h = Some (bheap s)"
    using copy_then_destroy holders_nonzero by blast
  let ?s = "s\<lparr>isWriting := True, prom := EslangPromise_init, writing := writing s @ [b],
     started := started s @ [bytes (bheap s) b]\<rparr>"
  have "write_first (Some b) m s = Ret () ?s"
    using h by (simp add: write_first_def sock_write_def drop_buffer_def assign_init Let_def)
  moreover have "bufptr b < next_buff (bheap s)" using assms owns_below by fastforce
  then have "wrote held hs (bytes (bheap s) b) s ?s"
    unfolding wrote_def using assms by (intro exI [of _ "bheap s"] exI [of _ b]) (simp add: frame_def)
  ultimately show ?thesis by blast
qed

lemma write_many_ok:
  assumes "sole (bheap s) (kept s) (held @ hs)" and "set bs \<subseteq> set held"
  shows "res_total (\<lambda>_ s'. \<exists>x. wrote held hs x s s') (\<lambda>s'. s' = s) (write_first None (Some bs) s)"
proof -
  let ?d = "concat (map (bytes (bheap s)) bs)"
  consider e where "combine bs (bheap s) = Throw e (bheap s)"
    | b h where "combine bs (bheap s) = Ret b h" "Buffer_make ?d (bheap s) = Some (b, h)" "length ?d \<le> byte_vector_max"
    using sole_combine [OF assms(1), of bs] assms(2) by auto
  then show ?thesis
  proof cases
    case 1
    then show ?thesis by (simp add: write_first_def)
  next
    case 2
    note mk = sole_make [OF assms(1) 2(3,2)]
    note own = mk(7)
    have fr: "bufptr b \<notin> bufptr ` set (kept s)" using owns_below [OF assms(1)] mk(5) by fastforce
    obtain h' where h': "Buffer_destroy b h = Some h'" "sole h' (kept s) (held @ hs)" "frame h h' (held @ hs)"
        "next_buff h' = next_buff h" "buffs h' (bufptr b) = None"
      using sole_destroy [OF mk(1)] fr by blast
    have "frame (bheap s) h' (held @ hs)" using frame_trans [OF mk(2) h'(3)] by simp
    moreover have "bufptr b < next_buff h'" using owns_below [OF mk(1), of b] h'(4) by simp
    ultimately have "wrote held hs ?d s (s\<lparr>isWriting := True, prom := EslangPromise_init,
        writing := writing s @ [b], started := started s @ [?d], bheap := h'\<rparr>)"
      unfolding wrote_def using h' by (intro exI [of _ h'] exI [of _ b]) simp
    then show ?thesis
      using 2(1) h'(1) owns_bytes [OF own] mk(3)
      by (auto simp: write_first_def sock_write_def drop_buffer_def assign_init Let_def)
  qed
qed

definition same_reads :: "Sock \<Rightarrow> Sock \<Rightarrow> bool" where
  "same_reads s s' \<longleftrightarrow> nextRead s' = nextRead s \<and> eof s' = eof s \<and> except s' = except s \<and> reading s' = reading s
     \<and> toSend s' = toSend s"

text \<open>After the write the message is released, and with it what the process held of the range handed over.\<close>

lemma detached_released:
  assumes "sole h ks (held @ hs)" and "bufptr b < next_buff h" and "b \<in> set held \<or> buffs h (bufptr b) = None"
    and "next_buff h' = next_buff h" and "\<forall>c\<in>set held. bufptr c \<notin> bufptr ` set ks \<longrightarrow> buffs h' (bufptr c) = None"
    and "\<forall>p. p \<notin> bufptr ` set held \<longrightarrow> buffs h' p = buffs h p"
  shows "bufptr b < next_buff h' \<and> bufptr b \<notin> bufptr ` set hs \<and> (bufptr b \<in> bufptr ` set ks \<or> buffs h' (bufptr b) = None)"
proof (cases "b \<in> set held")
  case True
  then show ?thesis using assms soleD(2) [OF assms(1)] by auto
next
  case False
  have "buffs h (bufptr c) \<noteq> None" if "c \<in> set (held @ hs)" for c using soleD(4) [OF assms(1), of c] that by (auto simp: owns_def)
  then have "bufptr b \<notin> bufptr ` set (held @ hs)" using False assms(3) by (metis imageE)
  then show ?thesis using assms(2,3,4,6) False by auto
qed

lemma released_write:
  assumes s2: "sole (bheap s2) (kept s2) (held @ handles pend s2)" "contents (bheap s2) (map rd_data (recvd s2 @ pend)) = arrived s2"
      "mq_ok (send_data s2)" "mq_ok (send_many_data s2)" "mq_ok (sk_init s2)" "length (readBuff s2) = read_size"
      "except s2 = None" "writing s2 = []"
    and w: "wrote held (handles pend s2) x s2 s3"
  shows "\<exists>s'. release_all held s3 = Ret () s' \<and> core pend s' \<and> same_reads s2 s' \<and> isWriting s' \<and> \<not> is_set (prom s')
    \<and> send_many_data s' = send_many_data s2 \<and> started s' = started s2 @ [x]
    \<and> data_view s' = started s2 @ x # contents (bheap s2) (mq_list (send_data s2))"
proof -
  let ?hs = "handles pend s2"
  obtain h b where s3: "s3 = s2\<lparr>isWriting := True, prom := EslangPromise_init, writing := writing s2 @ [b],
        started := started s2 @ [x], bheap := h\<rparr>"
      and h: "sole h (kept s2) (held @ ?hs)" "frame (bheap s2) h (held @ ?hs)" "bufptr b < next_buff h"
        "b \<in> set held \<or> buffs h (bufptr b) = None"
    using w unfolding wrote_def by blast
  obtain h' where h': "release_all held s3 = Ret () (s3\<lparr>bheap := h'\<rparr>)" "sole h' (kept s2) ?hs" "frame h h' ?hs"
      "next_buff h' = next_buff h" "\<forall>c\<in>set held. bufptr c \<notin> bufptr ` set (kept s2) \<longrightarrow> buffs h' (bufptr c) = None"
      "\<forall>p. p \<notin> bufptr ` set held \<longrightarrow> buffs h' p = buffs h p"
    using release_all_sole [of s3 "kept s2" held ?hs] h(1) s3 by auto
  have f: "frame (bheap s2) h' ?hs" using h(2) h'(3) by (auto simp: frame_def)
  have "detached (s3\<lparr>bheap := h'\<rparr>) ?hs b" using detached_released [OF h(1,3,4) h'(4-6)] by (simp add: s3 detached_def)
  moreover have "handles pend (s3\<lparr>bheap := h'\<rparr>) = ?hs" by (simp add: s3 handles_def)
  moreover have "kept (s3\<lparr>bheap := h'\<rparr>) = kept s2" by (simp add: s3)
  moreover have "contents h' (map rd_data (recvd s2 @ pend)) = contents (bheap s2) (map rd_data (recvd s2 @ pend))"
    by (rule contents_frame [OF f]) (auto simp: handles_def)
  moreover have "contents h' (mq_list (send_data s2)) = contents (bheap s2) (mq_list (send_data s2))"
    by (rule contents_frame [OF f]) (auto simp: handles_def)
  ultimately show ?thesis
    using h' s2 h(3) s3
    by (intro exI [of _ "s3\<lparr>bheap := h'\<rparr>"])
      (simp add: core_def same_reads_def data_view_def EslangPromise_init_def promise_ok_init [unfolded EslangPromise_init_def])
qed

text \<open>
  The first half of the block: what is taken out of the slots, and that the process owns the storage of
  the messages taken together with everything else it holds.
\<close>

definition held_by :: "Buffer option \<Rightarrow> BufferCollection option \<Rightarrow> Buffer list" where
  "held_by d m = (case d of None \<Rightarrow> [] | Some b \<Rightarrow> [b]) @ (case m of None \<Rightarrow> [] | Some bs \<Rightarrow> bs)"

lemma after_idle_takes:
  assumes "core pend s"
  obtains d m q1 q2 w2 where
    "after_idle s = res_finally (res_bind (checkExcept (s\<lparr>send_data := q1, send_many_data := q2, woken := w2\<rparr>)) (\<lambda>_ s. write_first d m s))
       (release_all (held_by d m))"
    and "mq_ok q1" and "mq_list (send_data s) = (case d of None \<Rightarrow> [] | Some b \<Rightarrow> [b]) @ mq_list q1"
    and "d = None \<longleftrightarrow> mq_list (send_data s) = []"
    and "mq_ok q2" and "mq_list (send_many_data s) = (case m of None \<Rightarrow> [] | Some bs \<Rightarrow> [bs]) @ mq_list q2"
    and "m = None \<longleftrightarrow> mq_list (send_many_data s) = []"
    and "sole (bheap s) (kept s) (held_by d m @ handles pend (s\<lparr>send_data := q1, send_many_data := q2, woken := w2\<rparr>))"
proof -
  obtain d q1 w1 where d: "take_data s = Ret d (s\<lparr>send_data := q1, woken := w1\<rparr>)" "mq_ok q1"
      "mq_list (send_data s) = (case d of None \<Rightarrow> [] | Some b \<Rightarrow> [b]) @ mq_list q1" "d = None \<longleftrightarrow> mq_list (send_data s) = []"
    using take_data_cases [of s] assms by (auto simp: core_def)
  obtain m q2 w2 where m: "take_many (s\<lparr>send_data := q1, woken := w1\<rparr>) = Ret m (s\<lparr>send_data := q1, send_many_data := q2, woken := w2\<rparr>)"
      "mq_ok q2" "mq_list (send_many_data s) = (case m of None \<Rightarrow> [] | Some bs \<Rightarrow> [bs]) @ mq_list q2"
      "m = None \<longleftrightarrow> mq_list (send_many_data s) = []"
    using take_many_cases [of "s\<lparr>send_data := q1, woken := w1\<rparr>"] assms by (auto simp: core_def)
  let ?s = "s\<lparr>send_data := q1, send_many_data := q2, woken := w2\<rparr>"
  have "mset (held_by d m @ handles pend ?s) = mset (handles pend s)"
    using d(3) m(3) by (cases d; cases m) (simp_all add: handles_def held_by_def)
  from sole_mset [OF this, of "bheap s" "kept s"] have "sole (bheap s) (kept s) (held_by d m @ handles pend ?s)" using assms by (simp add: core_def)
  moreover have "after_idle s = res_finally (res_bind (checkExcept ?s) (\<lambda>_ s. write_first d m s)) (release_all (held_by d m))"
    by (simp add: after_idle_def d(1) m(1) held_by_def)
  ultimately show ?thesis using that d(2-4) m(2-4) by blast
qed

text \<open>An error is thrown after the messages were taken, and their storage is released.\<close>

lemma after_idle_throws:
  assumes c: "core pend s" and nw: "\<not> isWriting s" and e: "except s = Some (Impl e)"
  shows "\<exists>s'. after_idle s = Throw e s'"
proof -
  obtain d m q1 q2 w2 where t:
      "after_idle s = res_finally (res_bind (checkExcept (s\<lparr>send_data := q1, send_many_data := q2, woken := w2\<rparr>)) (\<lambda>_ s. write_first d m s))
        (release_all (held_by d m))"
      "sole (bheap s) (kept s) (held_by d m @ handles pend (s\<lparr>send_data := q1, send_many_data := q2, woken := w2\<rparr>))"
    using c by (rule after_idle_takes)
  let ?s = "s\<lparr>send_data := q1, send_many_data := q2, woken := w2\<rparr>"
  obtain h where "release_all (held_by d m) ?s = Ret () (?s\<lparr>bheap := h\<rparr>)"
    using release_all_sole [of ?s "kept s" "held_by d m" "handles pend ?s"] t(2) by auto
  then show ?thesis using e by (simp add: t(1) checkExcept_def)
qed

text \<open>Releasing what was taken after a write was started from it.\<close>

lemma after_write_ok:
  assumes c: "core pend s" "\<not> isWriting s" "except s = None" and q: "mq_ok q1" "mq_ok q2"
    and s2: "s2 = s\<lparr>send_data := q1, send_many_data := q2, woken := w2\<rparr>" and sole: "sole (bheap s2) (kept s2) (held @ handles pend s2)"
    and wrote: "wrote held (handles pend s2) x s2 s3"
  shows "res_total (\<lambda>_ s'. core pend s' \<and> same_reads s s' \<and> isWriting s' \<and> \<not> is_set (prom s')
    \<and> send_many_data s' = q2 \<and> data_view s' = started s @ x # contents (bheap s) (mq_list q1)) (\<lambda>_. True) (release_all held s3)"
proof -
  have "writing s2 = []" using c(1,2) by (simp add: core_def s2)
  from released_write [OF sole _ _ _ _ _ _ this wrote] show ?thesis
    using c q by (auto simp: core_def s2 same_reads_def)
qed

lemma after_idle_ok:
  assumes c: "core pend s" and nw: "\<not> isWriting s"
  shows "res_total (\<lambda>_ s'. core pend s' \<and> same_reads s s' \<and> except s = None \<and> keeps_data s s'
      \<and> (if mq_list (send_data s) = [] \<and> mq_list (send_many_data s) = [] then prom s' = prom s \<and> \<not> isWriting s'
         else isWriting s' \<and> \<not> is_set (prom s'))) (\<lambda>_. True) (after_idle s)"
proof -
  obtain d m q1 q2 w2 where
      e: "after_idle s = res_finally (res_bind (checkExcept (s\<lparr>send_data := q1, send_many_data := q2, woken := w2\<rparr>)) (\<lambda>_ s. write_first d m s))
        (release_all (held_by d m))"
    and d: "mq_ok q1" "mq_list (send_data s) = (case d of None \<Rightarrow> [] | Some b \<Rightarrow> [b]) @ mq_list q1" "d = None \<longleftrightarrow> mq_list (send_data s) = []"
    and m: "mq_ok q2" "mq_list (send_many_data s) = (case m of None \<Rightarrow> [] | Some bs \<Rightarrow> [bs]) @ mq_list q2" "m = None \<longleftrightarrow> mq_list (send_many_data s) = []"
    and sole': "sole (bheap s) (kept s) (held_by d m @ handles pend (s\<lparr>send_data := q1, send_many_data := q2, woken := w2\<rparr>))"
    using c by (rule after_idle_takes)
  define s2 where "s2 = s\<lparr>send_data := q1, send_many_data := q2, woken := w2\<rparr>"
  define held where "held = held_by d m"
  note e = e [folded s2_def held_def]
  have sole: "sole (bheap s2) (kept s2) (held @ handles pend s2)" using sole' by (simp add: s2_def held_def)
  have fin: "res_total (\<lambda>_ _. True) (\<lambda>_. True) (release_all held s2)"
    using release_all_sole [OF sole] by auto
  show ?thesis
  proof (cases "except s")
    case (Some ew)
    then obtain t where "checkExcept s2 = Throw t s2" using c by (auto simp: checkExcept_def core_def s2_def)
    then show ?thesis using fin by (cases "release_all held s2") (simp_all add: e)
  next
    case None
    then have ck: "checkExcept s2 = Ret () s2" by (simp add: checkExcept_def s2_def)
    note rel = after_write_ok [OF c nw None d(1) m(1) s2_def sole]
    have rel': "res_total (\<lambda>_ s'. core pend s' \<and> same_reads s s' \<and> isWriting s' \<and> \<not> is_set (prom s')) (\<lambda>_. True)
        (release_all held s3)" if "wrote held (handles pend s2) x s2 s3" for x s3
      by (rule res_total_mono [OF rel [OF that]]) simp_all
    have q: "mq_list q2 = []" "m = None" if "mq_list (send_many_data s) = []" using that m(2,3) by simp_all
    show ?thesis
    proof (cases d)
      case (Some b)
      obtain s3 where "write_first d m s2 = Ret () s3" "wrote held (handles pend s2) (bytes (bheap s) b) s2 s3"
        using write_data_ok [OF sole, of b m] Some by (auto simp: held_def held_by_def s2_def)
      with rel [of "bytes (bheap s) b" s3] show ?thesis
        using Some d(2,3) q None by (auto simp: e ck keeps_data_def data_view_def elim!: res_total_mono [rotated -1]
          intro!: res_total_bind)
    next
      case None2: None
      show ?thesis
      proof (cases m)
        case None
        then have "after_idle s = Ret () s2" by (simp add: e ck write_first_def held_def held_by_def None2)
        then show ?thesis
          using None None2 d m c nw \<open>except s = None\<close>
          by (simp add: s2_def core_def handles_def same_reads_def keeps_data_def data_view_def)
      next
        case (Some bs)
        have "res_total (\<lambda>_ s3. \<exists>x. wrote held (handles pend s2) x s2 s3) (\<lambda>s3. s3 = s2) (write_first d m s2)"
          using write_many_ok [OF sole, of bs] Some None2 by (simp add: held_def held_by_def)
        then show ?thesis
          unfolding e ck res_bind.simps
          by (rule res_total_finally) (use rel' fin m(3) Some None in \<open>auto simp: keeps_data_def\<close>)
      qed
    qed
  qed
qed

text \<open>When both slots hold a message, both are taken and only the first is written.\<close>

lemma after_idle_both:
  assumes c: "core pend s" and nw: "\<not> isWriting s" and e: "except s = None"
    and d: "mq_list (send_data s) = b # bs" and m: "mq_list (send_many_data s) = cs # css"
  shows "\<exists>s'. after_idle s = Ret () s' \<and> core pend s' \<and> same_reads s s' \<and> isWriting s' \<and> \<not> is_set (prom s')
    \<and> started s' = started s @ [bytes (bheap s) b] \<and> mq_list (send_many_data s') = css"
proof -
  obtain d' m' q1 q2 w2 where
      ai: "after_idle s = res_finally (res_bind (checkExcept (s\<lparr>send_data := q1, send_many_data := q2, woken := w2\<rparr>)) (\<lambda>_ s. write_first d' m' s))
        (release_all (held_by d' m'))"
    and q1: "mq_ok q1" "mq_list (send_data s) = (case d' of None \<Rightarrow> [] | Some b \<Rightarrow> [b]) @ mq_list q1" "d' = None \<longleftrightarrow> mq_list (send_data s) = []"
    and q2: "mq_ok q2" "mq_list (send_many_data s) = (case m' of None \<Rightarrow> [] | Some bs \<Rightarrow> [bs]) @ mq_list q2" "m' = None \<longleftrightarrow> mq_list (send_many_data s) = []"
    and so: "sole (bheap s) (kept s) (held_by d' m' @ handles pend (s\<lparr>send_data := q1, send_many_data := q2, woken := w2\<rparr>))"
    using c by (rule after_idle_takes)
  define s2 where "s2 = s\<lparr>send_data := q1, send_many_data := q2, woken := w2\<rparr>"
  have dm: "d' = Some b" "m' = Some cs" "mq_list q2 = css" using q1(2,3) q2(2,3) d m by (auto split: option.splits)
  then have sole: "sole (bheap s2) (kept s2) ((b # cs) @ handles pend s2)" using so by (simp add: s2_def held_by_def)
  obtain s3 where s3: "write_first (Some b) (Some cs) s2 = Ret () s3"
      "wrote (b # cs) (handles pend s2) (bytes (bheap s2) b) s2 s3"
    using write_data_ok [OF sole, of b "Some cs"] by auto
  have p: "contents (bheap s2) (map rd_data (recvd s2 @ pend)) = arrived s2" "mq_ok (send_data s2)" "mq_ok (send_many_data s2)"
      "mq_ok (sk_init s2)" "length (readBuff s2) = read_size" "except s2 = None" and wr: "writing s2 = []"
    using c nw q1(1) q2(1) e by (simp_all add: core_def s2_def)
  obtain s' where s': "release_all (b # cs) s3 = Ret () s'" "core pend s'" "same_reads s2 s'" "isWriting s'" "\<not> is_set (prom s')"
      "send_many_data s' = send_many_data s2" "started s' = started s2 @ [bytes (bheap s2) b]"
    using released_write [OF sole p wr s3(2)] by blast
  have ck: "checkExcept s2 = Ret () s2" using e by (simp add: checkExcept_def s2_def)
  have "after_idle s = res_finally (res_bind (checkExcept s2) (\<lambda>_ s. write_first (Some b) (Some cs) s)) (release_all (b # cs))"
    using ai dm by (simp add: s2_def held_by_def)
  then have "after_idle s = Ret () s'" by (simp add: ck s3(1) s'(1) del: release_all.simps)
  then show ?thesis using s' dm(3) by (auto simp: s2_def same_reads_def)
qed

section \<open>The loop\<close>

lemma handles_simps [simp]:
  "handles pend (s\<lparr>prom := p\<rparr>) = handles pend s" "handles pend (s\<lparr>sk_posted := x\<rparr>) = handles pend s"
  "handles pend (s\<lparr>location := l\<rparr>) = handles pend s" "handles pend (s\<lparr>nextRead := r\<rparr>) = handles pend s"
  "handles pend (s\<lparr>eof := b\<rparr>) = handles pend s" "handles pend (s\<lparr>except := e\<rparr>) = handles pend s"
  "handles pend (s\<lparr>reading := n\<rparr>) = handles pend s" "handles pend (s\<lparr>toSend := a\<rparr>) = handles pend s"
  "handles pend (s\<lparr>sk_resumes := k\<rparr>) = handles pend s" "handles pend (s\<lparr>handshake := p\<rparr>) = handles pend s"
  "handles pend (s\<lparr>handshaking := n\<rparr>) = handles pend s" "handles pend (s\<lparr>sk_init := q\<rparr>) = handles pend s"
  "handles pend (s\<lparr>woken := w\<rparr>) = handles pend s" "handles pend (s\<lparr>writing := ws\<rparr>) = handles pend s"
  "handles pend (s\<lparr>isWriting := b\<rparr>) = handles pend s" "handles pend (s\<lparr>readBuff := d\<rparr>) = handles pend s"
  "handles pend (s\<lparr>arrived := ds\<rparr>) = handles pend s"
  by (simp_all add: handles_def)

lemma detached_simps [simp]:
  "detached (s\<lparr>sk_posted := x\<rparr>) = detached s" "detached (s\<lparr>location := l\<rparr>) = detached s"
  "detached (s\<lparr>nextRead := r\<rparr>) = detached s" "detached (s\<lparr>eof := b\<rparr>) = detached s" "detached (s\<lparr>except := e\<rparr>) = detached s"
  "detached (s\<lparr>reading := n\<rparr>) = detached s" "detached (s\<lparr>toSend := a\<rparr>) = detached s" "detached (s\<lparr>prom := p\<rparr>) = detached s"
  "detached (s\<lparr>sk_resumes := k\<rparr>) = detached s" "detached (s\<lparr>handshake := p\<rparr>) = detached s"
  "detached (s\<lparr>handshaking := n\<rparr>) = detached s" "detached (s\<lparr>woken := w\<rparr>) = detached s" "detached (s\<lparr>sk_init := q\<rparr>) = detached s"
  "detached (s\<lparr>isWriting := b\<rparr>) = detached s" "detached (s\<lparr>writing := ws\<rparr>) = detached s" "detached (send_out m s) = detached s"
  by (simp_all add: detached_def fun_eq_iff send_out_def)

lemma core_simps [simp]:
  "core pend (s\<lparr>sk_posted := x\<rparr>) = core pend s" "core pend (s\<lparr>location := l\<rparr>) = core pend s"
  "core pend (s\<lparr>nextRead := r\<rparr>) = core pend s" "core pend (s\<lparr>eof := b\<rparr>) = core pend s"
  "core pend (s\<lparr>reading := n\<rparr>) = core pend s" "core pend (s\<lparr>toSend := a\<rparr>) = core pend s"
  "core pend (s\<lparr>sk_resumes := k\<rparr>) = core pend s" "core pend (s\<lparr>handshake := p\<rparr>) = core pend s"
  "core pend (s\<lparr>handshaking := n\<rparr>) = core pend s" "core pend (s\<lparr>woken := w\<rparr>) = core pend s"
  by (simp_all add: core_def)

lemma core_writing:
  assumes "core pend s" and "writing s \<noteq> []"
  shows "isWriting s" "tl (writing s) = []"
proof -
  have "length (writing s) = (if isWriting s then 1 else 0)" using assms(1) by (simp add: core_def)
  with assms(2) show "isWriting s" "tl (writing s) = []" by (cases "writing s"; simp split: if_splits)+
qed

lemma core_prom: "core pend s \<Longrightarrow> promise_ok p \<Longrightarrow> exception p = None \<Longrightarrow> core pend (s\<lparr>prom := p\<rparr>)"
  by (simp add: core_def)

lemma core_asyncRead [simp]: "core pend (asyncRead s) = core pend s"
  by (simp add: asyncRead_def)

lemma core_send_out:
  "core pend (send_out (NewSocket a p) s) = core pend s"
  "core (rd # pend) s \<Longrightarrow> core pend (send_out (Received a rd) s)"
  by (auto simp: core_def handles_def recvd_send_out) (auto simp: send_out_def split: if_splits)

lemma data_view_simps [simp]:
  "data_view (s\<lparr>sk_posted := x\<rparr>) = data_view s" "data_view (s\<lparr>location := l\<rparr>) = data_view s"
  "data_view (s\<lparr>prom := p\<rparr>) = data_view s" "data_view (s\<lparr>nextRead := r\<rparr>) = data_view s"
  "data_view (s\<lparr>sk_resumes := k\<rparr>) = data_view s" "data_view (s\<lparr>handshake := p\<rparr>) = data_view s"
  "data_view (s\<lparr>handshaking := n\<rparr>) = data_view s" "data_view (s\<lparr>toSend := a\<rparr>) = data_view s"
  "data_view (s\<lparr>woken := w\<rparr>) = data_view s" "data_view (s\<lparr>sk_init := q\<rparr>) = data_view s"
  "data_view (s\<lparr>eof := b\<rparr>) = data_view s" "data_view (s\<lparr>except := e\<rparr>) = data_view s"
  "data_view (s\<lparr>isWriting := b\<rparr>) = data_view s" "data_view (s\<lparr>writing := ws\<rparr>) = data_view s"
  "data_view (s\<lparr>reading := n\<rparr>) = data_view s" "data_view (s\<lparr>readBuff := d\<rparr>) = data_view s"
  "data_view (s\<lparr>arrived := ds\<rparr>) = data_view s" "data_view (asyncRead s) = data_view s" "data_view (send_out m s) = data_view s"
  by (simp_all add: data_view_def asyncRead_def send_out_def)

lemma same_data [simp]: "send_many_data s' = send_many_data s \<Longrightarrow> data_view s' = data_view s \<Longrightarrow> keeps_data s s'"
  by (simp add: keeps_data_def)

lemma suspend_on_prom_eq:
  assumes "promise_ok (prom s)"
  shows "suspend_on_prom l s = (if is_set (prom s) then s\<lparr>sk_posted := sk_posted s @ [sk_resumes s], location := l\<rparr>
    else s\<lparr>prom := (prom s)\<lparr>exec := Some (sk_resumes s)\<rparr>, location := l\<rparr>)"
  using assms by (cases "prom s") (auto simp: suspend_on_prom_def setContinuation_def set_promise_def promise_ok_def Let_def)

lemma suspend_on_prom_sel [simp]:
  "location (suspend_on_prom l s) = l" "isWriting (suspend_on_prom l s) = isWriting s"
  "send_data (suspend_on_prom l s) = send_data s" "send_many_data (suspend_on_prom l s) = send_many_data s"
  by (simp_all add: suspend_on_prom_def split: prod.split)

lemma asyncRead_sel [simp]:
  "nextRead (asyncRead s) = nextRead s" "eof (asyncRead s) = eof s" "except (asyncRead s) = except s"
  "toSend (asyncRead s) = toSend s" "isWriting (asyncRead s) = isWriting s" "prom (asyncRead s) = prom s"
  "send_many_data (asyncRead s) = send_many_data s" "reading (asyncRead s) = Suc (reading s)"
  by (simp_all add: asyncRead_def)

lemma send_out_sel [simp]:
  "nextRead (send_out m s) = nextRead s" "eof (send_out m s) = eof s" "except (send_out m s) = except s"
  "toSend (send_out m s) = toSend s" "isWriting (send_out m s) = isWriting s" "prom (send_out m s) = prom s"
  "send_many_data (send_out m s) = send_many_data s" "reading (send_out m s) = reading s" "sk_init (send_out m s) = sk_init s"
  by (simp_all add: send_out_def)

lemma suspend_waiting_ok:
  assumes "loop_ok s" and "nextRead s = None" and "\<not> eof s"
  shows "waiting_ok (suspend_on_prom l s)" "armed (prom (suspend_on_prom l s)) (suspend_on_prom l s)"
    "keeps_data s (suspend_on_prom l s)"
proof -
  have p: "promise_ok (prom s)" "exception (prom s) = None" and c: "core [] s"
    using assms by (auto simp: loop_ok_def core_def next_pend_def)
  have "core [] (s\<lparr>prom := (prom s)\<lparr>exec := Some (sk_resumes s)\<rparr>\<rparr>)" if "\<not> is_set (prom s)"
    using c p that by (intro core_prom) (simp_all add: promise_ok_def)
  then show "waiting_ok (suspend_on_prom l s)" "armed (prom (suspend_on_prom l s)) (suspend_on_prom l s)"
    using assms by (auto simp: suspend_on_prom_eq [OF p(1)] waiting_ok_def loop_ok_def next_pend_def reads_ok_def armed_def)
  show "keeps_data s (suspend_on_prom l s)" by (simp add: suspend_on_prom_eq [OF p(1)])
qed

lemma write_part_ok:
  assumes l: "loop_ok s" and r: "nextRead s = None" "\<not> eof s"
  shows "res_total (\<lambda>go s'. keeps_data s s' \<and>
      (if go then \<not> isWriting s \<and> loop_ok s' \<and> isWriting s' \<and> nextRead s' = None \<and> \<not> eof s' else sock_ok s')) (\<lambda>_. True) (write_part s)"
proof -
  note s = suspend_waiting_ok [OF l r]
  have p: "promise_ok (prom s)" and c: "core [] s" and rd: "reads_ok s" and w: "is_set (prom s) \<longrightarrow> \<not> isWriting s"
    using l r by (auto simp: loop_ok_def core_def next_pend_def)
  have q: "mq_ok (send_data s)" "mq_ok (send_many_data s)" using c by (simp_all add: core_def)
  consider "isWriting s" | "\<not> isWriting s" "mq_list (send_data s) = []" "mq_list (send_many_data s) = []"
    | "\<not> isWriting s" "mq_list (send_data s) \<noteq> [] \<or> mq_list (send_many_data s) \<noteq> []" by auto
  then show ?thesis
  proof cases
    case 1
    then show ?thesis
      using w s by (simp add: write_part_def isReady_def sock_ok_def)
  next
    case 2
    then show ?thesis
      using q s by (simp add: write_part_def mq_empty_list sock_ok_def)
  next
    case 3
    then have e: "write_part s = res_bind (after_idle s) (\<lambda>_ s. Ret True s)"
      using q by (auto simp: write_part_def mq_empty_list)
    show ?thesis
      unfolding e
      by (rule res_total_bind [OF after_idle_ok [OF c 3(1)]])
        (use r rd 3 in \<open>auto simp: loop_ok_def next_pend_def same_reads_def reads_ok_def split: if_splits\<close>)
  qed
qed

text \<open>What goes wrong when the receiver of the data is dead.\<close>

definition risk :: "ContextState \<Rightarrow> ub set" where
  "risk q = (if can_queue q = NoProcess then {NullDeref} else {}) \<union> (if promise_lives q then {} else {DanglingPromise})"

lemma send_loop_ok:
  assumes "sending_ok rd s"
  shows "res_within (risk q) (\<lambda>go s'. keeps_data s s' \<and>
      (if go then loop_ok s' \<and> nextRead s' = None \<and> \<not> eof s' \<and> isWriting s' = isWriting s else sock_ok s')) (\<lambda>_. True) (send_loop q rd s)"
proof (cases "can_queue q")
  case NoProcess
  then show ?thesis by (simp add: send_loop_def risk_def)
next
  case MustWait
  then show ?thesis using assms by (simp add: send_loop_def sock_ok_def sending_ok_def)
next
  case MayQueue
  obtain a where a: "toSend s = Some a" using assms by (auto simp: sending_ok_def)
  have "core [] (send_out (Received a rd) s)" using assms by (intro core_send_out) (simp add: sending_ok_def)
  then show ?thesis
    using MayQueue a assms
    by (simp add: send_loop_def loop_ok_def sending_ok_def next_pend_def reads_ok_def)
qed

lemma read_part_ok:
  assumes "loop_ok s" and "\<not> eof s"
  shows "res_within (risk q) (\<lambda>go s'. keeps_data s s' \<and>
      (if go then loop_ok s' \<and> nextRead s' = None \<and> \<not> eof s' \<and> isWriting s' = isWriting s else sock_ok s')) (\<lambda>_. True) (read_part q s)"
proof (cases "nextRead s")
  case None
  then show ?thesis using assms by (simp add: read_part_def keeps_data_refl)
next
  case (Some r)
  then obtain rd where rd: "nextRead s = Some (Some rd)" using assms(1) by (auto simp: loop_ok_def)
  let ?s = "s\<lparr>nextRead := Some None\<rparr>"
  have ok: "sending_ok rd ?s"
    using assms rd by (simp add: sending_ok_def loop_ok_def next_pend_def reads_ok_def)
  show ?thesis
  proof (cases "busy q")
    case True
    then show ?thesis using rd ok by (simp add: read_part_def Let_def sock_ok_def sending_ok_def)
  next
    case False
    show ?thesis
      using rd False by (simp add: read_part_def Let_def) (rule res_within_mono [OF send_loop_ok [OF ok]], auto simp: keeps_data_def)
  qed
qed

text \<open>Two rounds are enough: the first may start a write, and then the second suspends.\<close>

lemma run_loop_ok:
  assumes "loop_ok s" and "(if isWriting s then 0 else 1) < n"
  shows "res_within (risk q) (\<lambda>_ s'. sock_ok s' \<and> keeps_data s s') (\<lambda>_. True) (run_loop n q s)"
  using assms
proof (induction n arbitrary: s)
  case (Suc n)
  show ?case
  proof (cases "eof s")
    case True
    then show ?thesis by (simp add: sock_ok_def)
  next
    case False
    have w: "res_within (risk q) (\<lambda>_ s''. sock_ok s'' \<and> keeps_data s s'') (\<lambda>_. True)
        (res_bind (write_part s') (\<lambda>go s. if go then run_loop n q s else Ret () s))"
      if l: "keeps_data s s'" "loop_ok s'" "nextRead s' = None" "\<not> eof s'" "isWriting s' = isWriting s" for s'
    proof (rule res_total_bind [OF write_part_ok [OF l(2-4)]])
      fix go s1
      assume q1: "keeps_data s' s1 \<and> (if go then \<not> isWriting s' \<and> loop_ok s1 \<and> isWriting s1 \<and> nextRead s1 = None \<and> \<not> eof s1 else sock_ok s1)"
      show "res_within (risk q) (\<lambda>_ s''. sock_ok s'' \<and> keeps_data s s'') (\<lambda>_. True) (if go then run_loop n q s1 else Ret () s1)"
      proof (cases go)
        case True
        then have "res_within (risk q) (\<lambda>_ s''. sock_ok s'' \<and> keeps_data s1 s'') (\<lambda>_. True) (run_loop n q s1)"
          using q1 Suc.prems(2) l(5) by (intro Suc.IH) auto
        then show ?thesis
          using True q1 l(1) by (auto elim!: res_within_mono intro: keeps_data_trans)
      next
        case False
        then show ?thesis using q1 l(1) keeps_data_trans by auto
      qed
    qed
    show ?thesis
      using False by (auto intro!: res_within_bind [OF read_part_ok [OF Suc.prems(1) False]] w split: if_splits)
  qed
qed simp

lemma end_of_round_ok:
  assumes "loop_ok s" and "nextRead s = None" and "\<not> eof s" and "0 < n"
  shows "res_within (risk q) (\<lambda>_ s'. sock_ok s' \<and> keeps_data s s') (\<lambda>_. True)
    (res_bind (write_part s) (\<lambda>go s. if go then run_loop n q s else Ret () s))"
proof (rule res_total_bind [OF write_part_ok [OF assms(1-3)]])
  fix go s1
  assume q1: "keeps_data s s1 \<and> (if go then \<not> isWriting s \<and> loop_ok s1 \<and> isWriting s1 \<and> nextRead s1 = None \<and> \<not> eof s1 else sock_ok s1)"
  show "res_within (risk q) (\<lambda>_ s'. sock_ok s' \<and> keeps_data s s') (\<lambda>_. True) (if go then run_loop n q s1 else Ret () s1)"
  proof (cases go)
    case True
    then have "res_within (risk q) (\<lambda>_ s'. sock_ok s' \<and> keeps_data s1 s') (\<lambda>_. True) (run_loop n q s1)"
      using q1 assms(4) by (intro run_loop_ok) auto
    then show ?thesis using True q1 by (auto elim!: res_within_mono intro: keeps_data_trans)
  qed (use q1 in auto)
qed

lemma rest_of_round_ok:
  assumes "sending_ok rd s" and "0 < n"
  shows "res_within (risk q) (\<lambda>_ s'. sock_ok s' \<and> keeps_data s s') (\<lambda>_. True) (rest_of_round n q rd s)"
  unfolding rest_of_round_def
proof (rule res_within_bind [OF send_loop_ok [OF assms(1)]])
  fix go s1
  assume q1: "keeps_data s s1 \<and> (if go then loop_ok s1 \<and> nextRead s1 = None \<and> \<not> eof s1 \<and> isWriting s1 = isWriting s else sock_ok s1)"
  show "res_within (risk q) (\<lambda>_ s'. sock_ok s' \<and> keeps_data s s') (\<lambda>_. True)
      (if go then res_bind (write_part s1) (\<lambda>go s. if go then run_loop n q s else Ret () s) else Ret () s1)"
  proof (cases go)
    case True
    then have "res_within (risk q) (\<lambda>_ s'. sock_ok s' \<and> keeps_data s1 s') (\<lambda>_. True)
        (res_bind (write_part s1) (\<lambda>go s. if go then run_loop n q s else Ret () s))"
      using q1 assms(2) by (intro end_of_round_ok) auto
    then show ?thesis using True q1 by (auto elim!: res_within_mono intro: keeps_data_trans)
  qed (use q1 in auto)
qed

section \<open>Resuming\<close>

lemma process_plain:
  assumes "promise_ok p" and "exception p = None"
  shows "\<exists>p'. process p = Inr p' \<and> \<not> is_set p' \<and> promise_ok p' \<and> exception p' = None"
proof -
  obtain p' where p': "process p = Inr p'" "exception p' = None"
    using assms by (auto simp: process_def Let_def)
  then show ?thesis using process_simps(1) [OF p'(1)] by (simp add: promise_ok_def)
qed

lemma after_init_ok:
  assumes "fresh_ok s" and "1 < n"
  shows "res_within (risk q) (\<lambda>_ s'. sock_ok s' \<and> keeps_data s s') (\<lambda>_. True) (after_init n q s)"
proof (cases "mq_pop (sk_init s)")
  case None
  then show ?thesis by (simp add: after_init_def)
next
  case (Some x)
  obtain a mq hs where x: "x = (a, mq, hs)" by (cases x)
  let ?s = "asyncRead (s\<lparr>sk_init := mq, woken := woken s @ hs, toSend := Some a\<rparr>)"
  have "mq_ok mq" using assms Some x mq_pop_Some(1) [of "sk_init s" a mq hs] by (simp add: fresh_ok_def core_def)
  then have "core [] (s\<lparr>sk_init := mq\<rparr>)" using assms by (simp add: fresh_ok_def core_def)
  then have "loop_ok ?s" using assms by (simp add: loop_ok_def fresh_ok_def next_pend_def reads_ok_def)
  then have "res_within (risk q) (\<lambda>_ s'. sock_ok s' \<and> keeps_data ?s s') (\<lambda>_. True) (run_loop n q ?s)"
    using assms by (intro run_loop_ok) auto
  then show ?thesis
    using Some x by (simp add: after_init_def) (erule res_within_mono, auto simp: keeps_data_def)
qed

lemma after_start_ok:
  assumes "fresh_ok s" and "1 < n"
  shows "res_within (risk q) (\<lambda>_ s'. sock_ok s' \<and> keeps_data s s') (\<lambda>_. True) (after_start n q s)"
proof -
  let ?s = "send_out (NewSocket (onReady s) (sk_pid s)) s"
  have f: "fresh_ok ?s" using assms by (simp add: fresh_ok_def core_send_out)
  show ?thesis
  proof (cases "mq_empty (sk_init s)")
    case True
    moreover have "mq_list (sk_init s) = []" using True assms mq_empty_list by (auto simp: fresh_ok_def core_def)
    ultimately show ?thesis using f by (simp add: after_start_def Let_def sock_ok_def fresh_ok_def)
  next
    case False
    then show ?thesis
      using after_init_ok [OF f assms(2), of q] by (simp add: after_start_def Let_def) (erule res_within_mono, auto simp: keeps_data_def)
  qed
qed

lemma start_ok:
  assumes "fresh_ok s" and "1 < n"
  shows "res_within (risk q) (\<lambda>_ s'. sock_ok s' \<and> keeps_data s s') (\<lambda>_. True) (start n q s)"
proof (cases "ssl s")
  case True
  have "core [] s" using assms by (simp add: fresh_ok_def)
  then show ?thesis
    using True assms
    by (simp add: start_def setContinuation_def EslangPromise_init_def Let_def sock_ok_def fresh_ok_def armed_def promise_ok_def)
next
  case False
  then show ?thesis using after_start_ok [OF assms] by (simp add: start_def)
qed

text \<open>What a resume relies on: a message may just have been pushed.\<close>

definition resumable :: "Sock \<Rightarrow> bool" where
  "resumable s =
     (case location s of
        AtStart \<Rightarrow> fresh_ok s
      | AtHandshake \<Rightarrow> fresh_ok s
      | AtInit \<Rightarrow> fresh_ok s
      | AtYield rd \<Rightarrow> sending_ok rd s
      | AtThrottle rd \<Rightarrow> sending_ok rd s
      | AtWriting \<Rightarrow> waiting_ok s
      | AtIdle \<Rightarrow> waiting_ok s \<and> \<not> isWriting s
      | _ \<Rightarrow> True)"

lemma sock_ok_resumable: "sock_ok s \<Longrightarrow> resumable s"
  by (auto simp: sock_ok_def resumable_def split: location.splits)

lemma resumed_loop:
  assumes "waiting_ok s" and "exception p = None" "promise_ok p" "\<not> is_set p" and "except s = None"
  shows "loop_ok (s\<lparr>prom := p, sk_resumes := k\<rparr>)"
  using assms core_prom [of "next_pend s" s p]
  by (auto simp: loop_ok_def waiting_ok_def reads_ok_def next_pend_def)

definition resumes_ok :: "ContextState \<Rightarrow> Sock \<Rightarrow> (unit, Sock) res \<Rightarrow> bool" where
  "resumes_ok q s r = res_within (risk q) (\<lambda>_ s'. sock_ok s' \<and> keeps_data s s') (\<lambda>_. True) r"

lemma resumes_ok_trans: "keeps_data s s1 \<Longrightarrow> resumes_ok q s1 r \<Longrightarrow> resumes_ok q s r"
  unfolding resumes_ok_def by (auto elim!: res_within_mono intro: keeps_data_trans)

lemma resume_writing_ok:
  assumes w: "waiting_ok s" and n: "1 < n" and p: "\<not> is_set p" "promise_ok p" "exception p = None"
  shows "resumes_ok q s (res_bind (checkExcept (s\<lparr>prom := p, sk_resumes := k\<rparr>)) (\<lambda>_ s. run_loop n q s))"
proof (cases "except s")
  case None
  let ?s = "s\<lparr>prom := p, sk_resumes := k\<rparr>"
  have "resumes_ok q ?s (run_loop n q ?s)"
    unfolding resumes_ok_def using resumed_loop [OF w p(3,2,1) None] n by (intro run_loop_ok) auto
  then have "resumes_ok q s (run_loop n q ?s)" by (rule resumes_ok_trans [rotated]) simp
  then show ?thesis using None by (simp add: checkExcept_def)
next
  case (Some ew)
  then obtain t where "maybeThrowException ew = Some t" using w by (auto simp: waiting_ok_def core_def)
  then show ?thesis using Some by (simp add: checkExcept_def resumes_ok_def)
qed

lemma resume_idle_ok:
  assumes w: "waiting_ok s" "\<not> isWriting s" and n: "1 < n" and p: "\<not> is_set p" "promise_ok p" "exception p = None"
  shows "resumes_ok q s (res_bind (after_idle (s\<lparr>prom := p, sk_resumes := k\<rparr>)) (\<lambda>_ s. run_loop n q s))"
proof -
  let ?s = "s\<lparr>prom := p, sk_resumes := k\<rparr>"
  have c: "core (next_pend s) ?s" using w(1) p core_prom by (simp add: waiting_ok_def)
  have "resumes_ok q ?s (res_bind (after_idle ?s) (\<lambda>_ s. run_loop n q s))"
    unfolding resumes_ok_def
  proof (rule res_total_bind [OF after_idle_ok [OF c]])
    show "\<not> isWriting ?s" using w(2) by simp
  next
    fix u s1
    assume a: "core (next_pend s) s1 \<and> same_reads ?s s1 \<and> except ?s = None \<and> keeps_data ?s s1
      \<and> (if mq_list (send_data ?s) = [] \<and> mq_list (send_many_data ?s) = [] then prom s1 = prom ?s \<and> \<not> isWriting s1
         else isWriting s1 \<and> \<not> is_set (prom s1))"
    then have "loop_ok s1" using w(1) p(1)
      by (auto simp: loop_ok_def waiting_ok_def same_reads_def next_pend_def reads_ok_def split: if_splits)
    then have "resumes_ok q s1 (run_loop n q s1)"
      unfolding resumes_ok_def using n by (intro run_loop_ok) auto
    then show "res_within (risk q) (\<lambda>_ s'. sock_ok s' \<and> keeps_data ?s s') (\<lambda>_. True) (run_loop n q s1)"
      using a resumes_ok_trans [of ?s s1] by (simp add: resumes_ok_def)
  qed
  then show ?thesis by (rule resumes_ok_trans [rotated]) simp
qed

lemma continue_ok:
  assumes r: "resumable s" and n: "1 < n" and g: "\<not> gone s"
  shows "resumes_ok q s (res_bind (process_own q s) (\<lambda>_ s. continue n q (s\<lparr>sk_resumes := sk_resumes s + 1\<rparr>)))"
proof -
  let ?s = "s\<lparr>sk_resumes := sk_resumes s + 1\<rparr>"
  have same: "keeps_data s ?s" "\<And>p. keeps_data s (s\<lparr>handshake := p, sk_resumes := sk_resumes s + 1\<rparr>)" by simp_all
  have waits: "\<exists>p. process (prom s) = Inr p \<and> \<not> is_set p \<and> promise_ok p \<and> exception p = None" if "waiting_ok s"
    using that process_plain [of "prom s"] by (simp add: waiting_ok_def core_def)
  have f: "fresh_ok ?s" "\<And>p. fresh_ok (s\<lparr>handshake := p, sk_resumes := sk_resumes s + 1\<rparr>)" if "fresh_ok s"
    using that by (simp_all add: fresh_ok_def)
  have sd: "sending_ok rd ?s" if "sending_ok rd s" for rd using that by (simp add: sending_ok_def)
  note oks = start_ok [OF _ n, folded resumes_ok_def] after_start_ok [OF _ n, folded resumes_ok_def]
    after_init_ok [OF _ n, folded resumes_ok_def] rest_of_round_ok [folded resumes_ok_def]
  have hs: "resumes_ok q s (after_start n q (s\<lparr>handshake := p, sk_resumes := sk_resumes s + 1\<rparr>))" if "fresh_ok s" for p
    by (rule resumes_ok_trans [OF same(2)], rule oks(2), rule f(2) [OF that])
  have lost: "resumes_ok q s (Undef DanglingPromise)" if "\<not> promise_lives q" using that by (simp add: resumes_ok_def risk_def)
  show ?thesis
  proof (cases "location s")
    case AtHandshake
    then show ?thesis
      using r hs
      by (auto simp: resumable_def process_own_def continue_def resumes_ok_def [of q s "Throw _ _"] split: sum.split)
  next
    case AtWriting
    then show ?thesis
      using r waits resume_writing_ok [OF _ n] by (auto simp: resumable_def process_own_def continue_def)
  next
    case AtIdle
    then show ?thesis
      using r waits resume_idle_ok [OF _ _ n] by (auto simp: resumable_def process_own_def continue_def)
  qed (use r f(1) sd oks n g resumes_ok_trans [OF same(1)] lost in
      \<open>simp_all add: resumable_def process_own_def continue_def gone_def\<close>)
qed

lemma sock_resume_ok:
  assumes "resumable s" and "1 < n"
  shows "res_within (risk q) (\<lambda>_ s'. sock_ok s' \<and> (gone s' \<or> keeps_data s s')) (\<lambda>_. False) (sock_resume n q s)"
proof (cases "gone s")
  case True
  then show ?thesis by (auto simp: sock_resume_def gone_def sock_ok_def split: location.splits)
next
  case False
  let ?r = "res_bind (process_own q s) (\<lambda>_ s. continue n q (s\<lparr>sk_resumes := sk_resumes s + 1\<rparr>))"
  have "resumes_ok q s ?r" using continue_ok [OF assms False] .
  then show ?thesis
    using False by (cases ?r) (auto simp: sock_resume_def resumes_ok_def sock_ok_def gone_def)
qed

section \<open>Events\<close>

definition event_risk :: "event \<Rightarrow> ub set" where
  "event_risk e = (case e of Kick q \<Rightarrow> risk q | Wake i q \<Rightarrow> risk q | SendData d keep q \<Rightarrow> risk q | SendMany ds q \<Rightarrow> risk q
     | SendInit a q \<Rightarrow> risk q | _ \<Rightarrow> {})"

definition data_input :: "event \<Rightarrow> byte list list" where
  "data_input e = (case e of SendData d keep q \<Rightarrow> if length d \<le> byte_vector_max then [d] else [] | _ \<Rightarrow> [])"

definition not_many :: "event \<Rightarrow> bool" where
  "not_many e = (case e of SendMany ds q \<Rightarrow> False | _ \<Rightarrow> True)"

definition data_step :: "event \<Rightarrow> Sock \<Rightarrow> Sock \<Rightarrow> bool" where
  "data_step e s s' \<longleftrightarrow> (not_many e \<and> mq_list (send_many_data s) = [] \<longrightarrow>
     mq_list (send_many_data s') = [] \<and> data_view s' = data_view s @ data_input e)"

definition event_ok :: "event \<Rightarrow> Sock \<Rightarrow> (unit, Sock) res \<Rightarrow> bool" where
  "event_ok e s r = res_within (event_risk e) (\<lambda>_ s'. sock_ok s' \<and> (gone s' \<or> data_step e s s')) (\<lambda>_. False) r"

lemma event_ok_resume:
  assumes "resumable s'" and "1 < n" and "data_step e s s'" and "event_risk e = risk q"
  shows "event_ok e s (sock_resume n q s')"
  unfolding event_ok_def assms(4)
  by (rule res_within_mono [OF sock_resume_ok [OF assms(1,2)]]) (use assms(3) in \<open>auto simp: data_step_def keeps_data_def\<close>)

lemma event_ok_Ret: "sock_ok s' \<Longrightarrow> data_step e s s' \<Longrightarrow> event_ok e s (Ret () s')"
  by (simp add: event_ok_def)

lemma event_ok_same: "sock_ok s \<Longrightarrow> data_input e = [] \<Longrightarrow> event_ok e s (Ret () s)"
  by (simp add: event_ok_def data_step_def)

lemma setValue_eq:
  assumes "promise_ok (prom s)"
  shows "setValue s = (if is_set (prom s) then s
    else s\<lparr>prom := (prom s)\<lparr>exec := None, is_set := True\<rparr>, sk_posted := sk_posted s @ (case exec (prom s) of None \<Rightarrow> [] | Some k \<Rightarrow> [k])\<rparr>)"
  using assms by (cases "prom s") (auto simp: setValue_def setIfUnset_def set_promise_def Let_def split: option.split)

lemma setValue_sel [simp]:
  "nextRead (setValue s) = nextRead s" "eof (setValue s) = eof s" "except (setValue s) = except s" "reading (setValue s) = reading s"
  "toSend (setValue s) = toSend s" "isWriting (setValue s) = isWriting s" "location (setValue s) = location s"
  "send_data (setValue s) = send_data s" "send_many_data (setValue s) = send_many_data s" "data_view (setValue s) = data_view s"
  "is_set (prom (setValue s))"
  by (simp_all add: setValue_def data_view_def setIfUnset_def set_promise_def Let_def split: prod.split option.split)

lemma core_setValue: "core pend s \<Longrightarrow> core pend (setValue s)"
  by (auto simp: setValue_eq core_def promise_ok_def)

lemma armed_setValue: "promise_ok (prom s) \<Longrightarrow> armed (prom s) s \<Longrightarrow> armed (prom (setValue s)) (setValue s)"
  by (auto simp: setValue_eq armed_def)

text \<open>Errors: the exception is remembered and the promise is set.\<close>

lemma setError_sel [simp]:
  "nextRead (setError ec s) = nextRead s" "eof (setError ec s) = eof s" "reading (setError ec s) = reading s"
  "toSend (setError ec s) = toSend s" "isWriting (setError ec s) = isWriting s" "location (setError ec s) = location s"
  "send_data (setError ec s) = send_data s" "send_many_data (setError ec s) = send_many_data s" "data_view (setError ec s) = data_view s"
  "is_set (prom (setError ec s))" "\<exists>y. except (setError ec s) = Some y"
  by (simp_all add: setError_def sock_setException_def Let_def)

lemma core_except: "core pend s \<Longrightarrow> core pend (s\<lparr>except := Some (Impl e)\<rparr>)"
  by (simp add: core_def)

lemma core_setError: "core pend s \<Longrightarrow> core pend (setError ec s)"
  by (simp add: setError_def sock_setException_def Let_def make_ExceptionWrapper_def core_setValue core_except)

lemma armed_setError:
  "promise_ok (prom s) \<Longrightarrow> armed (prom s) s \<Longrightarrow> armed (prom (setError ec s)) (setError ec s)"
  using armed_setValue [of s] by (simp add: setError_def sock_setException_def Let_def) (simp add: armed_def)

lemma next_pend_setValue [simp]: "next_pend (setValue s) = next_pend s"
  by (simp add: next_pend_def)

lemma waiting_setValue:
  assumes "core (next_pend s) s" and "reads_ok s" and "nextRead s \<noteq> Some None" and "armed (prom s) s"
  shows "waiting_ok (setValue s)" "armed (prom (setValue s)) (setValue s)"
proof -
  show "waiting_ok (setValue s)" using assms core_setValue by (simp add: waiting_ok_def reads_ok_def)
  have "promise_ok (prom s)" using assms(1) by (simp add: core_def)
  then show "armed (prom (setValue s)) (setValue s)" using assms(4) by (rule armed_setValue)
qed

lemma armed_except [simp]: "armed p (s\<lparr>except := e\<rparr>) = armed p s"
  by (simp add: armed_def)

lemma armed_simps [simp]:
  "armed p (s\<lparr>reading := n\<rparr>) = armed p s" "armed p (s\<lparr>eof := b\<rparr>) = armed p s" "armed p (s\<lparr>nextRead := r\<rparr>) = armed p s"
  "armed p (s\<lparr>bheap := h\<rparr>) = armed p s" "armed p (s\<lparr>readBuff := d\<rparr>) = armed p s" "armed p (s\<lparr>arrived := ds\<rparr>) = armed p s"
  "armed p (s\<lparr>isWriting := b\<rparr>) = armed p s" "armed p (s\<lparr>writing := ws\<rparr>) = armed p s"
  "armed p (s\<lparr>send_data := q\<rparr>) = armed p s" "armed p (s\<lparr>send_many_data := q'\<rparr>) = armed p s"
  "armed p (s\<lparr>sk_init := q''\<rparr>) = armed p s" "armed p (s\<lparr>handshaking := n\<rparr>) = armed p s"
  "armed p (asyncRead s) = armed p s" "armed p (send_out m s) = armed p s"
  by (simp_all add: armed_def asyncRead_def send_out_def)

text \<open>A new message, and data that has been read.\<close>

lemma detached_more:
  assumes "detached s hs w" and "next_buff (bheap s) \<le> next_buff (bheap s')" and "\<forall>b\<in>set bs. next_buff (bheap s) \<le> bufptr b"
    and "\<forall>p<next_buff (bheap s). buffs (bheap s') p = buffs (bheap s) p \<and> (p \<in> bufptr ` set (kept s') \<longleftrightarrow> p \<in> bufptr ` set (kept s))"
    and "set hs' \<subseteq> set (bs @ hs)"
  shows "detached s' hs' w"
proof -
  have w: "bufptr w < next_buff (bheap s)" "bufptr w \<notin> bufptr ` set hs"
      "bufptr w \<in> bufptr ` set (kept s) \<or> buffs (bheap s) (bufptr w) = None"
    using assms(1) by (simp_all add: detached_def)
  have "bufptr w \<noteq> bufptr b" if "b \<in> set hs'" for b
  proof -
    have "b \<in> set bs \<or> b \<in> set hs" using that assms(5) by auto
    then show ?thesis using assms(3) w(1,2) by (metis imageI linorder_not_le)
  qed
  then have "bufptr w \<notin> bufptr ` set hs'" by blast
  then show ?thesis using w(1,3) assms(2,4) by (simp add: detached_def)
qed

lemma core_push_data:
  assumes c: "core pend s" and l: "length d \<le> byte_vector_max"
  shows "\<exists>b h ks. sender_makes d keep s = Some (b, s\<lparr>bheap := h, kept := ks\<rparr>)
    \<and> core pend (s\<lparr>bheap := h, kept := ks, send_data := mq_push b (send_data s)\<rparr>)
    \<and> data_view (s\<lparr>bheap := h, kept := ks, send_data := mq_push b (send_data s)\<rparr>) = data_view s @ [d]"
proof -
  have ok: "mq_ok (send_data s)" and so: "sole (bheap s) (kept s) (handles pend s)" using c by (simp_all add: core_def)
  obtain b h ks where mk: "sender_makes d keep s = Some (b, s\<lparr>bheap := h, kept := ks\<rparr>)" "sole h ks (b # handles pend s)"
      "frame (bheap s) h (handles pend s)" "bytes h b = d" "next_buff (bheap s) \<le> next_buff h" "bufptr b = next_buff (bheap s)"
      "\<forall>p<next_buff (bheap s). buffs h p = buffs (bheap s) p \<and> (p \<in> bufptr ` set ks \<longleftrightarrow> p \<in> bufptr ` set (kept s))"
    using sole_sender_makes [OF so l, of keep] by blast
  let ?s = "s\<lparr>bheap := h, kept := ks, send_data := mq_push b (send_data s)\<rparr>"
  have q: "mq_list (mq_push b (send_data s)) = mq_list (send_data s) @ [b]" using ok by (rule mq_list_push)
  have ms: "mset (b # handles pend s) = mset (handles pend ?s)" by (simp add: handles_def recvd_def q)
  from sole_mset [OF this, of h] have "sole h ks (handles pend ?s)" using mk(2) by simp
  moreover have "contents h (map rd_data (recvd s @ pend)) = contents (bheap s) (map rd_data (recvd s @ pend))"
    by (rule contents_frame [OF mk(3)]) (auto simp: handles_def)
  moreover have "detached ?s (handles pend ?s) w" if w: "w \<in> set (writing s)" for w
  proof (rule detached_more [of s "handles pend s"])
    show "detached s (handles pend s) w" using c w by (simp add: core_def)
    show "set (handles pend ?s) \<subseteq> set ([b] @ handles pend s)" using mset_eq_setD [OF ms] by auto
  qed (use mk in simp_all)
  moreover have "recvd ?s = recvd s" by (simp add: recvd_def)
  ultimately have "core pend ?s" using c ok by (simp add: core_def mq_ok_push)
  moreover have "contents h (mq_list (send_data s)) = contents (bheap s) (mq_list (send_data s))"
    by (rule contents_frame [OF mk(3)]) (auto simp: handles_def)
  then have "data_view ?s = data_view s @ [d]" using mk(4) by (simp add: data_view_def q)
  ultimately show ?thesis using mk(1) by blast
qed

lemma core_push_many:
  assumes c: "core pend s" and l: "\<forall>d\<in>set ds. length (fst d) \<le> byte_vector_max"
  shows "\<exists>bs h ks. make_all ds s = Some (bs, s\<lparr>bheap := h, kept := ks\<rparr>)
    \<and> core pend (s\<lparr>bheap := h, kept := ks, send_many_data := mq_push bs (send_many_data s)\<rparr>)"
proof -
  have ok: "mq_ok (send_many_data s)" and so: "sole (bheap s) (kept s) (handles pend s)" using c by (simp_all add: core_def)
  obtain bs h ks where mk: "make_all ds s = Some (bs, s\<lparr>bheap := h, kept := ks\<rparr>)" "sole h ks (bs @ handles pend s)"
      "frame (bheap s) h (handles pend s)" "next_buff (bheap s) \<le> next_buff h" "\<forall>b\<in>set bs. next_buff (bheap s) \<le> bufptr b"
      "\<forall>p<next_buff (bheap s). buffs h p = buffs (bheap s) p \<and> (p \<in> bufptr ` set ks \<longleftrightarrow> p \<in> bufptr ` set (kept s))"
    using sole_make_all [OF so l] by blast
  let ?s = "s\<lparr>bheap := h, kept := ks, send_many_data := mq_push bs (send_many_data s)\<rparr>"
  have ms: "mset (bs @ handles pend s) = mset (handles pend ?s)" by (simp add: handles_def recvd_def mq_list_push [OF ok])
  from sole_mset [OF this, of h] have "sole h ks (handles pend ?s)" using mk(2) by simp
  moreover have "contents h (map rd_data (recvd s @ pend)) = contents (bheap s) (map rd_data (recvd s @ pend))"
    by (rule contents_frame [OF mk(3)]) (auto simp: handles_def)
  moreover have "detached ?s (handles pend ?s) w" if w: "w \<in> set (writing s)" for w
  proof (rule detached_more [of s "handles pend s"])
    show "detached s (handles pend s) w" using c w by (simp add: core_def)
    show "set (handles pend ?s) \<subseteq> set (bs @ handles pend s)" using mset_eq_setD [OF ms] by auto
  qed (use mk in simp_all)
  moreover have "recvd ?s = recvd s" by (simp add: recvd_def)
  ultimately have "core pend ?s" using c ok by (simp add: core_def mq_ok_push)
  with mk(1) show ?thesis by blast
qed

text \<open>A sender gives up a copy.\<close>

lemma core_release_copy:
  assumes c: "core pend s" and i: "i < length (kept s)"
  shows "\<exists>h. drop_buffer (kept s ! i) (s\<lparr>kept := take i (kept s) @ drop (Suc i) (kept s)\<rparr>)
      = Ret () (s\<lparr>bheap := h, kept := take i (kept s) @ drop (Suc i) (kept s)\<rparr>)
    \<and> core pend (s\<lparr>bheap := h, kept := take i (kept s) @ drop (Suc i) (kept s)\<rparr>)
    \<and> data_view (s\<lparr>bheap := h, kept := take i (kept s) @ drop (Suc i) (kept s)\<rparr>) = data_view s"
proof -
  let ?b = "kept s ! i" and ?ks = "take i (kept s) @ drop (Suc i) (kept s)"
  have k: "kept s = take i (kept s) @ ?b # drop (Suc i) (kept s)" by (rule id_take_nth_drop [OF i])
  have "mset (take i (kept s) @ ?b # drop (Suc i) (kept s)) = mset (?b # ?ks)" by simp
  then have ms: "mset (kept s) = mset (?b # ?ks)" using k by simp
  have so: "sole (bheap s) (?b # ?ks) (handles pend s)"
    using c sole_mset_copies [OF ms, of "bheap s" "handles pend s"] by (simp add: core_def)
  obtain h where h: "Buffer_destroy ?b (bheap s) = Some h" "sole h ?ks (handles pend s)" "frame (bheap s) h (handles pend s)"
      "next_buff h = next_buff (bheap s)" "bufptr ?b \<notin> bufptr ` set (handles pend s) \<longrightarrow> buffs h (bufptr ?b) = None"
      "\<forall>p. p \<noteq> bufptr ?b \<longrightarrow> buffs h p = buffs (bheap s) p"
    using sole_release_copy [OF so] by blast
  let ?s = "s\<lparr>bheap := h, kept := ?ks\<rparr>"
  have hd: "handles pend ?s = handles pend s" "recvd ?s = recvd s" by (simp_all add: handles_def recvd_def)
  have "set (kept s) = insert ?b (set ?ks)" using mset_eq_setD [OF ms] by simp
  then have "detached ?s (handles pend s) w" if "detached s (handles pend s) w" for w
    using that h(4-6) by (cases "bufptr w = bufptr ?b") (auto simp: detached_def)
  moreover have "contents h (map rd_data (recvd s @ pend)) = contents (bheap s) (map rd_data (recvd s @ pend))"
    by (rule contents_frame [OF h(3)]) (auto simp: handles_def)
  ultimately have "core pend ?s" using c h(2) hd by (simp add: core_def)
  moreover have "contents h (mq_list (send_data s)) = contents (bheap s) (mq_list (send_data s))"
    by (rule contents_frame [OF h(3)]) (auto simp: handles_def)
  then have "data_view ?s = data_view s" by (simp add: data_view_def)
  moreover have "drop_buffer ?b (s\<lparr>kept := ?ks\<rparr>) = Ret () ?s" using h(1) by (simp add: drop_buffer_def)
  ultimately show ?thesis by blast
qed

lemma core_read:
  assumes c: "core [] s" and l: "length d \<le> read_size" and m: "Buffer_make d (bheap s) = Some (b, h)"
  shows "core [\<lparr>rd_sender = p, rd_data = b\<rparr>]
    (s\<lparr>readBuff := d @ drop (length d) (readBuff s), arrived := arrived s @ [d], bheap := h\<rparr>)"
proof -
  let ?rd = "\<lparr>rd_sender = p, rd_data = b\<rparr>"
  let ?s = "s\<lparr>readBuff := d @ drop (length d) (readBuff s), arrived := arrived s @ [d], bheap := h\<rparr>"
  have so: "sole (bheap s) (kept s) (handles [] s)" using c by (simp add: core_def)
  have l': "length d \<le> byte_vector_max" using l by (simp add: read_size_def byte_vector_max_def)
  note mk = sole_make [OF so l' m]
  have ms: "mset (b # handles [] s) = mset (handles [?rd] ?s)" by (simp add: handles_def)
  from sole_mset [OF this, of h] have "sole h (kept s) (handles [?rd] ?s)" using mk(1) by simp
  moreover have "contents h (map rd_data (recvd s)) = contents (bheap s) (map rd_data (recvd s))"
    by (rule contents_frame [OF mk(2)]) (auto simp: handles_def)
  moreover have "detached ?s (handles [?rd] ?s) w" if w: "w \<in> set (writing s)" for w
  proof (rule detached_more [of s "handles [] s"])
    show "detached s (handles [] s) w" using c w by (simp add: core_def)
    show "set (handles [?rd] ?s) \<subseteq> set ([b] @ handles [] s)" using mset_eq_setD [OF ms] by auto
  qed (use mk(4-6) in simp_all)
  ultimately show ?thesis using c l mk(3) by (simp add: core_def)
qed

end
