(* ===== verification/Socket_Events.thy ===== *)
theory Socket_Events
  imports Socket_Ok
begin

text \<open>
  Every event keeps the invariant of the socket process; the machine of events is an instance of
  the locales of \<open>Event_Run\<close>, and the properties of the socket are read off the invariant.
\<close>

section \<open>Messages\<close>

definition same_shell :: "Sock \<Rightarrow> Sock \<Rightarrow> bool" where
  "same_shell s s' \<longleftrightarrow> location s' = location s \<and> nextRead s' = nextRead s \<and> eof s' = eof s \<and> except s' = except s
     \<and> reading s' = reading s \<and> toSend s' = toSend s \<and> isWriting s' = isWriting s \<and> prom s' = prom s
     \<and> handshake s' = handshake s \<and> handshaking s' = handshaking s \<and> sk_resumes s' = sk_resumes s \<and> sk_posted s' = sk_posted s"

lemmas phase_defs = fresh_ok_def sending_ok_def waiting_ok_def reads_ok_def next_pend_def

lemma sock_ok_push:
  assumes "sock_ok s" and "same_shell s s'" and "\<And>pend. core pend s \<Longrightarrow> core pend s'" and "location s \<noteq> AtIdle"
    and "location s = AtInit \<Longrightarrow> sk_init s' = sk_init s"
  shows "sock_ok s'"
  using assms by (cases "location s") (simp_all add: sock_ok_def same_shell_def phase_defs armed_def)

lemma resumable_push:
  assumes "sock_ok s" and "same_shell s s'" and "\<And>pend. core pend s \<Longrightarrow> core pend s'"
  shows "resumable s'"
  using assms by (cases "location s") (simp_all add: sock_ok_def resumable_def same_shell_def phase_defs)

lemma alive_core: "sock_ok s \<Longrightarrow> \<not> gone s \<Longrightarrow> \<exists>pend. core pend s"
  by (cases "location s") (auto simp: sock_ok_def gone_def phase_defs)

lemma deliver_data_ok:
  assumes "sock_ok s" and "\<not> gone s" and "1 < n" and "length d \<le> byte_vector_max"
  shows "event_ok (SendData d keep q) s (deliver_data n q d keep s)"
proof -
  obtain b h ks where m: "sender_makes d keep s = Some (b, s\<lparr>bheap := h, kept := ks\<rparr>)"
      and dv: "data_view (s\<lparr>bheap := h, kept := ks, send_data := mq_push b (send_data s)\<rparr>) = data_view s @ [d]"
    using alive_core [OF assms(1,2)] core_push_data [OF _ assms(4), of _ s keep] by blast
  let ?s = "s\<lparr>bheap := h, kept := ks, send_data := mq_push b (send_data s)\<rparr>"
  have c: "core pend ?s" if "core pend s" for pend using core_push_data [OF that assms(4), of keep] m by auto
  have sh: "same_shell s ?s" by (simp add: same_shell_def)
  have step: "data_step (SendData d keep q) s ?s" using dv assms(4) by (simp add: data_step_def data_input_def)
  have "event_ok (SendData d keep q) s (Ret () ?s)" if "location s \<noteq> AtIdle"
    by (rule event_ok_Ret [OF sock_ok_push [OF assms(1) sh c that] step]) simp_all
  moreover have "event_ok (SendData d keep q) s (sock_resume n q ?s)"
    by (rule event_ok_resume [OF resumable_push [OF assms(1) sh c] assms(3) step]) (simp_all add: event_risk_def)
  ultimately show ?thesis using m by (simp add: deliver_data_def Let_def)
qed

lemma deliver_many_ok:
  assumes "sock_ok s" and "\<not> gone s" and "1 < n" and l: "\<forall>d\<in>set ds. length (fst d) \<le> byte_vector_max"
  shows "event_ok (SendMany ds q) s (deliver_many n q ds s)"
proof -
  obtain bs h ks where m: "make_all ds s = Some (bs, s\<lparr>bheap := h, kept := ks\<rparr>)"
    using alive_core [OF assms(1,2)] core_push_many [OF _ l, of _ s] by blast
  let ?s = "s\<lparr>bheap := h, kept := ks, send_many_data := mq_push bs (send_many_data s)\<rparr>"
  have c: "core pend ?s" if "core pend s" for pend using core_push_many [OF that l] m by auto
  have sh: "same_shell s ?s" by (simp add: same_shell_def)
  have step: "data_step (SendMany ds q) s ?s" by (simp add: data_step_def not_many_def)
  have "event_ok (SendMany ds q) s (Ret () ?s)" if "location s \<noteq> AtIdle"
    by (rule event_ok_Ret [OF sock_ok_push [OF assms(1) sh c that] step]) simp_all
  moreover have "event_ok (SendMany ds q) s (sock_resume n q ?s)"
    by (rule event_ok_resume [OF resumable_push [OF assms(1) sh c] assms(3) step]) (simp_all add: event_risk_def)
  ultimately show ?thesis using m by (simp add: deliver_many_def Let_def)
qed

lemma release_copy_ok:
  assumes "sock_ok s" and "\<not> gone s"
  shows "event_ok (ReleaseCopy i) s (sock_act n (ReleaseCopy i) s)"
proof (cases "i < length (kept s)")
  case True
  obtain pend where "core pend s" using alive_core [OF assms] by blast
  from core_release_copy [OF this True] obtain h where
      r: "sock_act n (ReleaseCopy i) s = Ret () (s\<lparr>bheap := h, kept := take i (kept s) @ drop (Suc i) (kept s)\<rparr>)"
      and dv: "data_view (s\<lparr>bheap := h, kept := take i (kept s) @ drop (Suc i) (kept s)\<rparr>) = data_view s"
    using True by auto
  let ?s = "s\<lparr>bheap := h, kept := take i (kept s) @ drop (Suc i) (kept s)\<rparr>"
  have c: "core pend ?s" if "core pend s" for pend using core_release_copy [OF that True] r True by auto
  have "sock_ok ?s" using assms(1) c by (cases "location s") (simp_all add: sock_ok_def phase_defs armed_def)
  then show ?thesis using r dv event_ok_Ret [of ?s "ReleaseCopy i" s] by (simp add: data_step_def data_input_def)
next
  case False
  then show ?thesis using event_ok_same [OF assms(1), of "ReleaseCopy i"] by (simp add: data_input_def)
qed

lemma deliver_init_ok:
  assumes "sock_ok s" and "\<not> gone s" and "1 < n"
  shows "event_ok (SendInit a q) s (deliver_init n q a s)"
proof -
  let ?s = "s\<lparr>sk_init := mq_push a (sk_init s)\<rparr>"
  have c: "core pend ?s" if "core pend s" for pend using that by (simp add: core_def mq_ok_push)
  have sh: "same_shell s ?s" by (simp add: same_shell_def)
  have step: "data_step (SendInit a q) s ?s" by (simp add: data_step_def data_input_def)
  have "event_ok (SendInit a q) s (Ret () ?s)" if "location s \<noteq> AtInit" "location s \<noteq> AtIdle"
    by (rule event_ok_Ret [OF sock_ok_push [OF assms(1) sh c that(2)] step]) (use that(1) in simp_all)
  moreover have "event_ok (SendInit a q) s (Ret () ?s)" if "location s = AtIdle"
    by (rule event_ok_Ret [OF _ step]) (use that assms(1) c in \<open>simp add: sock_ok_def phase_defs\<close>)
  moreover have "event_ok (SendInit a q) s (sock_resume n q ?s)"
    by (rule event_ok_resume [OF resumable_push [OF assms(1) sh c] assms(3) step]) (simp_all add: event_risk_def)
  ultimately show ?thesis by (cases "location s = AtIdle") (simp_all add: deliver_init_def Let_def)
qed

section \<open>Wake-ups\<close>

lemma kick_ok: "sock_ok s \<Longrightarrow> 1 < n \<Longrightarrow> event_ok (Kick q) s (sock_act n (Kick q) s)"
  using event_ok_resume [OF sock_ok_resumable, of s n "Kick q" s q] event_ok_same [of s "Kick q"]
  by (simp add: data_step_def data_input_def event_risk_def)

lemma wake_ok:
  assumes "sock_ok s" and "1 < n"
  shows "event_ok (Wake i q) s (sock_act n (Wake i q) s)"
proof (cases "i < length (sk_posted s)")
  case True
  let ?s = "s\<lparr>sk_posted := take i (sk_posted s) @ drop (Suc i) (sk_posted s)\<rparr>"
  have step: "data_step (Wake i q) s ?s" by (simp add: data_step_def data_input_def)
  have "resumable ?s"
    using sock_ok_resumable [OF assms(1)] by (cases "location s") (simp_all add: resumable_def phase_defs)
  then have r: "event_ok (Wake i q) s (sock_resume n q ?s)" using assms(2) step by (rule event_ok_resume) (simp add: event_risk_def)
  have "armed p ?s" if "sk_posted s ! i \<noteq> sk_resumes s" "armed p s" for p
  proof -
    have "sk_resumes s \<in> set (take i (sk_posted s)) \<union> set (drop (Suc i) (sk_posted s))"
      if "sk_resumes s \<in> set (sk_posted s)"
      using that \<open>sk_posted s ! i \<noteq> sk_resumes s\<close> True
      by (metis Un_iff id_take_nth_drop insertE list.simps(15) set_append)
    then show ?thesis using that(2) by (auto simp: armed_def split: if_splits)
  qed
  then have "sock_ok ?s" if "sk_posted s ! i \<noteq> sk_resumes s"
    using assms(1) that by (cases "location s") (simp_all add: sock_ok_def phase_defs)
  then have "event_ok (Wake i q) s (Ret () ?s)" if "sk_posted s ! i \<noteq> sk_resumes s" using that step event_ok_Ret by blast
  with r True show ?thesis by (simp add: Let_def)
next
  case False
  then show ?thesis using event_ok_same [OF assms(1), of "Wake i q"] by (simp add: data_input_def)
qed

section \<open>Completions\<close>

lemma handshake_ok:
  assumes "sock_ok s"
  shows "event_ok (HandshakeDone ec) s (sock_act n (HandshakeDone ec) s)"
proof (cases "handshaking s > 0 \<and> \<not> aborted ec")
  case True
  define ph where "ph = (if ec \<noteq> NoError
    then setException (concatString [PStr ''SSL handshake threw '', PStr (message ec)]) (handshake s) else setIfUnset (handshake s))"
  let ?s = "s\<lparr>handshaking := handshaking s - 1, handshake := fst ph, sk_posted := sk_posted s @ snd ph\<rparr>"
  have r: "on_handshake ec (s\<lparr>handshaking := handshaking s - 1\<rparr>) = ?s"
    using True by (cases ec) (simp_all add: on_handshake_def ph_def split_beta)
  have step: "data_step (HandshakeDone ec) s ?s" by (simp add: data_step_def data_input_def)
  have "is_set (fst ph)" "promise_ok (handshake s) \<Longrightarrow> promise_ok (fst ph)"
      "promise_ok (handshake s) \<Longrightarrow> snd ph = (case exec (handshake s) of None \<Rightarrow> [] | Some h \<Rightarrow> [h])"
    by (simp_all add: ph_def promise_ok_def setIfUnset_simps setException_simps)
  then have "sock_ok ?s"
    using assms by (cases "location s") (auto simp: sock_ok_def phase_defs armed_def split: option.splits if_splits)
  then show ?thesis using True r step by (simp add: event_ok_Ret)
next
  case False
  then show ?thesis using event_ok_same [OF assms, of "HandshakeDone ec"] by (auto simp: data_input_def)
qed

text \<open>A completion that is seen while the process waits on \<open>p_\<close>.\<close>

definition noticed :: "Sock \<Rightarrow> Sock \<Rightarrow> bool" where
  "noticed s s' \<longleftrightarrow> waiting_ok s' \<and> armed (prom s') s' \<and> location s' = location s \<and> isWriting s' = isWriting s
     \<and> (is_set (prom s) \<longrightarrow> is_set (prom s')) \<and> send_data s' = send_data s \<and> send_many_data s' = send_many_data s
     \<and> data_view s' = data_view s"

lemma noticed_ok:
  assumes "sock_ok s" and "location s = AtWriting \<or> location s = AtIdle" and "noticed s s'" and "data_input e = []"
  shows "event_ok e s (Ret () s')"
  using assms by (intro event_ok_Ret) (auto simp: sock_ok_def data_step_def noticed_def)

lemma read_data_ok:
  assumes w: "waiting_ok s" "armed (prom s) s" and r: "reading s = 1" and d: "d \<noteq> []" "length d \<le> read_size"
  shows "\<exists>s'. read_done NoError d s = Ret () s' \<and> noticed s s'"
proof -
  have f: "nextRead s = None" "\<not> eof s" "core [] s" "toSend s \<noteq> None" using r w(1) by (auto simp: phase_defs)
  obtain b h where m: "Buffer_make d (bheap s) = Some (b, h)" by (simp add: Buffer_make_eq)
  let ?rd = "\<lparr>rd_sender = sk_pid s, rd_data = b\<rparr>"
  let ?u = "s\<lparr>reading := 0, readBuff := d @ drop (length d) (readBuff s), arrived := arrived s @ [d], bheap := h\<rparr>"
  have c: "core [?rd] ?u" using core_read [of "s\<lparr>reading := 0\<rparr>" d b h "sk_pid s"] f(3) d m by simp
  have dv: "data_view ?u = data_view s"
  proof -
    have "contents h (mq_list (send_data s)) = contents (bheap s) (mq_list (send_data s))"
      using f(3) sole_make(2) [OF _ _ m, of "kept s" "handles [] s"] d(2)
      by (intro contents_frame) (auto simp: core_def handles_def read_size_def byte_vector_max_def)
    then show ?thesis by (simp add: data_view_def)
  qed
  show ?thesis
  proof (cases "throttled s")
    case True
    let ?s = "setValue (?u\<lparr>nextRead := Some (Some ?rd)\<rparr>)"
    have "waiting_ok ?s" "armed (prom ?s) ?s" using f w c by (intro waiting_setValue; simp add: phase_defs)+
    then show ?thesis using True d m f r dv
      by (simp add: read_done_def on_read_def Buffer_makeCopy_def set_nextRead_def Let_def noticed_def)
  next
    case False
    obtain a where a: "toSend s = Some a" using f by auto
    let ?s = "asyncRead (send_out (Received a ?rd) ?u)"
    have "core [] ?s" using c core_send_out(2) by simp
    then have "waiting_ok ?s" "armed (prom ?s) ?s" using f w by (simp_all add: phase_defs)
    then show ?thesis using False d m f r a dv
      by (simp add: read_done_def on_read_def Buffer_makeCopy_def Let_def noticed_def) (simp add: asyncRead_def send_out_def)
  qed
qed

lemma read_ok:
  assumes ok: "sock_ok s" and g: "\<not> gone s"
  shows "event_ok (ReadDone ec d) s (sock_act n (ReadDone ec d) s)"
proof (cases "reading s > 0 \<and> \<not> aborted ec \<and> length d \<le> read_size")
  case False
  then show ?thesis using event_ok_same [OF ok, of "ReadDone ec d"] by (auto simp: data_input_def)
next
  case True
  let ?t = "s\<lparr>reading := 0\<rparr>"
  have loc: "location s = AtWriting \<or> location s = AtIdle"
    using True ok g by (cases "location s") (auto simp: sock_ok_def gone_def phase_defs)
  then have w: "waiting_ok s" "armed (prom s) s" using ok by (auto simp: sock_ok_def)
  then have r: "reading s = 1" "nextRead s = None" "\<not> eof s" "core [] s" "toSend s \<noteq> None"
    using True by (auto simp: phase_defs)
  have "\<exists>s'. read_done ec d s = Ret () s' \<and> noticed s s'"
  proof (cases ec)
    case (Eof t)
    have "waiting_ok (setValue (?t\<lparr>eof := True\<rparr>))" "armed (prom (setValue (?t\<lparr>eof := True\<rparr>))) (setValue (?t\<lparr>eof := True\<rparr>))"
      using r w by (intro waiting_setValue; simp add: phase_defs)+
    then show ?thesis using r(1) Eof by (simp add: read_done_def on_read_def noticed_def)
  next
    case (OtherError t)
    have "waiting_ok (setError ec ?t)" using r core_setError [of "[]" ?t ec] by (simp add: phase_defs)
    moreover have "armed (prom (setError ec ?t)) (setError ec ?t)"
      using r w armed_setError [of ?t ec] by (simp add: core_def [of _ s])
    ultimately show ?thesis using r(1) OtherError by (simp add: read_done_def on_read_def noticed_def)
  next
    case NoError
    show ?thesis
    proof (cases "d = []")
      case True
      have "waiting_ok (s\<lparr>reading := Suc 0\<rparr>)" using w(1) r by (simp add: phase_defs)
      then show ?thesis using True NoError r(1) w by (simp add: read_done_def on_read_def asyncRead_def noticed_def)
    next
      case False
      then show ?thesis using read_data_ok [OF w r(1)] True NoError by simp
    qed
  qed (use True in simp)
  then show ?thesis using True noticed_ok [OF ok loc] by (auto simp: data_input_def)
qed

lemma write_ok:
  assumes ok: "sock_ok s" and g: "\<not> gone s"
  shows "event_ok (WriteDone ec) s (sock_act n (WriteDone ec) s)"
proof (cases "writing s \<noteq> [] \<and> \<not> aborted ec")
  case False
  then show ?thesis using event_ok_same [OF ok, of "WriteDone ec"] by (auto simp: data_input_def)
next
  case True
  let ?t = "s\<lparr>writing := [], isWriting := False\<rparr>"
  have loc: "isWriting s" "tl (writing s) = []" if "core pend s" for pend
    using core_writing [OF that] True by simp_all
  have c: "core pend ?t" if "core pend s" for pend using that by (simp add: core_def)
  define s' where "s' = (if ec = NoError then setValue ?t else setError ec ?t)"
  have c': "core pend s'" if "core pend s" for pend using c [OF that] by (simp add: s'_def core_setValue core_setError)
  have a': "armed (prom s') s'" if "core pend s" "armed (prom s) s" for pend
    using that armed_setValue [of ?t] armed_setError [of ?t ec] by (auto simp: s'_def core_def [of _ s])
  have sel: "location s' = location s" "nextRead s' = nextRead s" "eof s' = eof s" "reading s' = reading s" "toSend s' = toSend s"
      "\<not> isWriting s'" "is_set (prom s')" "send_data s' = send_data s" "send_many_data s' = send_many_data s"
      "data_view s' = data_view s" "except s \<noteq> None \<longrightarrow> except s' \<noteq> None" "except s' = None \<or> is_set (prom s')"
    by (simp_all add: s'_def)
  have "sock_ok s' \<and> tl (writing s) = []"
  proof (cases "location s")
    case AtWriting
    then have w: "core (next_pend s) s" "armed (prom s) s" "reads_ok s" "nextRead s \<noteq> Some None" using ok by (simp_all add: sock_ok_def waiting_ok_def)
    then show ?thesis using AtWriting sel c' a' loc [OF w(1)]
      by (auto simp: sock_ok_def waiting_ok_def reads_ok_def next_pend_def)
  qed (use ok g sel c' loc in \<open>auto simp: sock_ok_def gone_def phase_defs\<close>)
  moreover have "sock_act n (WriteDone ec) s = Ret () s'" if "tl (writing s) = []"
    using True that by (cases ec) (simp_all add: on_write_def s'_def Let_def)
  ultimately show ?thesis using event_ok_Ret [of s' "WriteDone ec" s] sel by (simp add: data_step_def data_input_def)
qed

lemma sock_act_ok:
  assumes "sock_ok s" and "\<not> gone s" and "1 < n"
  shows "event_ok e s (sock_act n e s)"
proof (cases e)
  case (SendData d keep q)
  then show ?thesis using deliver_data_ok [OF assms] event_ok_same [OF assms(1), of e] by (auto simp: data_input_def)
next
  case (SendMany ds q)
  then show ?thesis using deliver_many_ok [OF assms, of ds q] event_ok_same [OF assms(1), of e] by (simp add: data_input_def)
qed (use assms kick_ok wake_ok deliver_init_ok handshake_ok read_ok write_ok release_copy_ok in \<open>simp_all del: sock_act.simps add: sock_act.simps(5)\<close>)

section \<open>The machine\<close>

text \<open>Two units of fuel are enough for every event.\<close>

definition sock_step :: "event \<Rightarrow> Sock \<Rightarrow> (unit, Sock) res" where
  "sock_step = sock_event 2"

lemma sock_step_ok: "sock_ok s \<Longrightarrow> event_ok e s (sock_step e s) \<or> gone s \<and> sock_step e s = Ret () s"
  using sock_act_ok [of s 2 e] by (auto simp: sock_step_def sock_event_def)

interpretation sock: event_machine sock_step sock_ok event_risk
proof
  fix s e
  assume "sock_ok s"
  then show "res_within (event_risk e) (\<lambda>_. sock_ok) (\<lambda>_. False) (sock_step e s)"
    using sock_step_ok [of s e] by (auto simp: event_ok_def elim: res_within_mono)
qed

definition plain_sock_ok :: "Sock \<Rightarrow> bool" where
  "plain_sock_ok s \<longleftrightarrow> sock_ok s \<and> (gone s \<or> mq_list (send_many_data s) = [])"

definition data_only :: "event \<Rightarrow> Sock \<Rightarrow> (unit, Sock) res" where
  "data_only e s = (if not_many e then sock_step e s else Ret () s)"

lemma data_only_ok:
  assumes "plain_sock_ok s"
  shows "res_within (event_risk e) (\<lambda>_ s'. plain_sock_ok s' \<and> (gone s \<longrightarrow> s' = s)
    \<and> (gone s' \<or> (not_many e \<longrightarrow> data_view s' = data_view s @ data_input e))) (\<lambda>_. False) (data_only e s)"
proof (cases "gone s")
  case True
  then show ?thesis using assms by (simp add: data_only_def sock_step_def sock_event_def)
next
  case False
  have "event_ok e s (sock_step e s)" using sock_step_ok [of s e] assms False by (auto simp: plain_sock_ok_def)
  then show ?thesis
    using assms False unfolding event_ok_def data_only_def
    by (auto simp: plain_sock_ok_def data_step_def elim!: res_within_mono)
qed

interpretation writes: stream_machine data_only plain_sock_ok event_risk gone data_view data_input not_many
proof
  fix s e s'
  assume ok: "plain_sock_ok s"
  note t = data_only_ok [OF this, of e]
  show "res_within (event_risk e) (\<lambda>_. plain_sock_ok) (\<lambda>_. False) (data_only e s)" using t by (auto elim: res_within_mono)
  show "gone s'" if "gone s" "data_only e s = Ret () s'" using t that by simp
  show "data_view s' = data_view s @ data_input e" if "not_many e" "data_only e s = Ret () s'" "\<not> gone s'" using t that by simp
qed

lemma data_only_run: "list_all not_many es \<Longrightarrow> run_events data_only es s = run_events sock_step es s"
proof (induction es arbitrary: s)
  case (Cons e es)
  then show ?case by (cases "sock_step e s") (simp_all add: data_only_def)
qed simp

lemma sock_ok_init: "sock_ok (TSocketProcess_init pid is_ssl thr ready)"
  by (simp add: sock_ok_def TSocketProcess_init_def fresh_ok_def core_def sole_def handles_def recvd_def mq.contents_empty
      mq_ok_init promise_ok_init empty_heap_def EslangPromise_init_def promise_ok_def)

section \<open>Properties\<close>

lemma run_ok:
  assumes "run_events sock_step es (TSocketProcess_init pid is_ssl thr ready) = Ret () s"
  shows "sock_ok s"
  using sock.run_goodD [OF sock_ok_init assms] .

lemma run_core:
  assumes "run_events sock_step es (TSocketProcess_init pid is_ssl thr ready) = Ret () s" and "\<not> gone s"
  shows "\<exists>pend. core pend s \<and> length pend \<le> 1"
proof -
  have "length (next_pend s) \<le> 1" by (simp add: next_pend_def split: option.split)
  then show ?thesis
    using run_ok [OF assms(1)] assms(2)
    by (cases "location s") (force simp: sock_ok_def gone_def fresh_ok_def sending_ok_def waiting_ok_def)+
qed

text \<open>
  A run for the examples below: the process starts, is told where to send, gets a buffer to write
  and, while it is being written, another one and a collection.
\<close>

definition free_ctx :: ContextState where
  "free_ctx = \<lparr>busy = False, can_queue = MayQueue, promise_lives = True\<rparr>"

definition demo_addr :: SendAddress where
  "demo_addr = \<lparr>sa_pid = \<lparr>idx = 0, version = 0\<rparr>, sa_slot = 0\<rparr>"

definition demo_sock :: Sock where
  "demo_sock = TSocketProcess_init \<lparr>idx = 1, version = 0\<rparr> False True demo_addr"

definition demo_start :: "event list" where
  "demo_start = [Kick free_ctx, SendInit demo_addr free_ctx, SendData [1] False free_ctx]"

lemma small_sizes: "n \<le> 16000 \<Longrightarrow> n \<le> read_size" "n \<le> 16000 \<Longrightarrow> n \<le> byte_vector_max"
  by (simp_all add: read_size_def byte_vector_max_def)

lemmas sock_eval = demo_start_def demo_sock_def free_ctx_def sock_step_def sock_event_def gone_def kickable_def sock_resume_def
  process_own_def continue_def start_def after_start_def after_init_def TSocketProcess_init_def send_out_def asyncRead_def
  read_part_def write_part_def suspend_on_prom_def setContinuation_def set_promise_def setIfUnset_def setValue_def
  EslangPromise_init_def MessageQueue_init_def mq_empty_def mq_size_def mq_push_def mq_pop_def deliver_init_def deliver_data_def
  deliver_many_def after_idle_def take_data_def take_many_def write_first_def sock_write_def Buffer_copy_def
  intrusive_ptr_add_ref_def Buffer_make_eq drop_buffer_def Buffer_destroy_def intrusive_ptr_release_def checkExcept_def
  isReady_def Buffer_bytes_def EslangPromise_assign_def empty_heap_def kThrottle_def numeral_2_eq_2 read_done_def on_read_def
  Buffer_makeCopy_def set_nextRead_def on_write_def process_def send_loop_def setError_def sock_setException_def
  make_ExceptionWrapper_def Let_def small_sizes sender_makes_def





text \<open>C6: Nothing that happens to a socket goes unnoticed: whenever the process is suspended in its loop,
  either its wake-up with the present resume counter is posted, or there is nothing to notice: a read
  is outstanding, no data, end of file or error is waiting to be handled, when it waits for a write that
  write is outstanding, and when it waits for messages its queues are empty.\<close>

theorem socket_notices_events:
  assumes "run_events sock_step es (TSocketProcess_init pid is_ssl thr ready) = Ret () s"
    and "location s = AtWriting \<or> location s = AtIdle"
  shows "sk_resumes s \<in> set (sk_posted s) \<or>
    (exec (prom s) = Some (sk_resumes s) \<and> reading s = 1 \<and> nextRead s = None \<and> \<not> eof s \<and> except s = None
     \<and> (location s = AtWriting \<longrightarrow> writing s \<noteq> [])
     \<and> (location s = AtIdle \<longrightarrow> mq_list (send_data s) = [] \<and> mq_list (send_many_data s) = []))"
proof -
  have ok: "sock_ok s" using run_ok [OF assms(1)] .
  show ?thesis
  proof (cases "is_set (prom s)")
    case True
    then show ?thesis using ok assms(2) by (auto simp: sock_ok_def armed_def)
  next
    case False
    have "isWriting s \<Longrightarrow> waiting_ok s \<Longrightarrow> writing s \<noteq> []" by (auto simp: waiting_ok_def core_def)
    then show ?thesis using False ok assms(2) by (auto simp: sock_ok_def armed_def waiting_ok_def reads_ok_def)
  qed
qed

theorem socket_notices_events_witness:
  "\<exists>s. run_events sock_step demo_start demo_sock = Ret () s \<and> exec (prom s) = Some (sk_resumes s) \<and> reading s = 1 \<and> writing s \<noteq> []"
proof -
  obtain s where r: "run_events sock_step demo_start demo_sock = Ret () s" and l: "location s = AtWriting" "sk_posted s = []"
    by (simp add: sock_eval)
  show ?thesis using socket_notices_events [OF r [unfolded demo_sock_def]] l r by auto
qed

text \<open>C24: A socket has at most one read and one write outstanding, and data that has been read and not been
  sent on yet is never overwritten, since no read is outstanding as long as it waits.\<close>

theorem socket_one_operation_each:
  assumes "run_events sock_step es (TSocketProcess_init pid is_ssl thr ready) = Ret () s" and "\<not> gone s"
  shows "reading s \<le> 1 \<and> length (writing s) \<le> 1 \<and> (isWriting s \<longleftrightarrow> writing s \<noteq> []) \<and> (nextRead s \<noteq> None \<longrightarrow> reading s = 0)"
proof -
  obtain pend where "core pend s" using run_core [OF assms] by blast
  then have "length (writing s) \<le> 1" "isWriting s \<longleftrightarrow> writing s \<noteq> []" by (auto simp: core_def split: if_splits)
  moreover have "reading s \<le> 1 \<and> (nextRead s \<noteq> None \<longrightarrow> reading s = 0)"
    using run_ok [OF assms(1)] assms(2) by (cases "location s") (auto simp: sock_ok_def gone_def phase_defs)
  ultimately show ?thesis by blast
qed

theorem socket_one_operation_each_witness:
  "\<exists>s. run_events sock_step (demo_start @ [ReadDone NoError [7]]) demo_sock = Ret () s \<and> isWriting s \<and> nextRead s \<noteq> None
     \<and> reading s = 0 \<and> length (writing s) \<le> 1"
proof -
  obtain s where r: "run_events sock_step (demo_start @ [ReadDone NoError [7]]) demo_sock = Ret () s"
      and l: "\<not> gone s" "nextRead s \<noteq> None" "isWriting s"
    by (simp add: sock_eval)
  show ?thesis using socket_one_operation_each [OF r [unfolded demo_sock_def] l(1)] l r by auto
qed

text \<open>C13: Received data keeps its content and its order: the buffers the socket has sent on hold exactly the
  data read from the network, in order and without a gap, and at most the last piece read has not been
  sent on yet.\<close>

theorem socket_received_in_order:
  assumes "run_events sock_step es (TSocketProcess_init pid is_ssl thr ready) = Ret () s" and "\<not> gone s"
  shows "map (\<lambda>rd. Buffer_bytes (bheap s) (rd_data rd)) (recvd s) = map Some (take (length (recvd s)) (arrived s))
    \<and> length (recvd s) \<le> length (arrived s) \<and> length (arrived s) \<le> Suc (length (recvd s))"
proof -
  obtain pend where c: "core pend s" and p: "length pend \<le> 1" using run_core [OF assms] by blast
  have a: "arrived s = contents (bheap s) (map rd_data (recvd s)) @ contents (bheap s) (map rd_data pend)"
    using c by (simp add: core_def)
  have "Buffer_bytes (bheap s) (rd_data rd) = Some (bytes (bheap s) (rd_data rd))" if "rd \<in> set (recvd s)" for rd
    using c that by (intro owns_bytes [OF soleD(4)]) (auto simp: core_def handles_def)
  then show ?thesis using p by (simp add: a contents_def)
qed

theorem socket_received_in_order_witness:
  "\<exists>s. run_events sock_step (demo_start @ [ReadDone NoError [7], Wake 0 free_ctx]) demo_sock = Ret () s
     \<and> map (\<lambda>rd. Buffer_bytes (bheap s) (rd_data rd)) (recvd s) = [Some [7]]"
proof -
  obtain s where r: "run_events sock_step (demo_start @ [ReadDone NoError [7], Wake 0 free_ctx]) demo_sock = Ret () s"
      and l: "\<not> gone s" "length (recvd s) = 1" "arrived s = [[7]]"
    by (simp add: sock_eval recvd_def)
  show ?thesis using socket_received_in_order [OF r [unfolded demo_sock_def] l(1)] l r by auto
qed

text \<open>C14: Data is written in the order in which it was sent: as long as only single buffers are sent to the
  socket, the data handed to \<open>async_write\<close> so far, one write per message, followed by the data that is
  still queued, is the data sent.\<close>

theorem socket_writes_in_order:
  assumes "run_events sock_step es (TSocketProcess_init pid is_ssl thr ready) = Ret () s" and "\<not> gone s"
    and "list_all not_many es"
  shows "started s @ contents (bheap s) (mq_list (send_data s)) = concat (map data_input es)"
proof -
  let ?s = "TSocketProcess_init pid is_ssl thr ready"
  have "mq_list (send_many_data ?s) = []" "data_view ?s = []"
    by (simp_all add: TSocketProcess_init_def data_view_def mq.contents_empty)
  moreover from this have "plain_sock_ok ?s" by (simp add: plain_sock_ok_def sock_ok_init)
  ultimately show ?thesis
    using writes.run_seen [of ?s es s] assms data_only_run [OF assms(3)] by (simp add: data_view_def)
qed

theorem socket_writes_in_order_witness:
  "\<exists>s. run_events sock_step (demo_start @ [SendData [2] False free_ctx]) demo_sock = Ret () s
     \<and> started s @ contents (bheap s) (mq_list (send_data s)) = [[1], [2]]"
proof -
  let ?es = "demo_start @ [SendData [2] False free_ctx]"
  obtain s where r: "run_events sock_step ?es demo_sock = Ret () s" and l: "\<not> gone s"
    by (simp add: sock_eval)
  have "list_all not_many ?es" "concat (map data_input ?es) = [[1], [2]]"
    by (simp_all add: demo_start_def not_many_def data_input_def small_sizes)
  with socket_writes_in_order [OF r [unfolded demo_sock_def] l] r show ?thesis by auto
qed



lemma take_drop_last: "take (length xs) (xs @ [x]) @ drop (Suc (length xs)) (xs @ [x]) = xs"
  by simp

text \<open>The end of a write, and the resume that follows it.\<close>

lemma write_done_wakes:
  assumes "waiting_ok s" and "armed (prom s) s" and "location s = AtWriting" and "writing s \<noteq> []" and "\<not> is_set (prom s)"
  shows "\<exists>p. run_events sock_step [WriteDone NoError, Wake (length (sk_posted s)) q] s
      = sock_resume 2 q (s\<lparr>writing := [], isWriting := False, prom := p\<rparr>)
    \<and> is_set p \<and> exec p = None \<and> exception p = None"
proof -
  let ?p = "(prom s)\<lparr>exec := None, is_set := True\<rparr>" and ?t = "s\<lparr>writing := [], isWriting := False\<rparr>"
  have c: "promise_ok (prom s)" "exception (prom s) = None" using assms(1) by (simp_all add: waiting_ok_def core_def)
  have tl: "tl (writing s) = []" using core_writing(2) [of "next_pend s" s] assms(1,4) by (simp add: waiting_ok_def)
  have "exec (prom s) = Some (sk_resumes s)" using assms(2,5) by (simp add: armed_def)
  then have v: "setValue ?t = ?t\<lparr>prom := ?p, sk_posted := sk_posted s @ [sk_resumes s]\<rparr>"
    using setValue_eq [of ?t] c(1) assms(5) by simp
  have "sock_step (WriteDone NoError) s = Ret () (setValue ?t)"
    using assms(3,4) tl by (simp add: sock_step_def sock_event_def gone_def on_write_def)
  moreover have "s\<lparr>writing := [], isWriting := False, prom := ?p, sk_posted := sk_posted s\<rparr>
      = s\<lparr>writing := [], isWriting := False, prom := ?p\<rparr>" by (cases s) simp
  then have "sock_step (Wake (length (sk_posted s)) q) (setValue ?t)
      = sock_resume 2 q (s\<lparr>writing := [], isWriting := False, prom := ?p\<rparr>)"
    using assms(3) by (simp add: v sock_step_def sock_event_def gone_def take_drop_last Let_def)
  moreover have "res_bind r (\<lambda>_. Ret ()) = r" for r :: "(unit, Sock) res" by (cases r) simp_all
  ultimately show ?thesis using c(2) by (intro exI [of _ ?p]) simp
qed

text \<open>C38: A collection sent to a socket can be lost: when a write ends and both a buffer and a collection are
  queued, the process takes both messages, writes the buffer and drops the collection.\<close>

theorem send_many_is_lost:
  assumes "run_events sock_step es (TSocketProcess_init pid is_ssl thr ready) = Ret () s"
    and "location s = AtWriting" and "writing s \<noteq> []" and "\<not> is_set (prom s)"
    and d: "mq_list (send_data s) = b # bs" and m: "mq_list (send_many_data s) = cs # css"
  shows "\<exists>s'. run_events sock_step [WriteDone NoError, Wake (length (sk_posted s)) q] s = Ret () s'
    \<and> started s' = started s @ [bytes (bheap s) b] \<and> mq_list (send_many_data s') = css"
proof -
  have w: "waiting_ok s" "armed (prom s) s" using run_ok [OF assms(1)] assms(2) by (simp_all add: sock_ok_def)
  then have n: "nextRead s = None" "\<not> eof s" "except s = None" "core [] s" using assms(4) by (auto simp: phase_defs)
  obtain p where p: "run_events sock_step [WriteDone NoError, Wake (length (sk_posted s)) q] s
      = sock_resume 2 q (s\<lparr>writing := [], isWriting := False, prom := p\<rparr>)" "is_set p" "exec p = None" "exception p = None"
    using write_done_wakes [OF w assms(2-4)] by blast
  let ?p = "p\<lparr>is_set := False\<rparr>"
  let ?s = "s\<lparr>writing := [], isWriting := False, prom := ?p, sk_resumes := sk_resumes s + 1\<rparr>"
  have pr: "process p = Inr ?p" using p(2-4) by (cases p) (simp add: process_def Let_def)
  have "core [] ?s" using n(4) p by (simp add: core_def promise_ok_def)
  from after_idle_both [OF this _ _, of b bs cs css] obtain s4 where s4: "after_idle ?s = Ret () s4" "core [] s4" "same_reads ?s s4" "isWriting s4" "\<not> is_set (prom s4)"
      "started s4 = started s @ [bytes (bheap s) b]" "mq_list (send_many_data s4) = css"
    using n(3) d m by auto
  have q: "\<not> mq_empty (send_data s)" using n(4) d by (simp add: core_def mq_empty_list)
  have "run_loop 2 q ?s = Ret () (suspend_on_prom AtWriting s4)"
    using n s4 q by (simp add: numeral_2_eq_2 read_part_def write_part_def same_reads_def isReady_def)
  then have "sock_resume 2 q (s\<lparr>writing := [], isWriting := False, prom := p\<rparr>) = Ret () (suspend_on_prom AtWriting s4)"
    using assms(2) pr n(3) by (simp add: sock_resume_def gone_def process_own_def continue_def checkExcept_def)
  then show ?thesis using p(1) s4(6,7) by (simp add: suspend_on_prom_def split: prod.split)
qed

theorem send_many_is_lost_witness:
  "\<exists>s s'. run_events sock_step (demo_start @ [SendData [2] False free_ctx, SendMany [([3], False)] free_ctx]) demo_sock = Ret () s
     \<and> run_events sock_step [WriteDone NoError, Wake 0 free_ctx] s = Ret () s'
     \<and> started s' = [[1], [2]] \<and> mq_list (send_many_data s') = []"
proof -
  let ?es = "demo_start @ [SendData [2] False free_ctx, SendMany [([3], False)] free_ctx]"
  obtain s b cs where r: "run_events sock_step ?es demo_sock = Ret () s"
      and l: "location s = AtWriting" "writing s \<noteq> []" "\<not> is_set (prom s)" "sk_posted s = []"
      and d: "mq_list (send_data s) = [b]" "bytes (bheap s) b = [2]" "started s = [[1]]" and m: "mq_list (send_many_data s) = [cs]"
    by (simp add: sock_eval mq_list_def bytes_def)
  show ?thesis
    using send_many_is_lost [OF r [unfolded demo_sock_def] l(1-3) d(1) m, of free_ctx] r l(4) d(2,3) by auto
qed

text \<open>C27: Errors are not swallowed: when a read or a write has failed and the process waits in its loop, its
  wake-up is posted, and running it ends the process with the error.\<close>

theorem socket_error_ends_process:
  assumes "run_events sock_step es (TSocketProcess_init pid is_ssl thr ready) = Ret () s"
    and "location s = AtWriting \<or> location s = AtIdle" and "except s = Some (Impl e)"
  shows "\<exists>i s'. i < length (sk_posted s) \<and> sock_step (Wake i q) s = Ret () s'
    \<and> location s' = Failed (concatString [PStr ''Caught exception: '', PStr e])"
proof -
  have ok: "sock_ok s" using run_ok [OF assms(1)] .
  then have w: "waiting_ok s" "armed (prom s) s" using assms(2) by (auto simp: sock_ok_def)
  then have "is_set (prom s)" using assms(3) by (simp add: waiting_ok_def)
  then obtain i where i: "i < length (sk_posted s)" "sk_posted s ! i = sk_resumes s"
    using w(2) by (auto simp: armed_def in_set_conv_nth)
  let ?s = "s\<lparr>sk_posted := take i (sk_posted s) @ drop (Suc i) (sk_posted s)\<rparr>"
  obtain p where p: "process (prom s) = Inr p" "\<not> is_set p" "promise_ok p" "exception p = None"
    using process_plain [of "prom s"] w(1) by (auto simp: waiting_ok_def core_def)
  let ?u = "s\<lparr>sk_posted := take i (sk_posted s) @ drop (Suc i) (sk_posted s), prom := p, sk_resumes := sk_resumes s + 1\<rparr>"
  have "core (next_pend s) ?u" using w(1) p core_prom [of "next_pend s" ?s p] by (simp add: waiting_ok_def)
  then have "\<exists>s'. after_idle ?u = Throw e s'" if "location s = AtIdle"
    using after_idle_throws [of "next_pend s" ?u e] assms(3) that ok by (simp add: sock_ok_def)
  moreover have "checkExcept ?u = Throw e ?u" using assms(3) by (simp add: checkExcept_def)
  ultimately have "\<exists>s'. res_bind (process_own q ?s) (\<lambda>_ s. continue 2 q (s\<lparr>sk_resumes := sk_resumes s + 1\<rparr>)) = Throw e s'"
    using assms(2) p(1) by (elim disjE) (auto simp: process_own_def continue_def)
  moreover have g: "\<not> gone s" "\<not> gone ?s" using assms(2) by (auto simp: gone_def)
  ultimately have "\<exists>s'. sock_resume 2 q ?s = Ret () s' \<and> location s' = Failed (concatString [PStr ''Caught exception: '', PStr e])"
    unfolding sock_resume_def by (elim exE) simp
  moreover have "sock_step (Wake i q) s = sock_resume 2 q ?s" using i g(1) by (simp add: sock_step_def sock_event_def Let_def)
  ultimately show ?thesis using i(1) by auto
qed

theorem socket_error_ends_process_witness:
  "\<exists>s i s'. run_events sock_step (demo_start @ [WriteDone (OtherError ''Broken pipe'')]) demo_sock = Ret () s
     \<and> sock_step (Wake i free_ctx) s = Ret () s' \<and> location s' = Failed ''Caught exception: Listener threw Broken pipe''"
proof -
  obtain s where r: "run_events sock_step (demo_start @ [WriteDone (OtherError ''Broken pipe'')]) demo_sock = Ret () s"
      and l: "location s = AtWriting" "except s = Some (Impl (concatString [PStr ''Listener threw '', PStr ''Broken pipe'']))"
    by (simp add: sock_eval)
  obtain i s' where "sock_step (Wake i free_ctx) s = Ret () s'" "location s' = Failed (concatString
      [PStr ''Caught exception: '', PStr (concatString [PStr ''Listener threw '', PStr ''Broken pipe''])])"
    using socket_error_ends_process [OF r [unfolded demo_sock_def] _ l(2), of free_ctx] l(1) by auto
  with r show ?thesis by (auto simp: concatString_def)
qed

end
