(* ===== verification/Www.thy ===== *)
theory Www
  imports Tcp
begin

text \<open>
  \<open>eslang_www/Www.h\<close>, \<open>Www.cpp\<close>: the HTTP server on top of the sockets. Parsing and serialising are done by
  \<open>boost::beast\<close>, which is not part of the repository: its operations are a record of functions that the
  definitions take as an argument, over types of requests, responses, parsers, serialisers and read buffers
  that are left open. Buffers are represented by their bytes here; theory \<open>Www_Buffers\<close> has the same
  code on the heap of buffers.
\<close>

section \<open>Beast\<close>

text \<open>
  \<open>boost::beast::error_code\<close>, with \<open>http::error::need_more\<close> apart. \<open>ser_next\<close> is the call that \<open>next\<close> makes of the
  visitor: its error code and buffers, or \<open>None\<close> when \<open>next\<close> fails without calling it.
\<close>

datatype http_error = HttpOk | NeedMore | HttpError string

record ('p, 'b, 'r, 'q, 'z) Beast =
  new_parser :: 'p
  put :: "'p \<Rightarrow> byte list \<Rightarrow> nat \<times> http_error \<times> 'p"
  is_done :: "'p \<Rightarrow> bool"
  release :: "'p \<Rightarrow> 'r"
  prepare :: "byte list \<Rightarrow> 'b \<Rightarrow> 'b"
  consume_read :: "nat \<Rightarrow> 'b \<Rightarrow> 'b"
  buffered :: "'b \<Rightarrow> nat"
  method_string :: "'r \<Rightarrow> string"
  target :: "'r \<Rightarrow> string"
  host :: "'r \<Rightarrow> string option"
  req_version :: "'r \<Rightarrow> nat"
  req_keep_alive :: "'r \<Rightarrow> bool"
  set_version :: "nat \<Rightarrow> 'q \<Rightarrow> 'q"
  set_server :: "string \<Rightarrow> 'q \<Rightarrow> 'q"
  set_keep_alive :: "bool \<Rightarrow> 'q \<Rightarrow> 'q"
  chunked :: "'q \<Rightarrow> bool"
  serializer :: "'q \<Rightarrow> 'z"
  split :: "'z \<Rightarrow> 'z"
  ser_done :: "'z \<Rightarrow> bool"
  ser_header_done :: "'z \<Rightarrow> bool"
  ser_next :: "'z \<Rightarrow> (http_error \<times> byte list list) option"
  ser_consume :: "nat \<Rightarrow> 'z \<Rightarrow> 'z"
  make_chunk :: "byte list \<Rightarrow> byte list list"
  make_chunk_last :: "byte list list"

text \<open>\<open>Request::toString\<close>.\<close>

definition Request_toString :: "('p, 'b, 'r, 'q, 'z) Beast \<Rightarrow> 'r \<Rightarrow> string" where
  "Request_toString B m =
     (let ss = method_string B m @ '' '' @ target B m
      in case host B m of None \<Rightarrow> ss | Some h \<Rightarrow> ss @ '' host:'' @ h)"

definition checkOrThrow :: "http_error \<Rightarrow> 's \<Rightarrow> (unit, 's) res" where
  "checkOrThrow ec s =
     (case ec of
        HttpOk \<Rightarrow> Ret () s
      | NeedMore \<Rightarrow> Throw (concatString [PStr ''Bad error code:'', PStr ''need more'']) s
      | HttpError e \<Rightarrow> Throw (concatString [PStr ''Bad error code:'', PStr e]) s)"

section \<open>WwwParser\<close>

text \<open>The members of the parser, and the requests it has yielded so far.\<close>

record ('p, 'b, 'r) WwwParser =
  cur_parser :: 'p
  currentRead :: 'b
  yielded :: "'r list"

text \<open>
  \<open>push\<close>: every round copies all of the data into the space that \<open>prepare\<close> gives and hands it to the
  parser; each round spends one unit of fuel.
\<close>

fun push :: "nat \<Rightarrow> ('p, 'b, 'r, 'q, 'z) Beast \<Rightarrow> byte list \<Rightarrow> ('p, 'b, 'r) WwwParser \<Rightarrow> (unit, ('p, 'b, 'r) WwwParser) res" where
  "push 0 B data w = NoFuel"
| "push (Suc n) B data w =
     (let w = w\<lparr>currentRead := prepare B data (currentRead w)\<rparr>;
          (read, ec, p) = put B (cur_parser w) data;
          w = w\<lparr>cur_parser := p, currentRead := consume_read B read (currentRead w)\<rparr>
      in if ec = NeedMore then Ret () w
         else res_bind (checkOrThrow ec w) (\<lambda>_ w.
           let w = (if is_done B (cur_parser w)
                    then w\<lparr>yielded := yielded w @ [release B (cur_parser w)], cur_parser := new_parser B\<rparr>
                    else w)
           in if buffered B (currentRead w) \<noteq> 0 then push n B data w else Ret () w))"

text \<open>
  \<open>SerializeVisitor\<close>: the buffers presented by one call of \<open>next\<close>, and their total size. Only the visitor looks at
  the error code; when it is not called, \<open>last\<close> is still 0.
\<close>

definition visit :: "http_error \<Rightarrow> byte list list \<Rightarrow> byte list list \<Rightarrow> (nat, byte list list) res" where
  "visit ec b bs = res_bind (checkOrThrow ec bs) (\<lambda>_ bs. Ret (sum_list (map length b)) (bs @ b))"

definition visit_next :: "(http_error \<times> byte list list) option \<Rightarrow> (nat, byte list list) res" where
  "visit_next call = (case call of None \<Rightarrow> Ret 0 [] | Some (ec, b) \<Rightarrow> visit ec b [])"

text \<open>
  \<open>convert\<close> and \<open>convertHeaderOnly\<close>: the buffers yielded. The local \<open>buffs\<close> is empty at the start of
  every round.
\<close>

fun convert_loop :: "nat \<Rightarrow> bool \<Rightarrow> ('p, 'b, 'r, 'q, 'z) Beast \<Rightarrow> 'z \<Rightarrow> byte list list \<Rightarrow> (unit, byte list list) res" where
  "convert_loop 0 header_only B z out = NoFuel"
| "convert_loop (Suc n) header_only B z out =
     (if ser_done B z then Ret () out
      else
        case visit_next (ser_next B z) of
          Ret k bs \<Rightarrow>
            let out = out @ bs; z = ser_consume B k z in
            if header_only \<and> ser_header_done B z then Ret () out else convert_loop n header_only B z out
        | Throw e bs \<Rightarrow> Throw e out
        | Undef u \<Rightarrow> Undef u
        | NoFuel \<Rightarrow> NoFuel)"

definition convert :: "nat \<Rightarrow> ('p, 'b, 'r, 'q, 'z) Beast \<Rightarrow> 'q \<Rightarrow> byte list list \<Rightarrow> (unit, byte list list) res" where
  "convert n B response out = convert_loop n False B (serializer B response) out"

definition convertHeaderOnly :: "nat \<Rightarrow> ('p, 'b, 'r, 'q, 'z) Beast \<Rightarrow> 'q \<Rightarrow> byte list list \<Rightarrow> (unit, byte list list) res" where
  "convertHeaderOnly n B response out = convert_loop n True B (split B (serializer B response)) out"

section \<open>Handlers\<close>

text \<open>
  \<open>IHandler\<close>: the response to a request, or the exception \<open>getResponse\<close> ends with; the buffers that
  \<open>getChunked\<close> yields, and the exception it ends with, if any. They may suspend the session in between.
\<close>

record ('r, 'q) IHandler =
  getResponse :: "'r \<Rightarrow> string + 'q"
  getChunked :: "'r \<Rightarrow> byte list list \<times> string option"

definition makeSimple :: "('r \<Rightarrow> string + 'q) \<Rightarrow> ('r, 'q) IHandler" where
  "makeSimple fn = \<lparr>getResponse = fn, getChunked = (\<lambda>_. ([], Some ''Should not be chunked''))\<rparr>"

section \<open>SessionRunner\<close>

text \<open>
  The state of a session: its parser, the local \<open>keep_alive\<close> of \<open>run\<close>, the requests answered, and the
  batches that the batchers of the finished rounds have sent, each with its buffers.
\<close>

record ('p, 'b, 'r) SessionRunner =
  ss_parser :: "('p, 'b, 'r) WwwParser"
  keep_alive :: bool
  batches :: "byte list list list"

definition SessionRunner_init :: "('p, 'b, 'r, 'q, 'z) Beast \<Rightarrow> 'b \<Rightarrow> ('p, 'b, 'r) SessionRunner" where
  "SessionRunner_init B b =
     \<lparr>ss_parser = \<lparr>cur_parser = new_parser B, currentRead = b, yielded = []\<rparr>, keep_alive = True, batches = []\<rparr>"

text \<open>What is spawned for a connection; its constructor links it to the socket process.\<close>

definition session_spec :: "Pid \<Rightarrow> ('st, 'm) frame \<Rightarrow> ('st, 'm) SpawnSpec" where
  "session_spec s run =
     \<lparr>sp_classes = [''SessionRunner'', ''Process''], sp_members = [''recv''], sp_links = [s], sp_throws = None, sp_start = run\<rparr>"

text \<open>The buffers that are pushed into the batcher for a response.\<close>

definition fill_batch :: "nat \<Rightarrow> ('p, 'b, 'r, 'q, 'z) Beast \<Rightarrow> ('r, 'q) IHandler \<Rightarrow> 'r \<Rightarrow> 'q \<Rightarrow> (unit, byte list list) res" where
  "fill_batch n B handler req resp =
     (if \<not> chunked B resp then convert n B resp []
      else
        res_bind (convertHeaderOnly n B resp []) (\<lambda>_ sb.
          let (bs, err) = getChunked handler req;
              sb = sb @ concat (map (make_chunk B) bs)
          in case err of
               Some e \<Rightarrow> Throw e sb
             | None \<Rightarrow> Ret () (sb @ make_chunk_last B)))"

text \<open>The destructor of the batcher sends what has been pushed, after an exception too.\<close>

definition send_batch :: "byte list list \<Rightarrow> ('p, 'b, 'r) SessionRunner \<Rightarrow> ('p, 'b, 'r) SessionRunner" where
  "send_batch sb s = (if sb \<noteq> [] then s\<lparr>batches := batches s @ [sb]\<rparr> else s)"

definition answer :: "nat \<Rightarrow> ('p, 'b, 'r, 'q, 'z) Beast \<Rightarrow> ('r, 'q) IHandler \<Rightarrow> 'r \<Rightarrow> ('p, 'b, 'r) SessionRunner \<Rightarrow>
    (unit, ('p, 'b, 'r) SessionRunner) res" where
  "answer n B handler req s =
     (let s = s\<lparr>keep_alive := keep_alive s \<or> req_keep_alive B req\<rparr> in
      case getResponse handler req of
        Inl e \<Rightarrow> Throw e s
      | Inr resp \<Rightarrow>
          let resp = set_version B (req_version B req) resp;
              resp = set_server B ''Eslang'' resp;
              resp = set_keep_alive B (req_keep_alive B req) resp
          in case fill_batch n B handler req resp of
               Ret _ sb \<Rightarrow> Ret () (send_batch sb s)
             | Throw e sb \<Rightarrow> Throw e (send_batch sb s)
             | Undef u \<Rightarrow> Undef u
             | NoFuel \<Rightarrow> NoFuel)"

primrec answer_all :: "nat \<Rightarrow> ('p, 'b, 'r, 'q, 'z) Beast \<Rightarrow> ('r, 'q) IHandler \<Rightarrow> 'r list \<Rightarrow> ('p, 'b, 'r) SessionRunner \<Rightarrow>
    (unit, ('p, 'b, 'r) SessionRunner) res" where
  "answer_all n B handler [] s = Ret () s"
| "answer_all n B handler (req # reqs) s = res_bind (answer n B handler req s) (\<lambda>_ s. answer_all n B handler reqs s)"

text \<open>
  One round of \<open>run()\<close>: a piece of data is received and pushed into the parser, and every request it
  yields is answered when it is yielded; an error of the parser comes after the requests before it.
\<close>

definition on_data :: "nat \<Rightarrow> ('p, 'b, 'r, 'q, 'z) Beast \<Rightarrow> ('r, 'q) IHandler \<Rightarrow> byte list \<Rightarrow> ('p, 'b, 'r) SessionRunner \<Rightarrow>
    (unit, ('p, 'b, 'r) SessionRunner) res" where
  "on_data n B handler data s =
     (let w = (ss_parser s)\<lparr>yielded := []\<rparr> in
      case push n B data w of
        Ret _ w \<Rightarrow> answer_all n B handler (yielded w) (s\<lparr>ss_parser := w\<rparr>)
      | Throw e w \<Rightarrow> res_bind (answer_all n B handler (yielded w) (s\<lparr>ss_parser := w\<rparr>)) (\<lambda>_ s. Throw e s)
      | Undef u \<Rightarrow> Undef u
      | NoFuel \<Rightarrow> NoFuel)"

text \<open>\<open>run()\<close> on the pieces of data received so far: the result says whether the session waits for more.\<close>

primrec session_run :: "nat \<Rightarrow> ('p, 'b, 'r, 'q, 'z) Beast \<Rightarrow> ('r, 'q) IHandler \<Rightarrow> byte list list \<Rightarrow> ('p, 'b, 'r) SessionRunner \<Rightarrow>
    (bool, ('p, 'b, 'r) SessionRunner) res" where
  "session_run n B handler [] s = Ret (keep_alive s) s"
| "session_run n B handler (data # ds) s =
     (if keep_alive s then res_bind (on_data n B handler data s) (\<lambda>_ s. session_run n B handler ds s)
      else Ret False s)"

section \<open>Server\<close>

text \<open>
  \<open>Server::run\<close> as code of a process: the frame \<open>loop a\<close> waits for the next connection on the slot with
  address \<open>a\<close>; \<open>listen\<close> and \<open>session\<close> are the first frames of the listener and of a session.
\<close>

definition server_run :: "ListenerOptions \<Rightarrow> ('st, 'm) frame \<Rightarrow> (SendAddress \<Rightarrow> 'st) \<Rightarrow> ('st, 'm) code" where
  "server_run opts listen loop =
     CoCall CNewSlot (\<lambda>r. case r of
       ASlot i \<Rightarrow> CoCall (CSlotAddress i) (\<lambda>r. case r of
         AAddr a \<Rightarrow> CoCall (CSpawnLink (listener_spec opts listen)) (\<lambda>_. CoAwait (recv a) (UserFrame (loop a)))
       | _ \<Rightarrow> CoThrow '''')
     | _ \<Rightarrow> CoThrow '''')"

definition server_loop :: "(Pid \<Rightarrow> ('st, 'm TcpMessage) frame) \<Rightarrow> (SendAddress \<Rightarrow> 'st) \<Rightarrow> SendAddress \<Rightarrow> 'm TcpMessage Answer \<Rightarrow>
    ('st, 'm TcpMessage) code" where
  "server_loop session loop a v =
     (case v of
        AMsg (MVal (SocketMsg new_sock)) \<Rightarrow>
          CoCall (CSpawn (session_spec new_sock (session new_sock))) (\<lambda>_. CoAwait (recv a) (UserFrame (loop a)))
      | _ \<Rightarrow> CoThrow '''')"

end
