(* ===== verification/Www_Ok.thy ===== *)
theory Www_Ok
  imports Www
begin

text \<open>
  What the HTTP server does with the bytes it receives and sends, under the documented behaviour of
  \<open>boost::beast\<close>.
\<close>

section \<open>Reading\<close>

text \<open>
  The documented behaviour of a dynamic buffer: \<open>size()\<close> counts the readable bytes only, \<open>prepare\<close> makes
  writable space and leaves the readable bytes alone (\<open>commit\<close> would move bytes over), and \<open>consume\<close> takes
  readable bytes away.
\<close>

definition read_buffer_laws :: "('p, 'b, 'r, 'q, 'z) Beast \<Rightarrow> bool" where
  "read_buffer_laws B \<longleftrightarrow> (\<forall>d b. buffered B (prepare B d b) = buffered B b)
     \<and> (\<forall>n b. buffered B (consume_read B n b) = buffered B b - n)"

definition parse_step :: "('p, 'b, 'r, 'q, 'z) Beast \<Rightarrow> byte list \<Rightarrow> ('p, 'b, 'r) WwwParser \<Rightarrow> ('p, 'b, 'r) WwwParser" where
  "parse_step B data w = (let (read, ec, p) = put B (cur_parser w) data in
     w\<lparr>currentRead := consume_read B read (prepare B data (currentRead w)), cur_parser := p\<rparr>)"

lemma push_one_round:
  assumes "read_buffer_laws B" and "buffered B (currentRead w) = 0" and "put B (cur_parser w) data = (read, ec, p)"
  shows "push (Suc n) B data w =
    (case ec of
       NeedMore \<Rightarrow> Ret () (parse_step B data w)
     | HttpError e \<Rightarrow> Throw (''Bad error code:'' @ e) (parse_step B data w)
     | HttpOk \<Rightarrow> Ret () (if is_done B p
         then (parse_step B data w)\<lparr>yielded := yielded w @ [release B p], cur_parser := new_parser B\<rparr>
         else parse_step B data w))"
  using assms
  by (cases w) (simp add: read_buffer_laws_def parse_step_def checkOrThrow_def concatString_def Let_def split: http_error.split)

lemma push_keeps_empty:
  assumes "read_buffer_laws B" and "buffered B (currentRead w) = 0"
  shows "\<exists>w'. (push (Suc n) B data w = Ret () w' \<or> (\<exists>e. push (Suc n) B data w = Throw e w'))
    \<and> buffered B (currentRead w') = 0 \<and> length (yielded w') \<le> Suc (length (yielded w))"
proof -
  obtain read ec p where p: "put B (cur_parser w) data = (read, ec, p)" by (cases "put B (cur_parser w) data")
  have "buffered B (currentRead (parse_step B data w)) = 0" "yielded (parse_step B data w) = yielded w"
    using assms by (simp_all add: parse_step_def p read_buffer_laws_def)
  then show ?thesis using push_one_round [OF assms p, of n] by (cases ec) auto
qed

text \<open>C40: Pipelined requests are dropped. When one piece of data holds a complete request followed by further
  bytes, the session answers the first request and goes on with a new parser and an empty read buffer:
  the bytes after the first request have no effect at all.\<close>

theorem pipelined_request_is_dropped:
  assumes "read_buffer_laws B" and "buffered B (currentRead (ss_parser s)) = 0"
    and "put B (cur_parser (ss_parser s)) (d1 @ d2) = (length d1, HttpOk, p)" and "is_done B p"
  shows "\<exists>w. on_data (Suc n) B h (d1 @ d2) s = answer_all (Suc n) B h [release B p] (s\<lparr>ss_parser := w\<rparr>)
    \<and> yielded w = [release B p] \<and> cur_parser w = new_parser B \<and> buffered B (currentRead w) = 0"
proof -
  let ?w = "(ss_parser s)\<lparr>yielded := []\<rparr>"
  let ?w' = "(parse_step B (d1 @ d2) ?w)\<lparr>yielded := [release B p], cur_parser := new_parser B\<rparr>"
  have "push (Suc n) B (d1 @ d2) ?w = Ret () ?w'"
    using push_one_round [of B ?w "d1 @ d2" "length d1" HttpOk p n] assms by simp
  then have "on_data (Suc n) B h (d1 @ d2) s = answer_all (Suc n) B h [release B p] (s\<lparr>ss_parser := ?w'\<rparr>)"
    by (simp add: on_data_def Let_def del: push.simps)
  moreover have "buffered B (currentRead ?w') = 0" using assms(1-3) by (simp add: parse_step_def read_buffer_laws_def)
  ultimately show ?thesis by (intro exI [of _ ?w']) simp
qed

section \<open>The session loop\<close>

lemma answer_keep_alive: "keep_alive s \<Longrightarrow> res_post (\<lambda>_. keep_alive) (\<lambda>_. True) (answer n B h req s)"
  by (auto simp: answer_def send_batch_def Let_def split: sum.split res.split)

lemma answer_all_keep_alive: "keep_alive s \<Longrightarrow> res_post (\<lambda>_. keep_alive) (\<lambda>_. True) (answer_all n B h reqs s)"
  by (induction reqs arbitrary: s) (auto intro: res_post_bind answer_keep_alive)

lemma on_data_keep_alive: "keep_alive s \<Longrightarrow> res_post (\<lambda>_. keep_alive) (\<lambda>_. True) (on_data n B h data s)"
  by (auto simp: on_data_def Let_def split: res.split intro!: res_post_bind answer_all_keep_alive)

text \<open>A session never ends by itself: whatever it receives, and even when every request asks for the
  connection to be closed, \<open>keep_alive\<close> stays true, so that the loop of \<open>run\<close> is left only by an exception.\<close>

theorem session_never_closes:
  assumes "session_run n B h ds (SessionRunner_init B b) = Ret go s"
  shows "go \<and> keep_alive s"
proof -
  have "keep_alive s0 \<Longrightarrow> session_run n B h ds s0 = Ret go s \<Longrightarrow> go \<and> keep_alive s" for s0
  proof (induction ds arbitrary: s0)
    case Nil
    then show ?case by auto
  next
    case (Cons d ds)
    then obtain s1 where "on_data n B h d s0 = Ret () s1" "session_run n B h ds s1 = Ret go s" by (auto simp: res_bind_Ret_conv)
    moreover then have "keep_alive s1" using on_data_keep_alive [OF Cons.prems(1), of n B h d] by simp
    ultimately show ?case using Cons.IH by blast
  qed
  from this [OF _ assms] show ?thesis by (simp add: SessionRunner_init_def)
qed

section \<open>Responses\<close>

text \<open>
  The documented behaviour of a serialiser, over the bytes \<open>rem z\<close> it still has to deliver: it is done when
  none are left; otherwise \<open>next\<close> presents a non-empty prefix of them, and \<open>consume\<close> takes bytes away.
  For one that was told to split (\<open>sp z\<close>) the same holds of the bytes \<open>hrem z\<close> of the header that are still
  to be delivered, and \<open>is_header_done\<close> says that none are left.
\<close>

definition delivers :: "('z \<Rightarrow> bool) \<Rightarrow> ('p, 'b, 'r, 'q, 'z) Beast \<Rightarrow> ('z \<Rightarrow> byte list) \<Rightarrow> bool" where
  "delivers D B left \<longleftrightarrow>
     (\<forall>z. D z \<longrightarrow> left z \<noteq> [] \<longrightarrow> \<not> ser_done B z \<and>
        (\<exists>bs r. ser_next B z = Some (HttpOk, bs) \<and> concat bs \<noteq> [] \<and> left z = concat bs @ r))
     \<and> (\<forall>z n. D z \<longrightarrow> D (ser_consume B n z) \<and> (n \<le> length (left z) \<longrightarrow> left (ser_consume B n z) = drop n (left z)))"

definition serializer_laws :: "('p, 'b, 'r, 'q, 'z) Beast \<Rightarrow> ('z \<Rightarrow> bool) \<Rightarrow> ('z \<Rightarrow> byte list) \<Rightarrow> ('z \<Rightarrow> byte list) \<Rightarrow> bool" where
  "serializer_laws B sp rem hrem \<longleftrightarrow> delivers (\<lambda>_. True) B rem \<and> delivers sp B hrem \<and> (\<forall>z. sp (split B z))
     \<and> (\<forall>z. rem z = [] \<longrightarrow> ser_done B z) \<and> (\<forall>z. sp z \<longrightarrow> hrem z = [] \<longleftrightarrow> ser_header_done B z)"

text \<open>One round of the loop delivers a non-empty part of what is left.\<close>

lemma convert_round:
  assumes "delivers D B left" and "D z" and "left z \<noteq> []"
  obtains bs z' where "D z'" and "concat bs \<noteq> []" and "left z = concat bs @ left z'"
    and "convert_loop (Suc n) ho B z out
      = (if ho \<and> ser_header_done B z' then Ret () (out @ bs) else convert_loop n ho B z' (out @ bs))"
proof -
  from assms obtain bs r where n: "\<not> ser_done B z" "ser_next B z = Some (HttpOk, bs)" "concat bs \<noteq> []" "left z = concat bs @ r"
    unfolding delivers_def by blast
  have l: "sum_list (map length bs) = length (concat bs)" by (simp add: length_concat)
  let ?z = "ser_consume B (length (concat bs)) z"
  have "left ?z = r" "D ?z" using assms(1,2) n(4) unfolding delivers_def by simp_all
  moreover have "convert_loop (Suc n) ho B z out
      = (if ho \<and> ser_header_done B ?z then Ret () (out @ bs) else convert_loop n ho B ?z (out @ bs))"
    using n(1,2) l by (simp add: visit_next_def visit_def checkOrThrow_def Let_def)
  ultimately show ?thesis using that n(3,4) by blast
qed

lemma convert_all:
  assumes "serializer_laws B sp rem hrem"
  shows "length (rem z) < n \<Longrightarrow> \<exists>bs. convert_loop n False B z out = Ret () (out @ bs) \<and> concat bs = rem z"
proof (induction n arbitrary: z out)
  case 0
  then show ?case by simp
next
  case (Suc n)
  show ?case
  proof (cases "rem z = []")
    case True
    then show ?thesis using assms by (auto simp: serializer_laws_def intro: exI [of _ "[]"])
  next
    case False
    have "delivers (\<lambda>_. True) B rem" using assms by (simp add: serializer_laws_def)
    then obtain bs z' where r: "concat bs \<noteq> []" "rem z = concat bs @ rem z'"
        "convert_loop (Suc n) False B z out = convert_loop n False B z' (out @ bs)"
      using convert_round [of "\<lambda>_. True" B rem z n False out] False by auto
    then have "length (rem z') < n" using Suc.prems by (cases "concat bs") auto
    from Suc.IH [OF this, of "out @ bs"] r show ?thesis by (metis append.assoc concat_append)
  qed
qed

lemma convert_header:
  assumes "serializer_laws B sp rem hrem"
  shows "length (hrem z) < n \<Longrightarrow> hrem z \<noteq> [] \<Longrightarrow> sp z \<Longrightarrow> \<exists>bs. convert_loop n True B z out = Ret () (out @ bs) \<and> concat bs = hrem z"
proof (induction n arbitrary: z out)
  case 0
  then show ?case by simp
next
  case (Suc n)
  have "delivers sp B hrem" using assms by (simp add: serializer_laws_def)
  from convert_round [OF this Suc.prems(3,2), of n True out] obtain bs z' where sp: "sp z'" and r: "concat bs \<noteq> []" "hrem z = concat bs @ hrem z'"
      "convert_loop (Suc n) True B z out = (if True \<and> ser_header_done B z' then Ret () (out @ bs) else convert_loop n True B z' (out @ bs))"
    by blast
  show ?case
  proof (cases "hrem z' = []")
    case True
    then show ?thesis using r sp assms by (auto simp: serializer_laws_def)
  next
    case False
    then have "\<not> ser_header_done B z'" "length (hrem z') < n"
      using assms r(1,2) sp Suc.prems(1) by (auto simp: serializer_laws_def) (cases "concat bs"; simp)
    with Suc.IH [OF this(2) False sp, of "out @ bs"] r show ?thesis by (metis append.assoc concat_append)
  qed
qed

text \<open>
  The response as it should go out: with version, server name and \<open>keep_alive\<close> set from the request; whole,
  or, when it is chunked, its header, every buffer of the handler as a chunk, and the last chunk.
\<close>

definition final_response :: "('p, 'b, 'r, 'q, 'z) Beast \<Rightarrow> 'r \<Rightarrow> 'q \<Rightarrow> 'q" where
  "final_response B req resp = set_keep_alive B (req_keep_alive B req) (set_server B ''Eslang'' (set_version B (req_version B req) resp))"

definition wire_bytes :: "('p, 'b, 'r, 'q, 'z) Beast \<Rightarrow> ('z \<Rightarrow> byte list) \<Rightarrow> ('z \<Rightarrow> byte list) \<Rightarrow> ('r, 'q) IHandler \<Rightarrow> 'r \<Rightarrow> 'q \<Rightarrow> byte list" where
  "wire_bytes B rem hrem h req q =
     (if \<not> chunked B q then rem (serializer B q)
      else hrem (split B (serializer B q)) @ concat (concat (map (make_chunk B) (fst (getChunked h req)))) @ concat (make_chunk_last B))"

lemma answer_wire_bytes:
  assumes laws: "serializer_laws B sp rem hrem" and r: "getResponse h req = Inr resp" and q: "q = final_response B req resp"
    and "chunked B q \<Longrightarrow> hrem (split B (serializer B q)) \<noteq> [] \<and> snd (getChunked h req) = None"
    and "length (rem (serializer B q)) < n" and "length (hrem (split B (serializer B q))) < n"
  shows "\<exists>sb s'. answer n B h req s = Ret () s' \<and> concat sb = wire_bytes B rem hrem h req q
    \<and> batches s' = batches s @ (if sb = [] then [] else [sb])"
proof -
  have "\<exists>sb. fill_batch n B h req q = Ret () sb \<and> concat sb = wire_bytes B rem hrem h req q"
  proof (cases "chunked B q")
    case False
    then show ?thesis
      using convert_all [OF laws assms(5), of "[]"] by (auto simp: fill_batch_def convert_def wire_bytes_def)
  next
    case True
    then obtain bs where "convertHeaderOnly n B q [] = Ret () bs" "concat bs = hrem (split B (serializer B q))"
      using convert_header [OF laws assms(6), of "[]"] assms(4) laws by (auto simp: convertHeaderOnly_def serializer_laws_def)
    then show ?thesis
      using True assms(4) by (cases "getChunked h req") (simp add: fill_batch_def wire_bytes_def)
  qed
  then obtain sb where "fill_batch n B h req q = Ret () sb" "concat sb = wire_bytes B rem hrem h req q" by blast
  then show ?thesis
    using r by (intro exI [of _ sb]) (simp add: answer_def send_batch_def q final_response_def Let_def)
qed

text \<open>C20: A request is answered with exactly the bytes of its response, in one batch: under the documented
  behaviour of the serialiser, for a handler that does not throw, the buffers that the session pushes for
  the request are, one after the other, the serialised response, with version, server name and \<open>keep_alive\<close>
  set; for a chunked response its header, the chunks of the handler in order, and the last chunk.\<close>

theorem response_bytes_exact:
  assumes laws: "serializer_laws B sp rem hrem" and r: "getResponse h req = Inr resp" and q: "q = final_response B req resp"
    and "chunked B q \<Longrightarrow> hrem (split B (serializer B q)) \<noteq> [] \<and> snd (getChunked h req) = None"
    and "length (rem (serializer B q)) < n" and "length (hrem (split B (serializer B q))) < n"
  shows "\<exists>sb s'. answer n B h req s = Ret () s' \<and> concat sb = wire_bytes B rem hrem h req q
    \<and> batches s' = batches s @ (if sb = [] then [] else [sb])"
  by (rule answer_wire_bytes [OF assms])

section \<open>An instance\<close>

text \<open>
  A concrete instance of the operations of the library: a request is one byte, and asks for the
  connection to be closed when it is zero; a response is its bytes, its header the first byte; chunks are
  preceded by the byte 1, and the last chunk is the byte 0. A serialiser is whether it splits, whether the
  header is out, and the bytes left.
\<close>

definition tiny_beast :: "(byte option, byte list, byte, byte list, bool \<times> bool \<times> byte list) Beast" where
  "tiny_beast = \<lparr>new_parser = None,
     put = (\<lambda>p d. case d of [] \<Rightarrow> (0, NeedMore, p) | x # xs \<Rightarrow> (1, HttpOk, Some x)),
     is_done = (\<lambda>p. p \<noteq> None), release = (\<lambda>p. case p of None \<Rightarrow> 0 | Some x \<Rightarrow> x),
     prepare = (\<lambda>d b. b), consume_read = drop, buffered = length,
     method_string = (\<lambda>_. ''GET''), target = (\<lambda>_. ''/''), host = (\<lambda>_. None), req_version = (\<lambda>_. 11),
     req_keep_alive = (\<lambda>r. r \<noteq> 0), set_version = (\<lambda>_ q. q), set_server = (\<lambda>_ q. q), set_keep_alive = (\<lambda>_ q. q),
     chunked = (\<lambda>q. hd q = 9), serializer = (\<lambda>q. (False, False, q)), split = (\<lambda>(s, h, q). (True, h, q)),
     ser_done = (\<lambda>(s, h, q). q = []), ser_header_done = (\<lambda>(s, h, q). h \<or> q = []),
     ser_next = (\<lambda>(s, h, q). Some (HttpOk, [if s \<and> \<not> h then take 1 q else q])),
     ser_consume = (\<lambda>n (s, h, q). (s, h \<or> n > 0, drop n q)),
     make_chunk = (\<lambda>d. [[1], d]), make_chunk_last = [[0]]\<rparr>"

definition tiny_rem :: "bool \<times> bool \<times> byte list \<Rightarrow> byte list" where
  "tiny_rem = (\<lambda>(s, h, q). q)"

definition tiny_hrem :: "bool \<times> bool \<times> byte list \<Rightarrow> byte list" where
  "tiny_hrem = (\<lambda>(s, h, q). if h then [] else take 1 q)"

lemma tiny_buffer: "read_buffer_laws tiny_beast"
  by (simp add: read_buffer_laws_def tiny_beast_def)

lemma tiny_serializer: "serializer_laws tiny_beast fst tiny_rem tiny_hrem"
proof -
  have "delivers (\<lambda>_. True) tiny_beast tiny_rem"
    by (auto simp: delivers_def tiny_beast_def tiny_rem_def) (metis append_take_drop_id)
  moreover have "delivers fst tiny_beast tiny_hrem"
    by (auto simp: delivers_def tiny_beast_def tiny_hrem_def take_Suc_conv_app_nth split: if_splits)
  ultimately show ?thesis by (auto simp: serializer_laws_def tiny_beast_def tiny_rem_def tiny_hrem_def)
qed

text \<open>A handler that answers every request with a chunked response of two chunks.\<close>

definition tiny_handler :: "(byte, byte list) IHandler" where
  "tiny_handler = \<lparr>getResponse = (\<lambda>r. Inr [9]), getChunked = (\<lambda>r. ([[5], [6]], None))\<rparr>"

abbreviation tiny_session :: "(byte option, byte list, byte) SessionRunner" where
  "tiny_session \<equiv> SessionRunner_init tiny_beast []"

theorem pipelined_request_is_dropped_witness:
  "\<exists>w. on_data 3 tiny_beast tiny_handler [7, 8] tiny_session = answer_all 3 tiny_beast tiny_handler [7] (tiny_session\<lparr>ss_parser := w\<rparr>)
     \<and> yielded w = [7] \<and> cur_parser w = None"
proof -
  have "\<exists>w. on_data (Suc 2) tiny_beast tiny_handler ([7] @ [8]) tiny_session
      = answer_all (Suc 2) tiny_beast tiny_handler [release tiny_beast (Some 7)] (tiny_session\<lparr>ss_parser := w\<rparr>)
      \<and> yielded w = [release tiny_beast (Some 7)] \<and> cur_parser w = new_parser tiny_beast \<and> buffered tiny_beast (currentRead w) = 0"
    by (rule pipelined_request_is_dropped [OF tiny_buffer]) (simp_all add: SessionRunner_init_def tiny_beast_def)
  moreover have "release tiny_beast (Some 7) = 7" "new_parser tiny_beast = None" by (simp_all add: tiny_beast_def)
  ultimately show ?thesis by (auto simp del: answer_all.simps)
qed

theorem session_never_closes_witness:
  "\<exists>s. session_run 3 tiny_beast tiny_handler [[0]] tiny_session = Ret True s \<and> keep_alive s \<and> \<not> req_keep_alive tiny_beast 0"
proof -
  obtain go s where r: "session_run 3 tiny_beast tiny_handler [[0]] tiny_session = Ret go s"
    by (simp add: SessionRunner_init_def on_data_def answer_def fill_batch_def convertHeaderOnly_def send_batch_def visit_next_def visit_def
        checkOrThrow_def tiny_beast_def tiny_handler_def eval_nat_numeral)
  from session_never_closes [OF r] r show ?thesis by (auto simp: tiny_beast_def)
qed

theorem response_bytes_exact_witness:
  "\<exists>sb s'. answer 3 tiny_beast tiny_handler 7 tiny_session = Ret () s' \<and> concat sb = [9, 1, 5, 1, 6, 0] \<and> batches s' = [sb]"
proof -
  have q: "[9] = final_response tiny_beast 7 [9]" by (simp add: final_response_def tiny_beast_def)
  have r: "getResponse tiny_handler 7 = Inr [9]" by (simp add: tiny_handler_def)
  have c: "tiny_hrem (split tiny_beast (serializer tiny_beast [9])) \<noteq> [] \<and> snd (getChunked tiny_handler 7) = None"
    "length (tiny_rem (serializer tiny_beast [9])) < 3" "length (tiny_hrem (split tiny_beast (serializer tiny_beast [9]))) < 3"
    by (simp_all add: tiny_handler_def tiny_beast_def tiny_rem_def tiny_hrem_def)
  from response_bytes_exact [OF tiny_serializer r q c, of tiny_session]
  obtain sb s' where "answer 3 tiny_beast tiny_handler 7 tiny_session = Ret () s'"
    "concat sb = wire_bytes tiny_beast tiny_rem tiny_hrem tiny_handler 7 [9]"
    "batches s' = batches tiny_session @ (if sb = [] then [] else [sb])" by blast
  moreover have "wire_bytes tiny_beast tiny_rem tiny_hrem tiny_handler 7 [9] = [9, 1, 5, 1, 6, 0]"
    by (simp add: wire_bytes_def tiny_beast_def tiny_rem_def tiny_hrem_def tiny_handler_def)
  ultimately show ?thesis by (auto simp: SessionRunner_init_def split: if_splits)
qed

end
