(* ===== verification/Www_Buffers.thy ===== *)
theory Www_Buffers
  imports Www_Ok
begin

text \<open>
  The buffers of the HTTP server (\<open>eslang_www/Www.cpp\<close>) on the heap of theory \<open>Buffer\<close>: \<open>makeBuffer\<close>,
  \<open>makeBuffersFromSequence\<close>, \<open>SerializeVisitor\<close> and the loops that fill a batch, with every creation and
  destruction of a buffer. Theory \<open>Www\<close> represents the same buffers by their bytes; the lemmas here show that
  the two agree, so that what is proved of the bytes holds of the buffers.
\<close>

section \<open>Making buffers\<close>

definition makeBuffer :: "byte list \<Rightarrow> BuffHeap \<Rightarrow> (Buffer \<times> BuffHeap) option" where
  "makeBuffer buff h = Buffer_makeCopy buff (length buff) h"

text \<open>A batch that is being filled, with the heap: the loops over generators push each buffer they are given.\<close>

type_synonym batch = "Buffer list \<times> BuffHeap"

text \<open>
  A sequence of \<open>asio\<close> buffers is one of views: a view into storage that belongs to the sequence itself (what
  \<open>make_chunk\<close> puts before and after the data), or into the storage of a \<open>Buffer\<close>. A view is read when it is copied,
  which is an error if the storage it points into is gone.
\<close>

datatype view = Within "byte list" | Into Buffer

primrec view_bytes :: "BuffHeap \<Rightarrow> view \<Rightarrow> byte list option" where
  "view_bytes h (Within d) = Some d"
| "view_bytes h (Into b) = Buffer_bytes h b"

primrec makeBuffersFromSequence :: "view list \<Rightarrow> batch \<Rightarrow> batch option" where
  "makeBuffersFromSequence [] s = Some s"
| "makeBuffersFromSequence (buff # seq) s =
     (case view_bytes (snd s) buff of
        None \<Rightarrow> None
      | Some d \<Rightarrow>
          (case Buffer_makeCopy d (length d) (snd s) of
             None \<Rightarrow> None
           | Some (b, h) \<Rightarrow> makeBuffersFromSequence seq (fst s @ [b], h)))"

section \<open>SerializeVisitor\<close>

record SerializeVisitor =
  sv_buffs :: "Buffer list"
  sv_last :: uint64

primrec visit_loop :: "byte list list \<Rightarrow> SerializeVisitor \<Rightarrow> BuffHeap \<Rightarrow> (SerializeVisitor \<times> BuffHeap) option" where
  "visit_loop [] v h = Some (v, h)"
| "visit_loop (buff # b) v h =
     (let v = v\<lparr>sv_last := sv_last v + of_nat (length buff)\<rparr> in
      case makeBuffer buff h of
        None \<Rightarrow> None
      | Some (m, h) \<Rightarrow> visit_loop b (v\<lparr>sv_buffs := sv_buffs v @ [m]\<rparr>) h)"

definition serialize_visit :: "http_error \<Rightarrow> byte list list \<Rightarrow> SerializeVisitor \<Rightarrow> BuffHeap \<Rightarrow>
    (unit, SerializeVisitor \<times> BuffHeap) res" where
  "serialize_visit ec b v h =
     res_bind (checkOrThrow ec (v, h)) (\<lambda>_ s.
       case visit_loop b ((fst s)\<lparr>sv_last := 0\<rparr>) (snd s) of None \<Rightarrow> Undef UseAfterFree | Some s \<Rightarrow> Ret () s)"

text \<open>One call of \<open>next\<close> with the visitor of a round.\<close>

definition serialize_next :: "(http_error \<times> byte list list) option \<Rightarrow> BuffHeap \<Rightarrow> (unit, SerializeVisitor \<times> BuffHeap) res" where
  "serialize_next call h =
     (let v = \<lparr>sv_buffs = [], sv_last = 0\<rparr> in
      case call of None \<Rightarrow> Ret () (v, h) | Some (ec, b) \<Rightarrow> serialize_visit ec b v h)"

section \<open>The loops that fill a batch\<close>

fun convert_buffers :: "nat \<Rightarrow> bool \<Rightarrow> ('p, 'b, 'r, 'q, 'z) Beast \<Rightarrow> 'z \<Rightarrow> batch \<Rightarrow> (unit, batch) res" where
  "convert_buffers 0 header_only B z s = NoFuel"
| "convert_buffers (Suc n) header_only B z s =
     (if ser_done B z then Ret () s
      else
        case serialize_next (ser_next B z) (snd s) of
          Ret _ (v, h) \<Rightarrow>
            let s = (fst s @ sv_buffs v, h); z = ser_consume B (unat (sv_last v)) z in
            if header_only \<and> ser_header_done B z then Ret () s else convert_buffers n header_only B z s
        | Throw e (v, h) \<Rightarrow> Throw e (fst s, h)
        | Undef u \<Rightarrow> Undef u
        | NoFuel \<Rightarrow> NoFuel)"

text \<open>
  What the object that \<open>make_chunk\<close> returns for data of a given size holds itself: the pieces before the data (its size
  as text, the end of the line) and after it (the end of the chunk). The data is only referred to.
\<close>

record chunk_layout =
  chunk_before :: "nat \<Rightarrow> byte list list"
  chunk_after :: "nat \<Rightarrow> byte list list"

definition chunk_views :: "chunk_layout \<Rightarrow> Buffer \<Rightarrow> view list" where
  "chunk_views L buff =
     map Within (chunk_before L (unat (buflength buff))) @ [Into buff] @ map Within (chunk_after L (unat (buflength buff)))"

text \<open>
  The loop over \<open>getChunked\<close>: the handler yields a buffer, the chunk refers to its storage, the pieces of the chunk are
  copied, and at the end of the round the buffer is destroyed.
\<close>

primrec chunk_buffers :: "chunk_layout \<Rightarrow> byte list list \<Rightarrow> batch \<Rightarrow> batch option" where
  "chunk_buffers L [] s = Some s"
| "chunk_buffers L (d # ds) s =
     (case makeBuffer d (snd s) of
        None \<Rightarrow> None
      | Some (buff, h) \<Rightarrow>
          (case makeBuffersFromSequence (chunk_views L buff) (fst s, h) of
             None \<Rightarrow> None
           | Some (sb, h) \<Rightarrow>
               (case Buffer_destroy buff h of None \<Rightarrow> None | Some h \<Rightarrow> chunk_buffers L ds (sb, h))))"

definition fill_buffers :: "nat \<Rightarrow> ('p, 'b, 'r, 'q, 'z) Beast \<Rightarrow> chunk_layout \<Rightarrow> ('r, 'q) IHandler \<Rightarrow> 'r \<Rightarrow> 'q \<Rightarrow> BuffHeap \<Rightarrow> (unit, batch) res" where
  "fill_buffers n B L handler req resp h =
     (if \<not> chunked B resp then convert_buffers n False B (serializer B resp) ([], h)
      else
        res_bind (convert_buffers n True B (split B (serializer B resp)) ([], h)) (\<lambda>_ s.
          case chunk_buffers L (fst (getChunked handler req)) s of
            None \<Rightarrow> Undef UseAfterFree
          | Some s \<Rightarrow>
              (case snd (getChunked handler req) of
                 Some e \<Rightarrow> Throw e s
               | None \<Rightarrow>
                   (case makeBuffersFromSequence (map Within (make_chunk_last B)) s of
                      None \<Rightarrow> Undef UseAfterFree
                    | Some s \<Rightarrow> Ret () s))))"

section \<open>Buffers and their bytes\<close>

definition holds_bytes :: "byte list list \<Rightarrow> batch \<Rightarrow> bool" where
  "holds_bytes bs s \<longleftrightarrow> heap_ok (snd s) \<and> list_all2 (\<lambda>d b. Buffer_bytes (snd s) b = Some d) bs (fst s)"

text \<open>What later operations leave of a heap: storage that exists stays as it is, new storage is at new addresses.\<close>

definition grows :: "BuffHeap \<Rightarrow> BuffHeap \<Rightarrow> bool" where
  "grows h h' \<longleftrightarrow> next_buff h \<le> next_buff h' \<and> (\<forall>p. buffs h p \<noteq> None \<longrightarrow> buffs h' p = buffs h p)"

lemma grows_refl [simp]: "grows h h"
  by (simp add: grows_def)

lemma grows_trans: "grows h h' \<Longrightarrow> grows h' h'' \<Longrightarrow> grows h h''"
  unfolding grows_def by (metis order_trans)

lemma grows_bytes: "grows h h' \<Longrightarrow> Buffer_bytes h b = Some d \<Longrightarrow> Buffer_bytes h' b = Some d"
  by (auto simp: grows_def Buffer_bytes_def split: option.splits)

lemma grows_view: "grows h h' \<Longrightarrow> view_bytes h v = Some d \<Longrightarrow> view_bytes h' v = Some d"
  by (cases v) (simp_all add: grows_bytes)

lemma holds_grows: "holds_bytes bs (sb, h) \<Longrightarrow> grows h h' \<Longrightarrow> heap_ok h' \<Longrightarrow> holds_bytes bs (sb, h')"
  by (auto simp: holds_bytes_def intro: grows_bytes elim!: list_all2_mono)

lemma makeBuffer_spec:
  assumes "heap_ok h" and "length d \<le> byte_vector_max"
  shows "\<exists>b h'. makeBuffer d h = Some (b, h') \<and> heap_ok h' \<and> grows h h' \<and> Buffer_bytes h' b = Some d \<and> bufptr b = next_buff h
    \<and> buffs h' (bufptr b) = Some \<lparr>bdata = d, refs = 1\<rparr> \<and> next_buff h' = Suc (next_buff h)"
proof -
  obtain b h' where m: "Buffer_make d h = Some (b, h')" by (simp add: Buffer_make_eq)
  have "grows h h'" using m assms(1) by (auto simp: Buffer_make_eq grows_def heap_ok_def)
  moreover have "Buffer_bytes h' b = Some d"
    using m unat_vector_size [OF assms(2)] by (auto simp: Buffer_make_eq Buffer_bytes_def)
  ultimately show ?thesis using m heap_ok_make [OF assms m] by (auto simp: makeBuffer_def Buffer_makeCopy_def Buffer_make_eq)
qed

lemma holds_snoc:
  "holds_bytes bs (sb, h) \<Longrightarrow> grows h h' \<Longrightarrow> heap_ok h' \<Longrightarrow> Buffer_bytes h' b = Some d \<Longrightarrow> holds_bytes (bs @ [d]) (sb @ [b], h')"
  using holds_grows [of bs sb h h'] by (simp add: holds_bytes_def list_all2_appendI)

text \<open>Views whose storage exists are copied piece by piece.\<close>

lemma sequence_makes_bytes:
  assumes "holds_bytes bs (sb, h)" and "list_all2 (\<lambda>d v. view_bytes h v = Some d) ds vs"
    and "\<forall>d\<in>set ds. length d \<le> byte_vector_max"
  shows "\<exists>nb h'. makeBuffersFromSequence vs (sb, h) = Some (sb @ nb, h') \<and> holds_bytes (bs @ ds) (sb @ nb, h')
    \<and> grows h h' \<and> (\<forall>b\<in>set nb. next_buff h \<le> bufptr b)"
  using assms
proof (induction ds arbitrary: vs bs sb h)
  case (Cons d ds)
  then obtain v us where v: "vs = v # us" "view_bytes h v = Some d" "list_all2 (\<lambda>d v. view_bytes h v = Some d) ds us"
    by (auto simp: list_all2_Cons1)
  obtain b h1 where b: "makeBuffer d h = Some (b, h1)" "heap_ok h1" "grows h h1" "Buffer_bytes h1 b = Some d" "bufptr b = next_buff h"
    using makeBuffer_spec [of h d] Cons.prems by (auto simp: holds_bytes_def)
  have "list_all2 (\<lambda>d v. view_bytes h1 v = Some d) ds us" using v(3) by (rule list_all2_mono) (rule grows_view [OF b(3)])
  from Cons.IH [OF holds_snoc [OF Cons.prems(1) b(3,2,4)] this] Cons.prems(3) obtain nb h' where
    n: "makeBuffersFromSequence us (sb @ [b], h1) = Some ((sb @ [b]) @ nb, h')" "holds_bytes ((bs @ [d]) @ ds) ((sb @ [b]) @ nb, h')"
      "grows h1 h'" "\<forall>b\<in>set nb. next_buff h1 \<le> bufptr b" by auto
  have "next_buff h \<le> next_buff h1" using b(3) by (simp add: grows_def)
  then have "\<forall>c\<in>set (b # nb). next_buff h \<le> bufptr c" using n(4) b(5) by auto
  moreover have "makeBuffersFromSequence vs (sb, h) = Some (sb @ b # nb, h')" using n(1) b(1) v(1,2) by (simp add: makeBuffer_def)
  moreover have "holds_bytes (bs @ d # ds) (sb @ b # nb, h')" using n(2) by simp
  ultimately show ?case using grows_trans [OF b(3) n(3)] by blast
qed simp


text \<open>The visitor adds one buffer for each piece, and \<open>last\<close> is their total size.\<close>

lemma visit_loop_makes_bytes:
  assumes "holds_bytes bs (sv_buffs v, h)" and "sum_list (map length b) \<le> byte_vector_max"
  shows "\<exists>nb h'. visit_loop b v h = Some (\<lparr>sv_buffs = sv_buffs v @ nb, sv_last = sv_last v + of_nat (sum_list (map length b))\<rparr>, h')
    \<and> holds_bytes (bs @ b) (sv_buffs v @ nb, h') \<and> grows h h'"
  using assms
proof (induction b arbitrary: bs v h)
  case Nil
  then show ?case by (cases v) simp
next
  case (Cons d ds)
  obtain m h1 where b: "makeBuffer d h = Some (m, h1)" "heap_ok h1" "grows h h1" "Buffer_bytes h1 m = Some d"
    using makeBuffer_spec [of h d] Cons.prems by (auto simp: holds_bytes_def)
  let ?v = "v\<lparr>sv_last := sv_last v + of_nat (length d), sv_buffs := sv_buffs v @ [m]\<rparr>"
  have "holds_bytes (bs @ [d]) (sv_buffs ?v, h1)" using holds_snoc [OF Cons.prems(1) b(3,2,4)] by simp
  from Cons.IH [OF this] Cons.prems(2) obtain nb h' where
    n: "visit_loop ds ?v h1 = Some (\<lparr>sv_buffs = sv_buffs v @ m # nb, sv_last = sv_last v + of_nat (sum_list (map length (d # ds)))\<rparr>, h')"
      "holds_bytes (bs @ d # ds) (sv_buffs v @ m # nb, h')" "grows h1 h'" by (auto simp: algebra_simps)
  have "visit_loop (d # ds) v h = visit_loop ds ?v h1" using b(1) by (simp add: Let_def)
  then show ?case using n grows_trans [OF b(3) n(3)] by auto
qed

section \<open>The loops agree with their description by bytes\<close>

primrec res_sim :: "('s \<Rightarrow> 't \<Rightarrow> bool) \<Rightarrow> ('a, 's) res \<Rightarrow> ('a, 't) res \<Rightarrow> bool" where
  "res_sim R (Ret a s) r \<longleftrightarrow> (\<exists>t. r = Ret a t \<and> R s t)"
| "res_sim R (Throw e s) r \<longleftrightarrow> (\<exists>t. r = Throw e t \<and> R s t)"
| "res_sim R (Undef u) r \<longleftrightarrow> r = Undef u"
| "res_sim R NoFuel r \<longleftrightarrow> r = NoFuel"

lemma res_sim_bind:
  "res_sim R q r \<Longrightarrow> (\<And>a s t. R s t \<Longrightarrow> res_sim R (f a s) (g a t)) \<Longrightarrow> res_sim R (res_bind q f) (res_bind r g)"
  by (cases q) auto

text \<open>
  Memory bounds what \<open>boost::beast\<close> can present: the pieces of one call of \<open>next\<close> together, and every piece of
  a chunk made from a buffer, are no larger than a vector of bytes can be.
\<close>

definition fits_memory :: "('p, 'b, 'r, 'q, 'z) Beast \<Rightarrow> bool" where
  "fits_memory B \<longleftrightarrow> (\<forall>z ec b. ser_next B z = Some (ec, b) \<longrightarrow> sum_list (map length b) \<le> byte_vector_max)
     \<and> (\<forall>d. length d \<le> byte_vector_max \<longrightarrow> (\<forall>p \<in> set (make_chunk B d). length p \<le> byte_vector_max)) \<and> (\<forall>p \<in> set (make_chunk_last B). length p \<le> byte_vector_max)"

text \<open>One call of \<open>next\<close>: the visitor makes a buffer for every piece, throws, or is not called.\<close>

lemma next_sim:
  assumes "heap_ok h" and "fits_memory B"
  shows "(\<exists>k ps nb h'. visit_next (ser_next B z) = Ret k ps \<and> serialize_next (ser_next B z) h = Ret () (\<lparr>sv_buffs = nb, sv_last = of_nat k\<rparr>, h')
      \<and> k \<le> byte_vector_max \<and> holds_bytes ps (nb, h') \<and> grows h h')
    \<or> (\<exists>e v. visit_next (ser_next B z) = Throw e [] \<and> serialize_next (ser_next B z) h = Throw e (v, h))"
proof (cases "ser_next B z")
  case None
  then show ?thesis using assms(1) by (simp add: visit_next_def serialize_next_def holds_bytes_def)
next
  case (Some call)
  then obtain ec b where e: "ser_next B z = Some (ec, b)" by (cases call) simp
  have l: "sum_list (map length b) \<le> byte_vector_max" using assms(2) e by (auto simp: fits_memory_def)
  have "holds_bytes [] (sv_buffs \<lparr>sv_buffs = [], sv_last = 0\<rparr>, h)" using assms(1) by (simp add: holds_bytes_def)
  from visit_loop_makes_bytes [OF this l] obtain nb h' where
    v: "visit_loop b \<lparr>sv_buffs = [], sv_last = 0\<rparr> h = Some (\<lparr>sv_buffs = nb, sv_last = of_nat (sum_list (map length b))\<rparr>, h')"
      "holds_bytes b (nb, h')" "grows h h'" by auto
  then show ?thesis using e l by (cases ec) (simp_all add: visit_next_def serialize_next_def visit_def serialize_visit_def checkOrThrow_def)
qed

lemma convert_buffers_sim:
  "holds_bytes bs s \<Longrightarrow> fits_memory B \<Longrightarrow> res_sim holds_bytes (convert_loop n ho B z bs) (convert_buffers n ho B z s)"
proof (induction n arbitrary: z bs s)
  case (Suc n)
  obtain sb h where s: "s = (sb, h)" by fastforce
  then have ok: "heap_ok h" using Suc.prems(1) by (simp add: holds_bytes_def)
  from next_sim [OF ok Suc.prems(2), of z] show ?case
  proof (elim disjE exE conjE)
    fix k ps nb h'
    assume n: "visit_next (ser_next B z) = Ret k ps" "serialize_next (ser_next B z) h = Ret () (\<lparr>sv_buffs = nb, sv_last = of_nat k\<rparr>, h')"
      "k \<le> byte_vector_max" "holds_bytes ps (nb, h')" "grows h h'"
    have "holds_bytes (bs @ ps) (sb @ nb, h')"
      using holds_grows [OF _ n(5), of bs sb] n(4) Suc.prems(1) s by (simp add: holds_bytes_def list_all2_appendI)
    then show ?thesis
      using Suc.IH [of "bs @ ps" "(sb @ nb, h')"] Suc.prems n(1,2) s unat_vector_size [OF n(3)]
      by (simp add: Let_def)
  next
    fix e v
    assume "visit_next (ser_next B z) = Throw e []" "serialize_next (ser_next B z) h = Throw e (v, h)"
    then show ?thesis using Suc.prems s by simp
  qed
qed simp

text \<open>Destroying the only reference to a storage that none of the buffers of a batch uses.\<close>

lemma holds_destroy:
  assumes "holds_bytes bs (sb, h)" and "buffs h (bufptr b) = Some \<lparr>bdata = d, refs = 1\<rparr>" and "\<forall>c\<in>set sb. bufptr c \<noteq> bufptr b"
  shows "\<exists>h'. Buffer_destroy b h = Some h' \<and> holds_bytes bs (sb, h')"
proof -
  let ?h = "h\<lparr>buffs := (buffs h)(bufptr b := None)\<rparr>"
  have "Buffer_destroy b h = Some ?h" using assms(2) by (simp add: Buffer_destroy_def intrusive_ptr_release_def)
  moreover have "heap_ok ?h" using assms(1) by (simp add: holds_bytes_def heap_ok_def)
  moreover have "\<forall>c\<in>set sb. Buffer_bytes ?h c = Buffer_bytes h c" using assms(3) by (simp add: Buffer_bytes_def)
  ultimately show ?thesis using assms(1) by (auto simp: holds_bytes_def list_all2_conv_all_nth)
qed

lemma holds_old: "holds_bytes bs (sb, h) \<Longrightarrow> c \<in> set sb \<Longrightarrow> bufptr c < next_buff h"
proof -
  assume h: "holds_bytes bs (sb, h)" and "c \<in> set sb"
  then have "buffs h (bufptr c) \<noteq> None"
    by (auto simp: holds_bytes_def list_all2_conv_all_nth in_set_conv_nth Buffer_bytes_def split: option.splits)
  then show ?thesis using h by (metis holds_bytes_def heap_ok_def not_less snd_conv)
qed

text \<open>
  The documented layout of a chunk: what comes before the data depends on its size only, the data is one piece,
  and something that depends on its size only comes after it.
\<close>

definition chunk_laws :: "('p, 'b, 'r, 'q, 'z) Beast \<Rightarrow> chunk_layout \<Rightarrow> bool" where
  "chunk_laws B L \<longleftrightarrow> (\<forall>d. make_chunk B d = chunk_before L (length d) @ [d] @ chunk_after L (length d))"

lemma within_views: "list_all2 (\<lambda>d v. view_bytes h v = Some d) ds (map Within ds)"
  by (simp add: list_all2_conv_all_nth)

lemma chunk_views_bytes:
  assumes "chunk_laws B L" and "Buffer_bytes h b = Some d" and "unat (buflength b) = length d"
  shows "list_all2 (\<lambda>d v. view_bytes h v = Some d) (make_chunk B d) (chunk_views L b)"
  using assms(1) unfolding chunk_laws_def chunk_views_def assms(3)
  by (simp add: list_all2_appendI within_views assms(2))

lemma chunk_buffers_bytes:
  assumes "holds_bytes bs s" and "fits_memory B" and "chunk_laws B L" and "\<forall>d\<in>set ds. length d \<le> byte_vector_max"
  shows "\<exists>s'. chunk_buffers L ds s = Some s' \<and> holds_bytes (bs @ concat (map (make_chunk B) ds)) s'"
  using assms(1,4)
proof (induction ds arbitrary: bs s)
  case (Cons d ds)
  obtain sb h where s: "s = (sb, h)" by fastforce
  obtain b h1 where b: "makeBuffer d h = Some (b, h1)" "heap_ok h1" "grows h h1" "Buffer_bytes h1 b = Some d" "bufptr b = next_buff h"
      "buffs h1 (bufptr b) = Some \<lparr>bdata = d, refs = 1\<rparr>" "next_buff h1 = Suc (next_buff h)"
    using makeBuffer_spec [of h d] Cons.prems s by (auto simp: holds_bytes_def)
  have "unat (buflength b) = length d"
    using b(1) Cons.prems(2) unat_vector_size [of "length d"] by (auto simp: makeBuffer_def Buffer_makeCopy_def Buffer_make_eq)
  from chunk_views_bytes [OF assms(3) b(4) this]
  have v: "list_all2 (\<lambda>d v. view_bytes h1 v = Some d) (make_chunk B d) (chunk_views L b)" .
  have "\<forall>p\<in>set (make_chunk B d). length p \<le> byte_vector_max" using assms(2) Cons.prems(2) by (auto simp: fits_memory_def)
  from sequence_makes_bytes [OF holds_grows [OF Cons.prems(1) [unfolded s] b(3,2)] v this] obtain nb h2 where
    n: "makeBuffersFromSequence (chunk_views L b) (sb, h1) = Some (sb @ nb, h2)"
      "holds_bytes (bs @ make_chunk B d) (sb @ nb, h2)" "grows h1 h2" "\<forall>b\<in>set nb. next_buff h1 \<le> bufptr b" by blast
  have "\<forall>c\<in>set (sb @ nb). bufptr c \<noteq> bufptr b"
    using holds_old [OF Cons.prems(1) [unfolded s]] n(4) b(5,7) by fastforce
  moreover have "buffs h2 (bufptr b) = Some \<lparr>bdata = d, refs = 1\<rparr>" using n(3) b(6) by (simp add: grows_def)
  ultimately obtain h3 where "Buffer_destroy b h2 = Some h3" "holds_bytes (bs @ make_chunk B d) (sb @ nb, h3)"
    using holds_destroy [OF n(2)] by blast
  then show ?case using Cons.IH [of "bs @ make_chunk B d" "(sb @ nb, h3)"] Cons.prems(2) s b(1) n(1) by simp
qed simp

text \<open>C21: The buffers a session makes for a response hold the bytes of its description: filling a batch on the heap
  of buffers ends in the same way as filling it with sequences of bytes, with a normal return, the same exception
  or out of fuel. It never touches freed storage: the views of a chunk are read while the buffer of the handler
  that they point into still exists. One by one the buffers of the batch read exactly these bytes afterwards, when
  the buffers of the handler have been destroyed. The serialiser presents, and a chunk consists of, pieces that fit
  into memory, and a chunk refers to the data between what it holds itself.
\<close>

theorem batch_buffers_refine_bytes:
  assumes "heap_ok h" and "fits_memory B" and "chunk_laws B L" and "\<forall>d\<in>set (fst (getChunked handler req)). length d \<le> byte_vector_max"
  shows "res_sim holds_bytes (fill_batch n B handler req resp) (fill_buffers n B L handler req resp h)"
proof -
  have e: "holds_bytes [] ([], h)" using assms(1) by (simp add: holds_bytes_def)
  have "res_sim holds_bytes
      (let (bs, err) = getChunked handler req; sb = sb @ concat (map (make_chunk B) bs)
       in case err of Some e \<Rightarrow> Throw e sb | None \<Rightarrow> Ret () (sb @ make_chunk_last B))
      (case chunk_buffers L (fst (getChunked handler req)) s of
         None \<Rightarrow> Undef UseAfterFree
       | Some s \<Rightarrow> (case snd (getChunked handler req) of
            Some e \<Rightarrow> Throw e s
          | None \<Rightarrow> (case makeBuffersFromSequence (map Within (make_chunk_last B)) s of None \<Rightarrow> Undef UseAfterFree | Some s \<Rightarrow> Ret () s)))"
    if hb: "holds_bytes sb s" for sb s
  proof -
    obtain bs err where g: "getChunked handler req = (bs, err)" by fastforce
    obtain t h' where c: "chunk_buffers L bs s = Some (t, h')" "holds_bytes (sb @ concat (map (make_chunk B) bs)) (t, h')"
      using chunk_buffers_bytes [OF hb assms(2,3), of bs] assms(4) g by auto
    moreover have "\<forall>p\<in>set (make_chunk_last B). length p \<le> byte_vector_max" using assms(2) by (simp add: fits_memory_def)
    from sequence_makes_bytes [OF c(2) within_views this] obtain nb h2 where
      "makeBuffersFromSequence (map Within (make_chunk_last B)) (t, h') = Some (t @ nb, h2)"
      "holds_bytes ((sb @ concat (map (make_chunk B) bs)) @ make_chunk_last B) (t @ nb, h2)" by blast
    ultimately show ?thesis using g by (cases err) auto
  qed
  then show ?thesis
    using convert_buffers_sim [OF e assms(2)]
    by (auto simp: fill_batch_def fill_buffers_def convert_def convertHeaderOnly_def intro!: res_sim_bind)
qed


text \<open>The hypotheses can hold: a serialiser that presents one byte at a time, and a chunked response.\<close>

definition bytewise_beast :: "(byte option, byte list, byte, byte list, bool \<times> bool \<times> byte list) Beast" where
  "bytewise_beast = tiny_beast\<lparr>ser_next := (\<lambda>(s, h, q). Some (HttpOk, [take 1 q]))\<rparr>"

definition tiny_layout :: chunk_layout where
  "tiny_layout = \<lparr>chunk_before = (\<lambda>n. [[1]]), chunk_after = (\<lambda>n. [])\<rparr>"

lemma bytewise_chunks: "chunk_laws bytewise_beast tiny_layout"
  by (simp add: chunk_laws_def bytewise_beast_def tiny_beast_def tiny_layout_def)

lemma bytewise_fits: "fits_memory bytewise_beast"
  by (auto simp: fits_memory_def bytewise_beast_def tiny_beast_def byte_vector_max_def)

theorem batch_buffers_refine_bytes_witness:
  "\<exists>sb h. fill_buffers 3 bytewise_beast tiny_layout tiny_handler 7 [9] empty_heap = Ret () (sb, h)
     \<and> map (Buffer_bytes h) sb = map Some [[9], [1], [5], [1], [6], [0]]"
proof -
  have "fill_batch 3 bytewise_beast tiny_handler 7 [9] = Ret () [[9], [1], [5], [1], [6], [0]]"
    by (simp add: fill_batch_def convertHeaderOnly_def visit_next_def visit_def checkOrThrow_def bytewise_beast_def tiny_beast_def tiny_handler_def
        eval_nat_numeral)
  with batch_buffers_refine_bytes [OF heap_ok_empty bytewise_fits bytewise_chunks, of tiny_handler 7 3 "[9]"]
  show ?thesis by (auto simp: tiny_handler_def byte_vector_max_def holds_bytes_def list_all2_Cons1)
qed

end
