(* ===== verification/Owned.thy ===== *)
theory Owned
  imports Event_Run
begin

text \<open>
  \<open>OwnedCoroutine\<close> (\<open>eslang/ProcessTask.h\<close>), the owner of a coroutine frame in every task object: frames
  and owners by address, every member function, and the proof that frames and owners match one to one
  over any sequence of operations that resumes only coroutines that are there and have not ended, which the
  members themselves do not check.
\<close>

section \<open>OwnedCoroutine\<close>

text \<open>
  A coroutine frame that exists is suspended somewhere or at its final suspension. An owner object that
  exists holds a handle or an empty one. What is destroyed has no entry.
\<close>

datatype suspension = Midway | AtFinalSuspend

record Owners =
  frames :: "nat \<Rightarrow> suspension option"
  next_frame :: nat
  owners :: "nat \<Rightarrow> nat option option"

definition Owners_init :: Owners where
  "Owners_init = \<lparr>frames = (\<lambda>_. None), next_frame = 0, owners = (\<lambda>_. None)\<rparr>"

text \<open>\<open>h.destroy()\<close>: destroying a frame that does not exist is undefined.\<close>

definition destroy_frame :: "nat \<Rightarrow> Owners \<Rightarrow> (unit, Owners) res" where
  "destroy_frame h k =
     (case frames k h of
        None \<Rightarrow> Undef UseAfterFree
      | Some _ \<Rightarrow> Ret () (k\<lparr>frames := (frames k)(h := None)\<rparr>))"

text \<open>
  The member \<open>h_\<close> of the owner at \<open>x\<close>, and its constructors: from the handle of a new coroutine, as in
  \<open>get_return_object\<close>, and by moving from \<open>rhs\<close>; and the move assignment, which swaps.
\<close>

definition handle_of :: "nat \<Rightarrow> Owners \<Rightarrow> (nat option, Owners) res" where
  "handle_of x k = (case owners k x of None \<Rightarrow> Undef UseAfterFree | Some h \<Rightarrow> Ret h k)"

definition OwnedCoroutine_make :: "nat \<Rightarrow> Owners \<Rightarrow> (unit, Owners) res" where
  "OwnedCoroutine_make x k =
     Ret () (k\<lparr>frames := (frames k)(next_frame k \<mapsto> Midway), next_frame := Suc (next_frame k),
               owners := (owners k)(x \<mapsto> Some (next_frame k))\<rparr>)"

definition OwnedCoroutine_move :: "nat \<Rightarrow> nat \<Rightarrow> Owners \<Rightarrow> (unit, Owners) res" where
  "OwnedCoroutine_move x rhs k =
     res_bind (handle_of rhs k) (\<lambda>h k. Ret () (k\<lparr>owners := (owners k)(x \<mapsto> h, rhs \<mapsto> None)\<rparr>))"

definition OwnedCoroutine_assign :: "nat \<Rightarrow> nat \<Rightarrow> Owners \<Rightarrow> (unit, Owners) res" where
  "OwnedCoroutine_assign x rhs k =
     res_bind (handle_of rhs k) (\<lambda>r k. res_bind (handle_of x k) (\<lambda>h k.
       Ret () (k\<lparr>owners := (owners k)(rhs \<mapsto> h, x \<mapsto> r)\<rparr>)))"

definition hasValue :: "nat \<Rightarrow> Owners \<Rightarrow> bool" where
  "hasValue x k \<longleftrightarrow> (case owners k x of Some (Some h) \<Rightarrow> True | _ \<Rightarrow> False)"

definition atFinalSuspend :: "nat \<Rightarrow> Owners \<Rightarrow> (bool, Owners) res" where
  "atFinalSuspend x k =
     res_bind (handle_of x k) (\<lambda>h k.
       case h of
         None \<Rightarrow> Undef NullDeref
       | Some h \<Rightarrow> (case frames k h of None \<Rightarrow> Undef UseAfterFree | Some s \<Rightarrow> Ret (s = AtFinalSuspend) k))"

text \<open>
  \<open>resume\<close>: the coroutine runs to its next suspension, to its final suspension, or out of an exception,
  after which the handle is cleared. The comment in the code says that the frame is dead then; the language
  standard came to leave such a frame at its final suspension. Which of them the compiler does is the
  argument \<open>freed\<close>.
\<close>

datatype outcome = Suspends | Finishes | Fails string

definition OwnedCoroutine_resume :: "bool \<Rightarrow> nat \<Rightarrow> outcome \<Rightarrow> Owners \<Rightarrow> (unit, Owners) res" where
  "OwnedCoroutine_resume freed x out k =
     res_bind (handle_of x k) (\<lambda>h k.
       case h of
         None \<Rightarrow> Undef NullDeref
       | Some h \<Rightarrow>
           (case frames k h of
              None \<Rightarrow> Undef UseAfterFree
            | Some AtFinalSuspend \<Rightarrow> Undef NullDeref
            | Some Midway \<Rightarrow>
                (case out of
                   Suspends \<Rightarrow> Ret () k
                 | Finishes \<Rightarrow> Ret () (k\<lparr>frames := (frames k)(h \<mapsto> AtFinalSuspend)\<rparr>)
                 | Fails e \<Rightarrow>
                       Throw e (k\<lparr>owners := (owners k)(x \<mapsto> None),
                                  frames := (frames k)(h := if freed then None else Some AtFinalSuspend)\<rparr>))))"

definition OwnedCoroutine_destroy :: "nat \<Rightarrow> Owners \<Rightarrow> (unit, Owners) res" where
  "OwnedCoroutine_destroy x k =
     res_bind (handle_of x k) (\<lambda>h k.
       let k = k\<lparr>owners := (owners k)(x \<mapsto> None)\<rparr> in
       case h of None \<Rightarrow> Undef NullDeref | Some h \<Rightarrow> destroy_frame h k)"

text \<open>The destructor.\<close>

definition OwnedCoroutine_dtor :: "nat \<Rightarrow> Owners \<Rightarrow> (unit, Owners) res" where
  "OwnedCoroutine_dtor x k =
     res_bind (handle_of x k) (\<lambda>h k.
       let k = k\<lparr>owners := (owners k)(x := None)\<rparr> in
       case h of None \<Rightarrow> Ret () k | Some h \<Rightarrow> destroy_frame h k)"

section \<open>Uses\<close>

text \<open>
  The operations a program can perform on owners: objects are constructed where there is none, and used and
  destroyed where there is one; with an object that does not exist nothing can be done. Neither \<open>resume\<close> nor
  \<open>destroy\<close> looks at the handle before it uses it. The caller handles the exception of a resume.
\<close>

datatype owner_op = Make nat | MoveTo nat nat | AssignTo nat nat | Resume nat outcome | DestroyFrame nat | Drop nat

definition owner_step :: "bool \<Rightarrow> owner_op \<Rightarrow> Owners \<Rightarrow> (unit, Owners) res" where
  "owner_step freed e k =
     (case e of
        Make x \<Rightarrow> if owners k x = None then OwnedCoroutine_make x k else Ret () k
      | MoveTo x rhs \<Rightarrow> if owners k x = None \<and> owners k rhs \<noteq> None then OwnedCoroutine_move x rhs k else Ret () k
      | AssignTo x rhs \<Rightarrow> if owners k x \<noteq> None \<and> owners k rhs \<noteq> None then OwnedCoroutine_assign x rhs k else Ret () k
      | Resume x out \<Rightarrow>
          if owners k x \<noteq> None
          then (case OwnedCoroutine_resume freed x out k of Throw e k \<Rightarrow> Ret () k | r \<Rightarrow> r)
          else Ret () k
      | DestroyFrame x \<Rightarrow> if owners k x \<noteq> None then OwnedCoroutine_destroy x k else Ret () k
      | Drop x \<Rightarrow> if owners k x \<noteq> None then OwnedCoroutine_dtor x k else Ret () k)"

text \<open>
  What \<open>resume\<close> and \<open>destroy\<close> leave to their callers: to resume only a coroutine that is there and has not ended,
  and to destroy only one that is there, which \<open>hasValue\<close> and \<open>atFinalSuspend\<close> tell. \<open>well_used\<close>: a sequence of
  operations does so at every one of them.
\<close>

definition usable :: "owner_op \<Rightarrow> Owners \<Rightarrow> bool" where
  "usable e k =
     (case e of
        Resume x out \<Rightarrow> owners k x = None \<or> hasValue x k \<and> atFinalSuspend x k = Ret False k
      | DestroyFrame x \<Rightarrow> owners k x = None \<or> hasValue x k
      | _ \<Rightarrow> True)"

primrec well_used :: "bool \<Rightarrow> owner_op list \<Rightarrow> Owners \<Rightarrow> bool" where
  "well_used freed [] k = True"
| "well_used freed (e # es) k = (usable e k \<and> (case owner_step freed e k of Ret _ k \<Rightarrow> well_used freed es k | _ \<Rightarrow> True))"

section \<open>One owner for every frame\<close>

text \<open>The frames that no owner can destroy any more.\<close>

definition abandoned :: "Owners \<Rightarrow> nat set" where
  "abandoned k = {h. frames k h = Some AtFinalSuspend \<and> (\<forall>x. owners k x \<noteq> Some (Some h))}"

definition owned_once :: "bool \<Rightarrow> Owners \<Rightarrow> bool" where
  "owned_once freed k \<longleftrightarrow> (\<forall>h\<ge>next_frame k. frames k h = None)
     \<and> (\<forall>x h. owners k x = Some (Some h) \<longrightarrow> frames k h \<noteq> None)
     \<and> (\<forall>x y h. owners k x = Some (Some h) \<longrightarrow> owners k y = Some (Some h) \<longrightarrow> x = y)
     \<and> (\<forall>h. frames k h \<noteq> None \<longrightarrow> (\<exists>x. owners k x = Some (Some h)) \<or> (\<not> freed \<and> frames k h = Some AtFinalSuspend))"

lemmas owner_defs = handle_of_def OwnedCoroutine_make_def OwnedCoroutine_move_def OwnedCoroutine_assign_def hasValue_def
  atFinalSuspend_def OwnedCoroutine_resume_def OwnedCoroutine_destroy_def OwnedCoroutine_dtor_def destroy_frame_def Let_def

lemma owned_onceD:
  assumes "owned_once freed k"
  shows "next_frame k \<le> h \<Longrightarrow> frames k h = None"
    and "owners k x = Some (Some h) \<Longrightarrow> \<exists>s. frames k h = Some s"
    and "owners k x = Some (Some h) \<Longrightarrow> owners k y = Some (Some h) \<Longrightarrow> x = y"
    and "frames k h = Some s \<Longrightarrow> (\<exists>x. owners k x = Some (Some h)) \<or> (\<not> freed \<and> s = AtFinalSuspend)"
  using assms unfolding owned_once_def by (blast, blast, blast, metis option.distinct(1) option.inject)

lemma owned_onceI:
  assumes "\<And>h. next_frame k \<le> h \<Longrightarrow> frames k h = None" and "\<And>x h. owners k x = Some (Some h) \<Longrightarrow> frames k h \<noteq> None"
    and "\<And>x y h. owners k x = Some (Some h) \<Longrightarrow> owners k y = Some (Some h) \<Longrightarrow> x = y"
    and "\<And>h. frames k h \<noteq> None \<Longrightarrow> (\<exists>x. owners k x = Some (Some h)) \<or> (\<not> freed \<and> frames k h = Some AtFinalSuspend)"
  shows "owned_once freed k"
  using assms unfolding owned_once_def by blast

lemma owned_not_next: "owned_once freed k \<Longrightarrow> owners k x \<noteq> Some (Some (next_frame k))"
  using owned_onceD(1) [of freed k "next_frame k"] owned_onceD(2) [of freed k x "next_frame k"] by auto

lemma owned_make: "owned_once freed k \<Longrightarrow> owners k x = None \<Longrightarrow> res_total (\<lambda>_. owned_once freed) (\<lambda>_. False) (OwnedCoroutine_make x k)"
  apply (simp add: owner_defs)
  apply (rule owned_onceI)
  subgoal by (simp add: owned_onceD(1))
  subgoal for y h by (cases "y = x") (auto dest: owned_onceD(2))
  subgoal for y z h by (cases "y = x"; cases "z = x") (auto dest: owned_onceD(3) simp: owned_not_next)
  subgoal for h by (cases "h = next_frame k") (auto, (metis owned_onceD(4) option.distinct(1))+)
  done

text \<open>Moving and swapping handles: the owner of every frame is the image under an injective map.\<close>

lemma owned_move:
  assumes "owned_once freed k" and "owners k x = None" and "owners k rhs \<noteq> None"
  shows "res_total (\<lambda>_. owned_once freed) (\<lambda>_. False) (OwnedCoroutine_move x rhs k)"
proof -
  obtain h where h: "owners k rhs = Some h" using assms(3) by auto
  let ?k = "k\<lparr>owners := (owners k)(x \<mapsto> h, rhs \<mapsto> None)\<rparr>"
  have ex: "(\<exists>y. owners ?k y = Some (Some g)) \<or> (\<not> freed \<and> frames ?k g = Some AtFinalSuspend)"
    if f: "frames ?k g \<noteq> None" for g
  proof (cases "\<exists>y. owners k y = Some (Some g)")
    case True
    then obtain y where "owners k y = Some (Some g)" by auto
    then show ?thesis using h assms(2) by (cases "y = rhs") (auto intro: exI [of _ x] exI [of _ y])
  qed (use f owned_onceD(4) [OF assms(1), of g] in auto)
  have one: "y = z" if "owners ?k y = Some (Some g)" "owners ?k z = Some (Some g)" for y z g
    using that h assms(2) owned_onceD(3) [OF assms(1)] by (auto split: if_splits)
  have held: "frames ?k g \<noteq> None" if "owners ?k y = Some (Some g)" for y g
    using that h owned_onceD(2) [OF assms(1)] by (auto split: if_splits)
  have "owned_once freed ?k"
    by (rule owned_onceI) (use owned_onceD(1) [OF assms(1)] in simp, erule held, erule one, assumption, erule ex)
  then show ?thesis using h by (simp add: owner_defs)
qed

lemma owned_assign:
  assumes "owned_once freed k" and "owners k x \<noteq> None" and "owners k rhs \<noteq> None"
  shows "res_total (\<lambda>_. owned_once freed) (\<lambda>_. False) (OwnedCoroutine_assign x rhs k)"
proof -
  obtain h r where h: "owners k x = Some h" "owners k rhs = Some r" using assms(2,3) by auto
  let ?k = "k\<lparr>owners := (owners k)(rhs \<mapsto> h, x \<mapsto> r)\<rparr>"
  have ex: "(\<exists>y. owners ?k y = Some (Some g)) \<or> (\<not> freed \<and> frames ?k g = Some AtFinalSuspend)"
    if f: "frames ?k g \<noteq> None" for g
  proof (cases "\<exists>y. owners k y = Some (Some g)")
    case True
    then obtain y where "owners k y = Some (Some g)" by auto
    then show ?thesis using h
      by (cases "y = rhs"; cases "y = x") (auto intro: exI [of _ x] exI [of _ rhs] exI [of _ y])
  qed (use f owned_onceD(4) [OF assms(1), of g] in auto)
  have one: "y = z" if "owners ?k y = Some (Some g)" "owners ?k z = Some (Some g)" for y z g
    using that h owned_onceD(3) [OF assms(1)] by (auto split: if_splits)
  have held: "frames ?k g \<noteq> None" if "owners ?k y = Some (Some g)" for y g
    using that h owned_onceD(2) [OF assms(1)] by (auto split: if_splits)
  have "owned_once freed ?k"
    by (rule owned_onceI) (use owned_onceD(1) [OF assms(1)] in simp, erule held, erule one, assumption, erule ex)
  then show ?thesis using h by (simp add: owner_defs)
qed

text \<open>Giving up a frame together with the handle that holds it, or the whole owner.\<close>

lemma owned_give_up:
  assumes "owned_once freed k" and "owners k x = Some (Some h)" and "v = None \<or> v = Some None"
    and "s = None \<or> \<not> freed \<and> s = Some AtFinalSuspend"
  shows "owned_once freed (k\<lparr>owners := (owners k)(x := v), frames := (frames k)(h := s)\<rparr>)"
proof (rule owned_onceI)
  let ?k = "k\<lparr>owners := (owners k)(x := v), frames := (frames k)(h := s)\<rparr>"
  note D = owned_onceD [OF assms(1)]
  have old: "owners k y = Some (Some g) \<and> y \<noteq> x \<and> g \<noteq> h" if "owners ?k y = Some (Some g)" for y g
    using that assms(2,3) D(3) [of y h x] by (auto split: if_splits)
  show "frames ?k g = None" if "next_frame ?k \<le> g" for g
    using that D(1) [of g] D(2) [OF assms(2)] by auto
  show "frames ?k g \<noteq> None" if "owners ?k y = Some (Some g)" for y g using old [OF that] D(2) [of y g] by auto
  show "y = z" if "owners ?k y = Some (Some g)" "owners ?k z = Some (Some g)" for y z g
    using old [OF that(1)] old [OF that(2)] D(3) [of y g z] by blast
  show "(\<exists>y. owners ?k y = Some (Some g)) \<or> (\<not> freed \<and> frames ?k g = Some AtFinalSuspend)" if f: "frames ?k g \<noteq> None" for g
  proof (cases "g = h")
    case False
    then obtain t where t: "frames k g = Some t" using f by auto
    have "owners ?k y = Some (Some g)" if "owners k y = Some (Some g)" for y using that assms(2) False by auto
    with D(4) [OF t] have "(\<exists>y. owners ?k y = Some (Some g)) \<or> (\<not> freed \<and> t = AtFinalSuspend)" by blast
    then show ?thesis using t False by simp
  qed (use f assms(4) in auto)
qed

lemma owned_drop_empty: "owned_once freed k \<Longrightarrow> owners k x = Some None \<Longrightarrow> owned_once freed (k\<lparr>owners := (owners k)(x := None)\<rparr>)"
  unfolding owned_once_def by (auto split: if_splits) (metis option.distinct(1) option.inject)+

lemma owned_destroy:
  assumes "owned_once freed k" and "owners k x = Some (Some h)"
  shows "res_total (\<lambda>_. owned_once freed) (\<lambda>_. False) (OwnedCoroutine_destroy x k)"
    and "res_total (\<lambda>_. owned_once freed) (\<lambda>_. False) (OwnedCoroutine_dtor x k)"
  using assms owned_onceD(2) [OF assms] owned_give_up [OF assms] by (auto simp: owner_defs)

lemma owned_resume:
  assumes "owned_once freed k" and "owners k x = Some (Some h)" and "frames k h = Some Midway"
  shows "res_total (\<lambda>_. owned_once freed) (\<lambda>_. False) (case OwnedCoroutine_resume freed x out k of Throw e k \<Rightarrow> Ret () k | r \<Rightarrow> r)"
proof (cases out)
  case Finishes
  have "owned_once freed (k\<lparr>frames := (frames k)(h \<mapsto> AtFinalSuspend)\<rparr>)" using assms by (auto simp: owned_once_def)
  then show ?thesis using assms(2,3) Finishes by (simp add: owner_defs)
next
  case (Fails e)
  then show ?thesis using assms owned_give_up [OF assms(1,2), of "Some None"] by (simp add: owner_defs)
qed (use assms in \<open>simp add: owner_defs\<close>)

lemma owner_step_ok:
  assumes k: "owned_once freed k" and u: "usable e k"
  shows "res_total (\<lambda>_. owned_once freed) (\<lambda>_. False) (owner_step freed e k)"
proof (cases e)
  case (Resume x out)
  show ?thesis
  proof (cases "owners k x = None")
    case False
    then obtain h where h: "owners k x = Some (Some h)" "frames k h = Some Midway"
      using u Resume owned_onceD(2) [OF k] by (auto simp: usable_def hasValue_def atFinalSuspend_def handle_of_def
        split: option.splits) (metis option.inject suspension.exhaust)
    then show ?thesis using owned_resume [OF k h] Resume by (simp add: owner_step_def)
  qed (use Resume k in \<open>simp add: owner_step_def\<close>)
next
  case (DestroyFrame x)
  then show ?thesis
    using k u owned_destroy(1) [OF k, of x] by (auto simp: owner_step_def usable_def hasValue_def split: option.splits)
next
  case (Drop x)
  then show ?thesis
    using k owned_destroy(2) [OF k, of x] owned_drop_empty [OF k, of x]
    by (cases "owners k x") (auto simp: owner_step_def OwnedCoroutine_dtor_def handle_of_def Let_def split: option.split)
qed (use k owned_make owned_move owned_assign in \<open>simp_all add: owner_step_def\<close>)

lemma owner_step_misused:
  assumes k: "owned_once freed k" and u: "\<not> usable e k"
  shows "owner_step freed e k = Undef NullDeref"
proof (cases e)
  case (Resume x out)
  then show ?thesis
    using u owned_onceD(2) [OF k, of x]
    by (cases "owners k x") (auto simp: usable_def owner_step_def owner_defs split: option.splits suspension.splits)
next
  case (DestroyFrame x)
  then show ?thesis using u by (auto simp: usable_def owner_step_def owner_defs split: option.splits)
qed (use u in \<open>simp_all add: usable_def\<close>)

definition owner_risk :: "owner_op \<Rightarrow> ub set" where
  "owner_risk e = (case e of Resume x out \<Rightarrow> {NullDeref} | DestroyFrame x \<Rightarrow> {NullDeref} | _ \<Rightarrow> {})"

interpretation owners: event_machine "owner_step freed" "owned_once freed" owner_risk for freed
proof
  fix k e
  assume k: "owned_once freed k"
  show "res_within (owner_risk e) (\<lambda>_. owned_once freed) (\<lambda>_. False) (owner_step freed e k)"
  proof (cases "usable e k")
    case True
    then show ?thesis using res_within_more [OF owner_step_ok [OF k]] by blast
  next
    case False
    then show ?thesis using owner_step_misused [OF k] by (cases e) (simp_all add: owner_risk_def usable_def)
  qed
qed

lemma run_well_used:
  "owned_once freed k \<Longrightarrow> if well_used freed es k then \<exists>k'. run_events (owner_step freed) es k = Ret () k'
     else run_events (owner_step freed) es k = Undef NullDeref"
proof (induction es arbitrary: k)
  case (Cons e es)
  show ?case
  proof (cases "usable e k")
    case True
    then obtain u k1 where "owner_step freed e k = Ret u k1" "owned_once freed k1"
      using res_total_RetE [OF owner_step_ok [OF Cons.prems]] by blast
    then show ?thesis using Cons.IH [of k1] True by simp
  qed (use owner_step_misused [OF Cons.prems] in simp)
qed simp

text \<open>C10: Every coroutine frame has one owner, in any program that moves, swaps, resumes and destroys task
  objects in any order, as long as it resumes only coroutines that are there and have not ended and
  destroys early only those that are there: then no operation is undefined; no owner holds the handle of a
  frame that does not exist, and every frame that exists has exactly one owner, with one exception. When the
  compiler keeps the frame of a coroutine that ended in an exception, clearing the handle leaves it without
  owner; when it frees the frame, as the code assumes, nothing is left over. A program that does not keep to
  the rule runs into an empty handle or a finished coroutine, and into nothing worse before.\<close>

theorem frame_has_one_owner:
  "if well_used freed es Owners_init
   then \<exists>k. run_events (owner_step freed) es Owners_init = Ret () k
     \<and> (\<forall>h. if frames k h = None then \<forall>x. owners k x \<noteq> Some (Some h)
            else (\<exists>!x. owners k x = Some (Some h)) \<or> h \<in> abandoned k)
     \<and> abandoned k \<subseteq> (if freed then {} else UNIV)
   else run_events (owner_step freed) es Owners_init = Undef NullDeref"
proof -
  have ok: "owned_once freed Owners_init" by (simp add: owned_once_def Owners_init_def)
  show ?thesis
  proof (cases "well_used freed es Owners_init")
    case True
    then obtain k where k: "run_events (owner_step freed) es Owners_init = Ret () k" using run_well_used [OF ok, of es] by auto
    note D = owned_onceD [OF owners.run_goodD [OF ok k]]
    have "(\<exists>!x. owners k x = Some (Some h)) \<or> h \<in> abandoned k" if "frames k h \<noteq> None" for h
      using that D(3) [of _ h] D(4) [of h] by (cases "\<exists>x. owners k x = Some (Some h)") (auto simp: abandoned_def)
    moreover have "\<forall>x. owners k x \<noteq> Some (Some h)" if "frames k h = None" for h using that D(2) [of _ h] by auto
    moreover have "abandoned k = {}" if freed using that D(4) by (auto simp: abandoned_def)
    ultimately show ?thesis using k True by auto
  qed (use run_well_used [OF ok, of es] in simp)
qed

text \<open>Both happen: a coroutine that is moved, resumed to its end and dropped, and one that is resumed once more.\<close>

theorem frame_has_one_owner_witness:
  "(\<exists>k. run_events (owner_step True) [Make 0, MoveTo 1 0, Resume 1 Suspends, Resume 1 Finishes, Drop 1] Owners_init = Ret () k
     \<and> abandoned k = {})
   \<and> run_events (owner_step True) [Make 0, Resume 0 Finishes, Resume 0 Suspends] Owners_init = Undef NullDeref"
proof -
  have "well_used True [Make 0, MoveTo 1 0, Resume 1 Suspends, Resume 1 Finishes, Drop 1] Owners_init"
    "\<not> well_used True [Make 0, Resume 0 Finishes, Resume 0 Suspends] Owners_init"
    by (simp_all add: usable_def owner_step_def owner_defs Owners_init_def)
  then show ?thesis
    using frame_has_one_owner [of True "[Make 0, MoveTo 1 0, Resume 1 Suspends, Resume 1 Finishes, Drop 1]"]
      frame_has_one_owner [of True "[Make 0, Resume 0 Finishes, Resume 0 Suspends]"] by auto
qed

end
