(* ===== verification/Link_Ctor.thy ===== *)
theory Link_Ctor
  imports Links
begin

text \<open>
  Links made by a constructor: \<open>link(s)\<close> in the constructor of a process, as in \<open>SessionRunner\<close> of the HTTP
  server and in \<open>TcpEchoRunner\<close> of the examples, ties the two processes together in both directions.
\<close>

section \<open>What link leaves behind\<close>

text \<open>The process \<open>own\<close> is in the list of the live process \<open>s\<close>.\<close>

definition lists_pid :: "Pid \<Rightarrow> Pid \<Rightarrow> ('st, 'm) Context \<Rightarrow> bool" where
  "lists_pid s own c \<longleftrightarrow> (\<exists>a rp. findProc s c = Some a \<and> heap c a = Some rp \<and> own \<in> set (killOnDie (rp_process rp)))"

lemma lists_pid_frame: "lists_pid s own c \<Longrightarrow> same_table c c' \<Longrightarrow> lists_pid s own c'"
  using findProc_same_table [of c c' s] same_table_heap(2) [of c c']
  by (fastforce simp: lists_pid_def same_proc_def)

lemma link_with_lists:
  assumes "link_with p b c = Ret q c'"
  shows "q = addKillOnDie b p" and "same_table c c'" and "lists_pid b (pr_pid p) c'"
proof -
  obtain a where a: "findProc b c = Some a" "q = addKillOnDie b p"
      "c' = upd_proc a (\<lambda>rp. rp\<lparr>rp_process := addKillOnDie (pr_pid p) (rp_process rp)\<rparr>) c"
    using assms by (auto simp: link_with_def split: option.splits)
  show "q = addKillOnDie b p" by (rule a(2))
  show st: "same_table c c'" using link_with_table [of c p b] assms by simp
  show "lists_pid b (pr_pid p) c'"
    using findProc_same_table [OF st, of b] findProc_SomeD [OF a(1)] a(1)
    by (auto simp: lists_pid_def a(3) upd_proc_def addKillOnDie_def)
qed

lemma link_all_lists:
  "link_all bs p c = Ret q c' \<Longrightarrow> set bs \<union> set (killOnDie p) \<subseteq> set (killOnDie q) \<and> (\<forall>s\<in>set bs. lists_pid s (pr_pid p) c')"
proof (induction bs arbitrary: p c)
  case (Cons b bs)
  obtain p1 c1 where l: "link_with p b c = Ret p1 c1" "link_all bs p1 c1 = Ret q c'"
    using Cons.prems by (auto simp: res_bind_Ret_conv)
  note w = link_with_lists [OF l(1)]
  have "lists_pid b (pr_pid p) c'"
    using lists_pid_frame [OF w(3)] link_all_table [of c1 p1 bs] l(2) by simp
  then show ?case using Cons.IH [OF l(2)] w(1) by (auto simp: addKillOnDie_def)
qed simp

text \<open>The parts of a successful spawn: the object under construction is linked, then it is stored.\<close>

lemma spawn_parts:
  assumes "table_ok c" and "spawn sp c = Ret p c1"
  obtains c0 c' c2 m q where "nextPid c = Ret p c0" and "same_table (c0\<lparr>next_addr := Suc (next_addr c0)\<rparr>) c2"
    and "link_all (sp_links sp) m c' = Ret q c2" and "pr_pid m = p" and "pr_pid q = p"
    and "c1 = queueResume p 0 (add_process p (next_addr c0) \<lparr>dead = False, rp_pid = p, rp_process = q,
           task = Some (None, [sp_start sp]), lastWaiting = None, resumes = 0\<rparr> c2)"
proof -
  obtain c0 where n: "nextPid c = Ret p c0" and sp: "spawnArgs (ProcessArgs_init p) sp c0 = Ret p c1"
    using assms(2) by (cases "nextPid c") (auto simp: spawn_def spawnArgs_def ProcessArgs_init_def res_bind_Ret_conv Let_def)
  let ?a = "next_addr c0" and ?c0 = "c0\<lparr>next_addr := Suc (next_addr c0)\<rparr>"
  obtain q c2 where con: "construct ?a (ProcessArgs_init p) sp ?c0 = Ret q c2"
    and c1: "c1 = queueResume p 0 (add_process p ?a \<lparr>dead = False, rp_pid = p, rp_process = q, task = Some (None, [sp_start sp]),
      lastWaiting = None, resumes = 0\<rparr> c2)"
    using sp by (auto simp: spawnArgs_def Let_def res_bind_Ret_conv add_process_def ProcessArgs_init_def)
  obtain m c' where mem: "new_members ?a (sp_members sp) (Process_init (ProcessArgs_init p) (sp_classes sp)) ?c0 = (m, c')"
    by (cases "new_members ?a (sp_members sp) (Process_init (ProcessArgs_init p) (sp_classes sp)) ?c0")
  have m: "pr_pid m = p" using new_members_table [of ?c0 ?a "sp_members sp" "Process_init (ProcessArgs_init p) (sp_classes sp)"] mem
    by (simp add: ProcessArgs_init_def)
  have l: "link_all (sp_links sp) m c' = Ret q c2"
    using con mem by (cases "link_all (sp_links sp) m c'") (auto simp: construct_def split: option.splits)
  have "heap ?c0 ?a = None"
    using table.T_fresh [OF assms(1)] nextPid_table(1,3) [OF n] assms(1) by (simp add: table_ok_iff)
  from construct_table [OF this, of "ProcessArgs_init p" sp] con
  have "same_table ?c0 c2" "pr_pid q = p" by (simp_all add: ProcessArgs_init_def)
  with n l m c1 show ?thesis using that by blast
qed

text \<open>A spawned process and a process its constructor links to list each other.\<close>

lemma spawn_links_both:
  assumes "table_ok c" and "spawn sp c = Ret p c1" and "s \<in> set (sp_links sp)"
  shows "lists_pid p s c1" and "lists_pid s p c1"
proof -
  obtain c0 c' c2 m q where n: "nextPid c = Ret p c0" and st: "same_table (c0\<lparr>next_addr := Suc (next_addr c0)\<rparr>) c2"
    and l: "link_all (sp_links sp) m c' = Ret q c2" and m: "pr_pid m = p" and q: "pr_pid q = p"
    and c1: "c1 = queueResume p 0 (add_process p (next_addr c0) \<lparr>dead = False, rp_pid = p, rp_process = q,
           task = Some (None, [sp_start sp]), lastWaiting = None, resumes = 0\<rparr> c2)"
    using assms(1,2) by (rule spawn_parts)
  note k = link_all_lists [OF l]
  have "keeps table_ok (spawn sp c)" by (rule table.T_spawn_plain [OF assms(1)]) simp
  then have o1: "owned_by {} c1" using assms(2) by (simp add: table_ok_iff)
  have o2: "owned_by {} c2" using table_ok_started(1) [OF assms(1) n st] by (simp add: table_ok_iff)
  have h1: "heap c1 = (heap c2)(next_addr c0 \<mapsto> \<lparr>dead = False, rp_pid = p, rp_process = q,
      task = Some (None, [sp_start sp]), lastWaiting = None, resumes = 0\<rparr>)"
    by (simp add: c1 queueResume_def add_process_def)
  then show "lists_pid p s c1"
    using findProc_iff [OF o1, of p "next_addr c0"] k assms(3) by (auto simp: lists_pid_def)
  obtain a rp where a: "findProc s c2 = Some a" "heap c2 a = Some rp" "p \<in> set (killOnDie (rp_process rp))"
    using k m assms(3) by (auto simp: lists_pid_def)
  have "heap c2 (next_addr c0) = None"
    using same_table_heap(1) [OF st] table.T_fresh [OF assms(1)] nextPid_table(1,3) [OF n] assms(1) by (simp add: table_ok_iff)
  then have "heap c1 a = Some rp" using a(2) h1 by auto
  then show "lists_pid s p c1"
    using a findProc_iff [OF o2, of s a] findProc_iff [OF o1, of s a] by (auto simp: lists_pid_def)
qed

section \<open>Living and dying together\<close>

lemma listed_alive:
  assumes "versions_inv c" and "lists_pid s p c" and "findProc p c \<noteq> None"
    and "run_steps any_spec P c c'" and "toDestroy c' = []" and "next_addr c' < 2 ^ 64" and "findProc p c' \<noteq> None"
  shows "findProc s c' \<noteq> None"
proof -
  obtain a rp where a: "findProc s c = Some a" "heap c a = Some rp" "p \<in> set (killOnDie (rp_process rp))"
    using assms(2) by (auto simp: lists_pid_def)
  have "owned_by {} c" using assms(1) by (simp add: versions_inv_def table_ok_iff)
  then have "rp_pid rp = s" using a findProc_iff by fastforce
  moreover obtain b where "findProc p c = Some b" using assms(3) by auto
  ultimately have "guarded a s p c" using guarded_start [OF assms(1) a(2,3)] by simp
  then have "guarded a s p c'" by (rule leash.sched.run_steps_keeps [OF assms(4), rotated]) simp
  then show ?thesis using guarded_alive [OF _ assms(5-7)] by simp
qed

text \<open>C23: A process whose constructor links it to another lives and dies with it: whatever happens after the
  spawn, at every later moment between two rounds of \<open>run\<close> either both are alive or neither is (with
  fewer than \<open>2^64\<close> processes created). This is how an HTTP session and an echo runner are tied to the
  socket they serve.\<close>

theorem constructor_link_ties_both:
  assumes "reachable any_spec P c" and "spawn sp c = Ret p c1" and "s \<in> set (sp_links sp)"
    and "run_steps any_spec P c1 c2" and "next_addr c2 < 2 ^ 64"
  shows "findProc p c2 = None \<longleftrightarrow> findProc s c2 = None"
proof -
  have v: "versions_inv c" by (rule versions.sched.reachable_keeps [OF assms(1)]) simp
  then have ok: "table_ok c" by (simp add: versions_inv_def)
  note l = spawn_links_both [OF ok assms(2,3)]
  have "keeps versions_inv (spawn sp c)" using v by (rule versions.T_spawn_plain) simp
  then have v1: "versions_inv c1" using assms(2) by simp
  have r: "reachable any_spec P c1" by (rule reachable.spawned [OF assms(1) _ assms(2)]) simp
  have d: "toDestroy c2 = []" by (rule reachable_toDestroy [OF reachable_run_steps [OF assms(4) r]])
  have "findProc p c1 \<noteq> None" "findProc s c1 \<noteq> None" using l by (auto simp: lists_pid_def)
  then show ?thesis
    using listed_alive [OF v1 l(1) _ assms(4) d assms(5)] listed_alive [OF v1 l(2) _ assms(4) d assms(5)] by blast
qed

theorem constructor_link_ties_both_witness:
  "findProc link_pid link_c2 = Some 1 \<and> (findProc link_pid link_c2 = None \<longleftrightarrow> findProc demo_pid link_c2 = None)"
proof
  show "findProc link_pid link_c2 = Some 1" by (simp add: findProc_def link_c2_def link_pid_def demo_rp_def)
  show "findProc link_pid link_c2 = None \<longleftrightarrow> findProc demo_pid link_c2 = None"
    by (rule constructor_link_ties_both [OF demo_any(1) link_spawn _ run_steps.run_refl]) (simp_all add: link_c2_def)
qed

end
