(* ===== verification/Logging.thy ===== *)
theory Logging
  imports BaseTypes
begin

text \<open>
  \<open>eslang/Logging.h\<close>: the macro \<open>ESLOG\<close>. The log is the list of records given to \<open>boost::log\<close>, each with the
  severity chosen by the macro.
\<close>

section \<open>ESLOG\<close>

datatype LL = INFO | WARNING | ERR | V | DEBUG | TRACE | FATAL

text \<open>\<open>boost::log::trivial::severity_level\<close>, in increasing order.\<close>

datatype severity = SevTrace | SevDebug | SevInfo | SevWarning | SevError | SevFatal

primrec severity_rank :: "severity \<Rightarrow> nat" where
  "severity_rank SevTrace = 0"
| "severity_rank SevDebug = 1"
| "severity_rank SevInfo = 2"
| "severity_rank SevWarning = 3"
| "severity_rank SevError = 4"
| "severity_rank SevFatal = 5"

type_synonym log = "(severity \<times> string) list"

definition put_record :: "severity \<Rightarrow> printable list \<Rightarrow> log \<Rightarrow> log" where
  "put_record sev args l = l @ [(sev, concatString args)]"

primrec ESLOG :: "LL \<Rightarrow> printable list \<Rightarrow> log \<Rightarrow> (unit, log) res" where
  "ESLOG INFO args l = Ret () (put_record SevInfo args l)"
| "ESLOG WARNING args l = Ret () (put_record SevWarning args l)"
| "ESLOG V args l = Ret () (put_record SevDebug args l)"
| "ESLOG DEBUG args l = Ret () (put_record SevDebug args l)"
| "ESLOG TRACE args l = Ret () (put_record SevTrace args l)"
| "ESLOG ERR args l = Ret () (put_record SevError args l)"
| "ESLOG FATAL args l = (let l = put_record SevInfo args l in Undef Terminated)"

text \<open>The records a filter with a least severity lets through, as the programs of the examples set one.\<close>

definition visible :: "severity \<Rightarrow> log \<Rightarrow> log" where
  "visible least l = filter (\<lambda>(sev, t). severity_rank least \<le> severity_rank sev) l"

section \<open>Facts\<close>

text \<open>Every level but \<open>FATAL\<close> adds one record with the text of its arguments and returns; \<open>FATAL\<close> ends the program.\<close>

lemma ESLOG_result:
  "ESLOG lv args l = (if lv = FATAL then Undef Terminated else
     Ret () (l @ [(case lv of INFO \<Rightarrow> SevInfo | WARNING \<Rightarrow> SevWarning | ERR \<Rightarrow> SevError | TRACE \<Rightarrow> SevTrace | _ \<Rightarrow> SevDebug, concatString args)]))"
  by (cases lv) (simp_all add: put_record_def)

text \<open>A filter for information and above hides exactly what is logged for debugging and tracing.\<close>

lemma ESLOG_visible:
  "ESLOG lv args l = Ret () l' \<Longrightarrow>
   visible SevInfo l' = visible SevInfo l @ (if lv \<in> {V, DEBUG, TRACE} then [] else drop (length l) l')"
  by (cases lv) (auto simp: put_record_def visible_def)

end
