(* ===== verification/Runs.thy ===== *)
theory Runs
  imports Scheduler
begin

text \<open>
  Runs of the loop of \<open>Context::run\<close> as a whole: more fuel never changes a result, a round that takes an
  item of the work queue is a function of the state, and so a run that always finds the queue filled
  has only one course. \<open>must_reach\<close> states that all runs from a state lead to the same end.
\<close>

section \<open>More fuel\<close>

definition fuel_le :: "('a, 's) res \<Rightarrow> ('a, 's) res \<Rightarrow> bool" where
  "fuel_le r r' \<longleftrightarrow> r = NoFuel \<or> r' = r"

named_theorems fuel_intros

lemma fuel_le_refl [simp, fuel_intros]: "fuel_le r r"
  by (simp add: fuel_le_def)

lemma fuel_le_NoFuel [simp]: "fuel_le NoFuel r"
  by (simp add: fuel_le_def)

lemma fuel_leD: "fuel_le r r' \<Longrightarrow> r = Ret a s \<Longrightarrow> r' = Ret a s"
  by (auto simp: fuel_le_def)

lemma fuel_le_bind [fuel_intros]:
  "fuel_le r r' \<Longrightarrow> (\<And>a s. fuel_le (f a s) (g a s)) \<Longrightarrow> fuel_le (res_bind r f) (res_bind r' g)"
  by (cases r) (auto simp: fuel_le_def)

lemma exec_code_more: "n \<le> m \<Longrightarrow> fuel_le (exec_code n P this cd fs c) (exec_code m P this cd fs c)"
proof (induction n P this cd fs c arbitrary: m rule: exec_code.induct)
  case (1 P this cd fs c)
  show ?case by simp
next
  case (2 n P this v c)
  then show ?case by (cases m) simp_all
next
  case (3 n P this v f fs c)
  then show ?case by (cases m) simp_all
next
  case (4 n P this e fs c)
  then show ?case by (cases m) simp_all
next
  case (5 n P this cd f fs c)
  then show ?case by (cases m) simp_all
next
  case (6 n P this r k fs c)
  then show ?case by (cases m) (auto intro: fuel_intros)
next
  case (7 n P this w f fs c)
  then show ?case by (cases m) (auto intro: fuel_intros split: option.split bool.split)
qed

lemma task_resume_more: "n \<le> m \<Longrightarrow> fuel_le (task_resume n P this t c) (task_resume m P this t c)"
  by (auto simp: task_resume_def intro: fuel_intros exec_code_more split: prod.split list.split option.split)

lemma run_task_more: "n \<le> m \<Longrightarrow> fuel_le (run_task n P this rp c) (run_task m P this rp c)"
  by (auto simp: run_task_def Let_def intro!: fuel_intros task_resume_more split: option.split)

lemma resume_more: "n \<le> m \<Longrightarrow> fuel_le (resume n P this c) (resume m P this c)"
proof (cases "heap c this")
  case (Some rp)
  assume "n \<le> m"
  then have "fuel_le (run_task n P this rp (cancel_timer this c)) (run_task m P this rp (cancel_timer this c))"
    by (rule run_task_more)
  then show ?thesis using Some by (auto simp: resume_def fuel_le_def)
qed (simp add: resume_def)

lemma rp_send_more: "n \<le> m \<Longrightarrow> fuel_le (rp_send n P this s v c) (rp_send m P this s v c)"
  by (auto simp: rp_send_def Let_def intro: resume_more split: option.split)

lemma processQueueItem_more: "n \<le> m \<Longrightarrow> fuel_le (processQueueItem n P i c) (processQueueItem m P i c)"
  unfolding processQueueItem_def
  by (rule fuel_le_bind) (auto intro: rp_send_more resume_more split: option.split)

lemma run_handler_more: "n \<le> m \<Longrightarrow> fuel_le (run_handler n P h c) (run_handler m P h c)"
  by (cases h) (auto intro: resume_more split: option.split)

section \<open>Rounds on the work queue\<close>

lemma processQueueItem_fun:
  assumes "processQueueItem n P i c = Ret () c1" and "processQueueItem m P i c = Ret () c2"
  shows "c1 = c2"
  using assms processQueueItem_more [of n "max n m" P i c] processQueueItem_more [of m "max n m" P i c]
  by (auto simp: fuel_le_def)

text \<open>A round that takes an item of the queue has one result.\<close>

lemma run_step_fun:
  assumes "queue c \<noteq> []" and "run_step S P c c1" and "run_step S P c c2"
  shows "c1 = c2"
  using assms by (auto elim!: run_stepE dest: processQueueItem_fun)

lemma run_steps_trans: "run_steps S P b c \<Longrightarrow> run_steps S P a b \<Longrightarrow> run_steps S P a c"
  by (induction rule: run_steps.induct) (auto intro: run_steps.run_trans)

lemma run_step_first: "run_step S P a b \<Longrightarrow> run_steps S P b c \<Longrightarrow> run_steps S P a c"
  by (rule run_steps_trans) (auto intro: run_steps.intros)

section \<open>Runs with one course\<close>

text \<open>From \<open>a\<close> to \<open>b\<close> by rounds that all find the queue filled, through states with the property \<open>Q\<close>.\<close>

inductive queue_run :: "(('st, 'm) SpawnSpec \<Rightarrow> bool) \<Rightarrow> ('st, 'm) program \<Rightarrow> (('st, 'm) Context \<Rightarrow> bool) \<Rightarrow>
    ('st, 'm) Context \<Rightarrow> ('st, 'm) Context \<Rightarrow> bool"
  for S :: "('st, 'm) SpawnSpec \<Rightarrow> bool" and P :: "('st, 'm) program" and Q :: "('st, 'm) Context \<Rightarrow> bool" where
  qr_refl: "Q c \<Longrightarrow> queue_run S P Q c c"
| qr_step: "Q c \<Longrightarrow> queue c \<noteq> [] \<Longrightarrow> run_step S P c c' \<Longrightarrow> queue_run S P Q c' c'' \<Longrightarrow> queue_run S P Q c c''"

lemma queue_run_trans: "queue_run S P Q a b \<Longrightarrow> queue_run S P Q b c \<Longrightarrow> queue_run S P Q a c"
  by (induction rule: queue_run.induct) (auto intro: queue_run.qr_step)

lemma queue_run_item:
  assumes "run_again c" and "queue c = i # is" and "processQueueItem n P i (c\<lparr>queue := is\<rparr>) = Ret () c'"
    and "Q c" and "Q (destroy_all c')"
  shows "queue_run S P Q c (destroy_all c')"
  using assms by (auto intro: queue_run.intros run_step.item)

lemma queue_run_start: "queue_run S P Q a b \<Longrightarrow> Q a"
  by (induction rule: queue_run.induct)

lemma queue_run_steps: "queue_run S P Q a b \<Longrightarrow> run_steps S P a b"
  by (induction rule: queue_run.induct) (auto intro: run_steps.run_refl run_step_first)

text \<open>
  All runs from \<open>a\<close> end in \<open>b\<close>: the loop is left in \<open>b\<close>, no run goes on forever, and whatever rounds have
  been made from \<open>a\<close>, there are more that lead to \<open>b\<close>; in particular no round gets stuck before. All states on
  the way have the property \<open>Q\<close>.
\<close>

definition must_reach :: "(('st, 'm) SpawnSpec \<Rightarrow> bool) \<Rightarrow> ('st, 'm) program \<Rightarrow> (('st, 'm) Context \<Rightarrow> bool) \<Rightarrow>
    ('st, 'm) Context \<Rightarrow> ('st, 'm) Context \<Rightarrow> bool" where
  "must_reach S P Q a b \<longleftrightarrow> \<not> run_again b \<and> (\<forall>c. run_steps S P a c \<longrightarrow> Q c \<and> run_steps S P c b)
     \<and> (\<nexists>f. f 0 = a \<and> (\<forall>i. run_step S P (f i) (f (Suc i))))"

lemma queue_run_next:
  assumes "queue_run S P Q a b" and "\<not> run_again b" and "run_step S P a c"
  shows "queue_run S P Q c b"
  using assms
proof (induction rule: queue_run.induct)
  case (qr_refl c)
  then show ?case by (auto elim!: run_stepE)
next
  case (qr_step a c' c'')
  then show ?case using run_step_fun by metis
qed

lemma queue_run_finite:
  assumes "queue_run S P Q a b" and "\<not> run_again b"
  shows "f 0 = a \<Longrightarrow> \<exists>i. \<not> run_step S P (f i) (f (Suc i))"
  using assms
proof (induction arbitrary: f rule: queue_run.induct)
  case (qr_refl c)
  then show ?case by (auto elim!: run_stepE intro!: exI [of _ 0])
next
  case (qr_step c c' c'')
  show ?case
  proof (cases "run_step S P (f 0) (f 1)")
    case True
    then have "f 1 = c'" using qr_step.hyps qr_step.prems(1) run_step_fun by blast
    then show ?thesis using qr_step.IH [of "\<lambda>i. f (Suc i)"] qr_step.prems(2) by auto
  qed (metis One_nat_def)
qed

lemma queue_run_must: "queue_run S P Q a b \<Longrightarrow> \<not> run_again b \<Longrightarrow> must_reach S P Q a b"
proof -
  assume q: "queue_run S P Q a b" and b: "\<not> run_again b"
  have "queue_run S P Q c b" if "run_steps S P a c" for c
    using that q by (induction rule: run_steps.induct) (auto intro: queue_run_next [OF _ b])
  then have "run_steps S P a c \<longrightarrow> Q c \<and> run_steps S P c b" for c by (blast intro: queue_run_steps queue_run_start)
  then show ?thesis using b queue_run_finite [OF q b] unfolding must_reach_def by blast
qed

end
