(* ===== verification/Programs.thy ===== *)
theory Programs
  imports Runs
begin

text \<open>
  Writing and running concrete programs. Process code gets the value of every request as an answer; the
  functions below take the value out of the answer, as the types of the code do. The lemmas evaluate
  spawns, deliveries and resumes of processes that only wait for messages.
\<close>

section \<open>Answers of the expected type\<close>

definition with_pid :: "(Pid \<Rightarrow> ('st, 'm) code) \<Rightarrow> 'm Answer \<Rightarrow> ('st, 'm) code" where
  "with_pid k v = (case v of APid p \<Rightarrow> k p | _ \<Rightarrow> CoThrow ''pid expected'')"

definition with_addr :: "(SendAddress \<Rightarrow> ('st, 'm) code) \<Rightarrow> 'm Answer \<Rightarrow> ('st, 'm) code" where
  "with_addr k v = (case v of AAddr a \<Rightarrow> k a | _ \<Rightarrow> CoThrow ''address expected'')"

definition with_bool :: "(bool \<Rightarrow> ('st, 'm) code) \<Rightarrow> 'm Answer \<Rightarrow> ('st, 'm) code" where
  "with_bool k v = (case v of ABool b \<Rightarrow> k b | _ \<Rightarrow> CoThrow ''bool expected'')"

definition with_msg :: "('m \<Rightarrow> ('st, 'm) code) \<Rightarrow> 'm Answer \<Rightarrow> ('st, 'm) code" where
  "with_msg k v = (case v of AMsg (MVal m) \<Rightarrow> k m | _ \<Rightarrow> CoThrow ''message expected'')"

lemma with_simps [simp]:
  "with_pid k (APid p) = k p" "with_addr f (AAddr a) = f a" "with_bool g (ABool b) = g b"
  "with_msg h (AMsg (MVal m)) = h m"
  by (simp_all add: with_pid_def with_addr_def with_bool_def with_msg_def)

text \<open>The address of a member slot of the process itself.\<close>

definition own_slot :: "string \<Rightarrow> string \<Rightarrow> (SendAddress \<Rightarrow> ('st, 'm) code) \<Rightarrow> ('st, 'm) code" where
  "own_slot cls slot k = CoCall CPid (with_pid (\<lambda>own. CoCall (CMakeSendAddress own cls slot) (with_addr k)))"

section \<open>Spawning into a table without gaps\<close>

definition pid_at :: "nat \<Rightarrow> Pid" where
  "pid_at j = \<lparr>idx = of_nat j, version = 0\<rparr>"

lemma unat_pid_at [simp]: "j < 2 ^ 64 \<Longrightarrow> unat (idx (pid_at j)) = j"
  by (simp add: pid_at_def unat_of_nat)

lemma version_pid_at [simp]: "version (pid_at j) = 0"
  by (simp add: pid_at_def)

definition member_ids :: "string list \<Rightarrow> SlotId \<Rightarrow> (string \<times> SlotId) list" where
  "member_ids ns k = zip ns [k..<k + length ns]"

definition member_slots :: "addr \<Rightarrow> string list \<Rightarrow> SlotId \<Rightarrow> ('m Message, handler) slots" where
  "member_slots a ns k = rev (map (\<lambda>i. (i, Slot_init a)) [k..<k + length ns])"

lemma new_members_eq:
  "new_members a ns p c =
     (p\<lparr>pr_members := pr_members p @ member_ids ns (next_slot c)\<rparr>,
      c\<lparr>slots := member_slots a ns (next_slot c) @ slots c, next_slot := next_slot c + length ns\<rparr>)"
proof (induction ns arbitrary: p c)
  case Nil
  show ?case by (simp add: member_ids_def member_slots_def)
next
  case (Cons n ns)
  have "[next_slot c..<next_slot c + length (n # ns)] = next_slot c # [Suc (next_slot c)..<Suc (next_slot c) + length ns]"
    by (simp add: upt_rec [of "next_slot c"]) (simp add: Suc_le_eq)
  then show ?case
    by (simp add: new_slot_def Cons.IH member_ids_def member_slots_def del: upt_Suc)
qed

text \<open>The object of a process that has just been spawned, with its member slots numbered from \<open>k\<close>.\<close>

definition spawned_object :: "ProcessArgs \<Rightarrow> ('st, 'm) SpawnSpec \<Rightarrow> SlotId \<Rightarrow> ('st, 'm) RunningProcess" where
  "spawned_object args sp k =
     \<lparr>dead = False, rp_pid = pa_pid args,
      rp_process = (Process_init args (sp_classes sp))\<lparr>pr_members := member_ids (sp_members sp) k\<rparr>,
      task = Some (None, [sp_start sp]), lastWaiting = None, resumes = 0\<rparr>"

text \<open>Spawning when no index can be reused.\<close>

definition spawned_context :: "ProcessArgs \<Rightarrow> ('st, 'm) SpawnSpec \<Rightarrow> ('st, 'm) Context \<Rightarrow> ('st, 'm) Context" where
  "spawned_context args sp c =
     c\<lparr>next_addr := Suc (next_addr c),
       heap := (heap c)(next_addr c \<mapsto> spawned_object args sp (next_slot c)),
       processes := processes c @ [Some (next_addr c)],
       slots := member_slots (next_addr c) (sp_members sp) (next_slot c) @ slots c,
       next_slot := next_slot c + length (sp_members sp),
       queue := queue c @ [\<lparr>ti_pid = pa_pid args, ti_resume = Some 0, ti_message = None\<rparr>]\<rparr>"

lemma Process_init_members: "pr_members (Process_init args cls) = []"
  by (simp add: Process_init_def addKillOnDie_def Let_def split: option.split)

lemma spawnWith_fresh:
  assumes "tombstones c = []" and "length (processes c) < vector_max_size" and "sp_links sp = []"
    and "sp_throws sp = None" and "\<And>a. pa_pid (f a) = pa_pid a"
  shows "spawnWith f sp c = Ret (pid_at (length (processes c)))
    (spawned_context (f (ProcessArgs_init (pid_at (length (processes c))))) sp c)"
  using assms vector_max_size_less [of "length (processes c)"]
  by (simp add: spawnWith_def nextPid_def spawnArgs_def construct_def new_members_eq Let_def queueResume_def
      spawned_context_def spawned_object_def ProcessArgs_init_def pid_at_def unat_of_nat Process_init_members
      list_update_append)

lemma spawn_fresh:
  assumes "tombstones c = []" and "length (processes c) < vector_max_size" and "sp_links sp = []" and "sp_throws sp = None"
  shows "spawn sp c = Ret (pid_at (length (processes c)))
    (spawned_context (ProcessArgs_init (pid_at (length (processes c)))) sp c)"
  using spawnWith_fresh [OF assms, of "\<lambda>a. a"] by (simp add: spawn_def spawnWith_def)

section \<open>Slots that are filled and emptied\<close>

lemma set_slot_queue_twice [simp]: "set_slot_queue i q (set_slot_queue i q' st) = set_slot_queue i q st"
  by (simp add: set_slot_queue_def comp_def case_prod_beta)

text \<open>A message pushed into an empty queue and popped again leaves no trace.\<close>

lemma mq_pop_single: "mq_pop (mq_push m MessageQueue_init) = Some (m, MessageQueue_init, [])"
  by (simp add: mq_pop_def mq_push_def MessageQueue_init_def mq_size_def kThrottle_def)

lemma mq_empty_single [simp]: "mq_empty MessageQueue_init" "\<not> mq_empty (mq_push m MessageQueue_init)"
  by (simp_all add: mq_empty_def mq_size_def mq_push_def MessageQueue_init_def)

lemma set_slot_queue_same:
  "(\<And>s. (i, s) \<in> set st \<Longrightarrow> messages s = q) \<Longrightarrow> set_slot_queue i q st = st"
  by (induction st) (auto simp: set_slot_queue_def)

definition slots_empty :: "('a, 'h) slots \<Rightarrow> bool" where
  "slots_empty st \<longleftrightarrow> (\<forall>(i, s) \<in> set st. messages s = MessageQueue_init)"

lemma slots_empty_queue: "slots_empty st \<Longrightarrow> slot_queue st i = Some q \<Longrightarrow> q = MessageQueue_init"
  by (auto simp: slots_empty_def slot_queue_def dest: map_of_SomeD)

text \<open>One slot that is empty.\<close>

definition slot_empty :: "('a, 'h) slots \<Rightarrow> SlotId \<Rightarrow> bool" where
  "slot_empty st i \<longleftrightarrow> (\<forall>(j, s) \<in> set st. j = i \<longrightarrow> messages s = MessageQueue_init)"

lemma slots_empty_slot: "slots_empty st \<Longrightarrow> slot_empty st i"
  by (auto simp: slots_empty_def slot_empty_def)

lemma slot_empty_queue: "slot_empty st i \<Longrightarrow> slot_queue st i = Some q \<Longrightarrow> q = MessageQueue_init"
  by (auto simp: slot_empty_def slot_queue_def dest: map_of_SomeD)

lemma slot_empty_set: "slot_empty st i \<Longrightarrow> set_slot_queue i MessageQueue_init st = st"
  by (rule set_slot_queue_same) (auto simp: slot_empty_def)

lemma recv_not_ready_slot:
  "slot_empty st (sa_slot a) \<Longrightarrow> slot_queue st (sa_slot a) \<noteq> None \<Longrightarrow> await_ready st pr (underlying (recv a)) = Some False"
  by (auto simp: recv_def any_ready_def dest: slot_empty_queue)

lemma recv_not_ready:
  "slots_empty st \<Longrightarrow> slot_queue st (sa_slot a) \<noteq> None \<Longrightarrow> await_ready st pr (underlying (recv a)) = Some False"
  by (rule recv_not_ready_slot [OF slots_empty_slot])

lemma recv_single:
  assumes "slot_empty (slots c) (sa_slot a)" and "slot_queue (slots c) (sa_slot a) \<noteq> None"
  shows "finish_await (recv a) (c\<lparr>slots := set_slot_queue (sa_slot a) (mq_push m MessageQueue_init) (slots c)\<rparr>)
    = Ret (AMsg m) c"
proof -
  have "slot_queue (slots c) (sa_slot a) = Some MessageQueue_init"
    using assms by (auto dest: slot_empty_queue)
  then have "slot_queue (set_slot_queue (sa_slot a) (mq_push m MessageQueue_init) (slots c)) (sa_slot a)
      = Some (mq_push m MessageQueue_init)"
    by (simp add: slot_queue_set)
  then show ?thesis
    using slot_empty_set [OF assms(1)]
    by (simp add: finish_await_def recv_def get_optional_def mq_pop_single WaitingMessage_result_def)
qed

section \<open>Items of the work queue\<close>

text \<open>Ten units of fuel, for code that makes a few requests.\<close>

lemma exec_code_10: "exec_code 10 P this cd fs c = exec_code (Suc (Suc (Suc (Suc (Suc (Suc (Suc (Suc (Suc (Suc 0)))))))))) P this cd fs c"
  by (simp add: eval_nat_numeral)

abbreviation resume_item :: "Pid \<Rightarrow> uint64 \<Rightarrow> 'm ToProcessItem" where
  "resume_item p k \<equiv> \<lparr>ti_pid = p, ti_resume = Some k, ti_message = None\<rparr>"

abbreviation message_item :: "SendAddress \<Rightarrow> 'm Message \<Rightarrow> 'm ToProcessItem" where
  "message_item a m \<equiv> \<lparr>ti_pid = sa_pid a, ti_resume = None, ti_message = Some (a, m)\<rparr>"

lemma res_bind_unit: "res_bind r Ret = r"
  by (cases r) simp_all

lemma process_resume_item:
  "findProc p c = Some a \<Longrightarrow> heap c a = Some rp \<Longrightarrow> resumes rp = k \<Longrightarrow>
   processQueueItem n P (resume_item p k) c = resume n P a c"
  by (simp add: processQueueItem_def)

lemma process_item_gone:
  "findProc p c = None \<Longrightarrow> processQueueItem n P (resume_item p k) c = Ret () c"
  "findProc (sa_pid s) c = None \<Longrightarrow> processQueueItem n P (message_item s m) c = Ret () c"
  by (simp_all add: processQueueItem_def)

lemma process_message_item:
  assumes "findProc (sa_pid s) c = Some a" and "heap c a = Some rp" and "waitingFor rp (sa_slot s)"
    and "slot_empty (slots c) (sa_slot s)" and "slot_queue (slots c) (sa_slot s) \<noteq> None"
  shows "processQueueItem n P (message_item s m) c
    = resume n P a (c\<lparr>slots := set_slot_queue (sa_slot s) (mq_push m MessageQueue_init) (slots c)\<rparr>)"
proof -
  have "slot_queue (slots c) (sa_slot s) = Some MessageQueue_init" using assms(4,5) by (auto dest: slot_empty_queue)
  then show ?thesis using assms(1-3) by (simp add: processQueueItem_def rp_send_def Let_def res_bind_unit)
qed

section \<open>Processes without timers and promises\<close>

definition plain_wait :: "('st, 'm) RunningProcess \<Rightarrow> bool" where
  "plain_wait rp \<longleftrightarrow> (\<forall>w. lastWaiting rp = Some w \<longrightarrow> wakeOnFuture w = None)"

definition counted :: "addr \<Rightarrow> ('st, 'm) Context \<Rightarrow> ('st, 'm) Context" where
  "counted this c = upd_proc this (\<lambda>rp. rp\<lparr>resumes := resumes rp + 1\<rparr>) c"

definition no_wait :: "addr \<Rightarrow> ('st, 'm) Context \<Rightarrow> bool" where
  "no_wait a c \<longleftrightarrow> (\<forall>(b, t) \<in> set (waits c). b \<noteq> a)"

lemma no_wait_none: "waits c = [] \<Longrightarrow> no_wait a c"
  by (simp add: no_wait_def)

lemma run_task_plain:
  assumes "plain_wait rp" and "no_wait this c" and "task rp = Some t"
  shows "run_task n P this rp (cancel_timer this c) = task_resume n P this t (counted this c)"
proof -
  have "cancel_timer this c = c" using assms(2) by (auto simp: cancel_timer_def no_wait_def case_prod_beta)
  moreover have "process_last this rp c = Ret () c"
    using assms(1) by (auto simp: process_last_def plain_wait_def split: option.split)
  ultimately show ?thesis using assms(3) by (simp add: run_task_def counted_def Let_def)
qed

lemma resume_suspends:
  assumes "heap c this = Some rp" and "\<not> dead rp" and "plain_wait rp" and "no_wait this c" and "task rp = Some t"
    and "task_resume n P this t (counted this c) = Ret (Some (Some w, fs)) c'"
  shows "resume n P this c
    = arm this (underlying w) (upd_proc this (\<lambda>rp. rp\<lparr>lastWaiting := Some (underlying w), task := Some (Some w, fs)\<rparr>) c')"
  using assms run_task_plain [OF assms(3-5), of n P] by (simp add: resume_def)

lemma resume_ends:
  assumes "heap c this = Some rp" and "\<not> dead rp" and "plain_wait rp" and "no_wait this c" and "task rp = Some t"
    and "task_resume n P this t (counted this c) = Ret None c'"
  shows "resume n P this c
    = Ret () (addtoDestroy (rp_pid rp) '''' (upd_proc this (\<lambda>rp. rp\<lparr>lastWaiting := None, task := None\<rparr>) c'))"
  using assms run_task_plain [OF assms(3-5), of n P] by (simp add: resume_def)

lemma arm_recv: "heap c this \<noteq> None \<Longrightarrow> arm this (underlying (recv a)) c = Ret () c"
  by (auto simp: arm_def recv_def)

lemma destroy_all_nothing: "toDestroy c = [] \<Longrightarrow> destroy_all c = c"
  by (simp add: destroy_all.simps)

text \<open>A process that dies without links and notifications.\<close>

lemma destroy_all_lone:
  assumes "toDestroy c = [(a, s)]" and "heap c a = Some rp" and "killOnDie (rp_process rp) = []" and "notifyOnDie (rp_process rp) = []"
  shows "destroy_all c = delete_process a (c\<lparr>toDestroy := []\<rparr>)"
proof -
  have "destroy_front c = delete_process a (c\<lparr>toDestroy := []\<rparr>)"
    using assms by (simp add: destroy_front_def destroy_def Let_def)
  then show ?thesis
    using assms(1) by (subst destroy_all.simps) (simp add: destroy_all_nothing delete_process_def)
qed

section \<open>One item wakes one process\<close>

text \<open>
  The item \<open>it\<close> makes the process \<open>rp\<close> go on in the frame \<open>f\<close> with the value \<open>v\<close>: it starts the process, or it
  brings the message the process waits for, or it ends a yield.
\<close>

inductive woken :: "('m Message, handler) slots \<Rightarrow> ('st, 'm) RunningProcess \<Rightarrow> 'm ToProcessItem \<Rightarrow>
    ('st, 'm) frame \<Rightarrow> ('st, 'm) frame list \<Rightarrow> 'm Answer \<Rightarrow> bool"
  for st :: "('m Message, handler) slots" and rp :: "('st, 'm) RunningProcess" where
  starts: "task rp = Some (None, f # fs) \<Longrightarrow> lastWaiting rp = None \<Longrightarrow>
     woken st rp (resume_item (rp_pid rp) (resumes rp)) f fs AUnit"
| receives: "task rp = Some (Some (recv s), f # fs) \<Longrightarrow> lastWaiting rp = Some (WaitingMessages [s]) \<Longrightarrow>
     sa_pid s = rp_pid rp \<Longrightarrow> slot_queue st (sa_slot s) \<noteq> None \<Longrightarrow> woken st rp (message_item s m) f fs (AMsg m)"
| goes_on: "task rp = Some (Some (AWaiting w), f # fs) \<Longrightarrow> lastWaiting rp = Some w \<Longrightarrow> w = WaitingYield \<or> w = WaitingMaybe b \<Longrightarrow>
     woken st rp (resume_item (rp_pid rp) (resumes rp)) f fs AUnit"

lemma woken_resumes:
  assumes "woken (slots c) rp it f fs v" and "findProc (rp_pid rp) c = Some i" and "heap c i = Some rp"
    and "\<And>s m. it = message_item s m \<Longrightarrow> slot_empty (slots c) (sa_slot s)"
  obtains c0 t where "processQueueItem n P it c = resume n P i c0" and "heap c0 = heap c" and "waits c0 = waits c"
    and "task rp = Some t" and "plain_wait rp"
    and "task_resume n P i t (counted i c0) = exec_code n P i (frame_code P f v) fs (counted i c)"
  using assms(1)
proof cases
  case starts
  then show ?thesis
    using that [of c "(None, f # fs)"] process_resume_item [OF assms(2,3)] assms(3)
    by (simp add: task_resume_def plain_wait_def)
next
  case (receives s m)
  let ?c = "c\<lparr>slots := set_slot_queue (sa_slot s) (mq_push m MessageQueue_init) (slots c)\<rparr>"
  have s: "slots (counted i c) = slots c" by (simp add: counted_def upd_proc_def)
  have "counted i ?c = (counted i c)\<lparr>slots := set_slot_queue (sa_slot s) (mq_push m MessageQueue_init) (slots c)\<rparr>"
    by (simp add: counted_def upd_proc_def)
  then have "finish_await (recv s) (counted i ?c) = Ret (AMsg m) (counted i c)"
    using recv_single [of "counted i c" s m] assms(4) [OF receives(1)] receives s by simp
  then have "task_resume n P i (Some (recv s), f # fs) (counted i ?c) = exec_code n P i (frame_code P f v) fs (counted i c)"
    using receives by (simp add: task_resume_def)
  moreover have "processQueueItem n P it c = resume n P i ?c"
    unfolding receives(1) by (rule process_message_item [OF _ assms(3) _ assms(4) [OF receives(1)]])
      (use receives assms(2) in \<open>simp_all add: waitingFor_def\<close>)
  ultimately show ?thesis using that [of ?c] receives by (simp add: plain_wait_def)
next
  case (goes_on w b)
  have "finish_await (AWaiting w) (counted i c) = Ret AUnit (counted i c)"
    using goes_on(5) by (auto simp: finish_await_def Let_def)
  then show ?thesis
    using that [of c "(Some (AWaiting w), f # fs)"] process_resume_item [OF assms(2,3)] goes_on
    by (auto simp: task_resume_def plain_wait_def)
qed

lemma item_suspends_slot:
  assumes "woken (slots c) rp it f fs v" and "findProc (rp_pid rp) c = Some i" and "heap c i = Some rp"
    and "\<And>s m. it = message_item s m \<Longrightarrow> slot_empty (slots c) (sa_slot s)" and "\<not> dead rp" and "no_wait i c"
    and "exec_code n P i (frame_code P f v) fs (counted i c) = Ret (Some (Some w, gs)) c'"
  shows "processQueueItem n P it c
    = arm i (underlying w) (upd_proc i (\<lambda>rp. rp\<lparr>lastWaiting := Some (underlying w), task := Some (Some w, gs)\<rparr>) c')"
proof -
  obtain c0 t where "processQueueItem n P it c = resume n P i c0" and "heap c0 = heap c" and "waits c0 = waits c"
    and "task rp = Some t" and "plain_wait rp"
    and "task_resume n P i t (counted i c0) = exec_code n P i (frame_code P f v) fs (counted i c)"
    using assms(1-4) by (rule woken_resumes)
  then show ?thesis using resume_suspends [of c0 i rp t] assms by (simp add: no_wait_def)
qed

lemma item_suspends:
  assumes "woken (slots c) rp it f fs v" and "findProc (rp_pid rp) c = Some i" and "heap c i = Some rp"
    and "slots_empty (slots c)" and "\<not> dead rp" and "waits c = []"
    and "exec_code n P i (frame_code P f v) fs (counted i c) = Ret (Some (Some w, gs)) c'"
  shows "processQueueItem n P it c
    = arm i (underlying w) (upd_proc i (\<lambda>rp. rp\<lparr>lastWaiting := Some (underlying w), task := Some (Some w, gs)\<rparr>) c')"
  by (rule item_suspends_slot [OF assms(1-3) slots_empty_slot [OF assms(4)] assms(5) no_wait_none [OF assms(6)] assms(7)])

lemma item_ends:
  assumes "woken (slots c) rp it f fs v" and "findProc (rp_pid rp) c = Some i" and "heap c i = Some rp"
    and "slots_empty (slots c)" and "\<not> dead rp" and "waits c = []"
    and "exec_code n P i (frame_code P f v) fs (counted i c) = Ret None c'"
  shows "processQueueItem n P it c
    = Ret () (addtoDestroy (rp_pid rp) '''' (upd_proc i (\<lambda>rp. rp\<lparr>lastWaiting := None, task := None\<rparr>) c'))"
proof -
  obtain c0 t where "processQueueItem n P it c = resume n P i c0" and "heap c0 = heap c" and "waits c0 = waits c"
    and "task rp = Some t" and "plain_wait rp"
    and "task_resume n P i t (counted i c0) = exec_code n P i (frame_code P f v) fs (counted i c)"
    using assms(1-3) slots_empty_slot [OF assms(4)] by (rule woken_resumes)
  then show ?thesis using resume_ends [of c0 i rp t] assms by (simp add: no_wait_none)
qed


lemma item_throws:
  assumes "woken (slots c) rp it f fs v" and "findProc (rp_pid rp) c = Some i" and "heap c i = Some rp"
    and "slots_empty (slots c)" and "\<not> dead rp" and "waits c = []"
    and "exec_code n P i (frame_code P f v) fs (counted i c) = Throw e c'"
  shows "processQueueItem n P it c
    = Ret () (addtoDestroy (rp_pid rp) (concatString [PStr ''Caught exception: '', PStr e]) c')"
proof -
  obtain c0 t where "processQueueItem n P it c = resume n P i c0" and "heap c0 = heap c" and "waits c0 = waits c"
    and "task rp = Some t" and "plain_wait rp"
    and "task_resume n P i t (counted i c0) = exec_code n P i (frame_code P f v) fs (counted i c)"
    using assms(1-3) slots_empty_slot [OF assms(4)] by (rule woken_resumes)
  then show ?thesis using run_task_plain [of rp i c0 t n P] assms by (simp add: resume_def no_wait_none)
qed

end
