(* ===== verification/Example_Count.thy ===== *)
theory Example_Count
  imports Programs
begin

text \<open>
  \<open>examples/count.cpp\<close>: counting by processes. A \<open>Counter\<close> that has not reached the maximum spawns the
  next one, sends it its value and waits for the answer; the last one answers, and the answers run back.
  The example exercises spawn, addresses, delivery, resume and destruction together; the theorem is about
  the run of the whole program, from the spawn of the first counter to the end of \<open>Context::run\<close>.
\<close>

section \<open>Counter\<close>

text \<open>
  The frames of \<open>Counter::run\<close> with the members \<open>kMax\<close> and \<open>target\<close> of the process: before the first
  resume, waiting for the value of the parent, and waiting for the result of the subprocess.
  The static counter of log lines has no other use and is left out with the logging.
\<close>

datatype CounterFrame =
    CounterStart int "Pid option"
  | CounterAsked int "Pid option"
  | CounterWaits int "Pid option" int

definition Counter_spec :: "int \<Rightarrow> Pid option \<Rightarrow> (CounterFrame, int) SpawnSpec" where
  "Counter_spec kMax target =
     \<lparr>sp_classes = [''Counter'', ''Process''], sp_members = [''from_parent_process'', ''from_sub_process''],
      sp_links = [], sp_throws = None, sp_start = UserFrame (CounterStart kMax target)\<rparr>"

text \<open>The end of \<open>run\<close>: send back upstream.\<close>

definition Counter_back :: "Pid option \<Rightarrow> int \<Rightarrow> (CounterFrame, int) code" where
  "Counter_back target our_value =
     (case target of
        None \<Rightarrow> CoReturn AUnit
      | Some t \<Rightarrow>
          CoCall (CMakeSendAddress t ''Counter'' ''from_sub_process'') (with_addr (\<lambda>a.
            CoCall (CSend a (MVal our_value)) (\<lambda>_. CoReturn AUnit))))"

text \<open>The middle of \<open>run\<close>, once the value is known.\<close>

definition Counter_count :: "int \<Rightarrow> Pid option \<Rightarrow> int \<Rightarrow> (CounterFrame, int) code" where
  "Counter_count kMax target our_value =
     (if our_value < kMax
      then
        CoCall CPid (with_pid (\<lambda>own.
          CoCall (CSpawn (Counter_spec kMax (Some own))) (with_pid (\<lambda>pid.
            CoCall (CMakeSendAddress pid ''Counter'' ''from_parent_process'') (with_addr (\<lambda>a.
              CoCall (CSend a (MVal our_value)) (\<lambda>_.
                own_slot ''Counter'' ''from_sub_process'' (\<lambda>s.
                  CoAwait (recv s) (UserFrame (CounterWaits kMax target our_value))))))))))
      else Counter_back target our_value)"

fun Counter_run :: "(CounterFrame, int) program" where
  "Counter_run (CounterStart kMax target) v =
     (if target \<noteq> None
      then own_slot ''Counter'' ''from_parent_process'' (\<lambda>s. CoAwait (recv s) (UserFrame (CounterAsked kMax target)))
      else Counter_count kMax target 0)"
| "Counter_run (CounterAsked kMax target) v = with_msg (\<lambda>m. Counter_count kMax target (m + 1)) v"
| "Counter_run (CounterWaits kMax target our_value) v =
     with_msg (\<lambda>subprocess_result.
       if our_value + 1 \<noteq> subprocess_result then CoThrow ''unexpected''
       else Counter_back target our_value) v"

section \<open>The states of the run\<close>

definition up :: "nat \<Rightarrow> Pid option" where
  "up j = (if j = 0 then None else Some (pid_at (j - 1)))"

definition parent_slot :: "nat \<Rightarrow> SendAddress" where
  "parent_slot j = \<lparr>sa_pid = pid_at j, sa_slot = 2 * j\<rparr>"

definition sub_slot :: "nat \<Rightarrow> SendAddress" where
  "sub_slot j = \<lparr>sa_pid = pid_at j, sa_slot = Suc (2 * j)\<rparr>"

definition counter_process :: "nat \<Rightarrow> Process" where
  "counter_process j =
     \<lparr>pr_pid = pid_at j, killOnDie = [], notifyOnDie = [], pr_classes = [''Counter'', ''Process''],
      pr_members = [(''from_parent_process'', 2 * j), (''from_sub_process'', Suc (2 * j))]\<rparr>"

text \<open>Counter \<open>j\<close> before its first resume, waiting for its parent, waiting for its child.\<close>

definition fresh_counter :: "nat \<Rightarrow> nat \<Rightarrow> (CounterFrame, int) RunningProcess" where
  "fresh_counter k j =
     \<lparr>dead = False, rp_pid = pid_at j, rp_process = counter_process j,
      task = Some (None, [UserFrame (CounterStart (int k) (up j))]), lastWaiting = None, resumes = 0\<rparr>"

definition asked_counter :: "nat \<Rightarrow> nat \<Rightarrow> (CounterFrame, int) RunningProcess" where
  "asked_counter k j =
     \<lparr>dead = False, rp_pid = pid_at j, rp_process = counter_process j,
      task = Some (Some (recv (parent_slot j)), [UserFrame (CounterAsked (int k) (up j))]),
      lastWaiting = Some (WaitingMessages [parent_slot j]), resumes = 1\<rparr>"

definition waiting_counter :: "nat \<Rightarrow> nat \<Rightarrow> (CounterFrame, int) RunningProcess" where
  "waiting_counter k j =
     \<lparr>dead = False, rp_pid = pid_at j, rp_process = counter_process j,
      task = Some (Some (recv (sub_slot j)), [UserFrame (CounterWaits (int k) (up j) (int j))]),
      lastWaiting = Some (WaitingMessages [sub_slot j]), resumes = (if j = 0 then 1 else 2)\<rparr>"

primrec counter_slots :: "nat \<Rightarrow> (int Message, handler) slots" where
  "counter_slots 0 = []"
| "counter_slots (Suc j) = (Suc (2 * j), Slot_init j) # (2 * j, Slot_init j) # counter_slots j"

text \<open>
  The context when the counters below \<open>n\<close> are alive, of \<open>m\<close> that were spawned, with the objects \<open>h\<close> and the
  work queue \<open>q\<close>.
\<close>

definition counting :: "nat \<Rightarrow> nat \<Rightarrow> (addr \<Rightarrow> (CounterFrame, int) RunningProcess option) \<Rightarrow>
    int ToProcessItem list \<Rightarrow> (CounterFrame, int) Context" where
  "counting n m h q =
     \<lparr>heap = h, next_addr = m, slots = counter_slots n, next_slot = 2 * m, promises = [], next_promise = 0,
      tombstones = map pid_at (rev [n..<m]), processes = map Some [0..<n] @ replicate (m - n) None,
      toDestroy = [], queue = q, posted = [], waits = []\<rparr>"

definition waiting_heap :: "nat \<Rightarrow> nat \<Rightarrow> addr \<Rightarrow> (CounterFrame, int) RunningProcess option" where
  "waiting_heap k n a = (if a < n then Some (waiting_counter k a) else None)"

lemma counting_simps [simp]:
  "heap (counting n m h q) = h" "slots (counting n m h q) = counter_slots n" "queue (counting n m h q) = q"
  "waits (counting n m h q) = []" "toDestroy (counting n m h q) = []" "posted (counting n m h q) = []"
  "promises (counting n m h q) = []" "next_slot (counting n m h q) = 2 * m" "next_addr (counting n m h q) = m"
  by (simp_all add: counting_def)

lemma counting_upd [simp]:
  "(counting n m h q)\<lparr>heap := h'\<rparr> = counting n m h' q" "(counting n m h q)\<lparr>queue := q'\<rparr> = counting n m h q'"
  "upd_proc a f (counting n m h q) = counting n m (h(a := map_option f (h a))) q"
  "counted a (counting n m h q) = counting n m (h(a := map_option (\<lambda>rp. rp\<lparr>resumes := resumes rp + 1\<rparr>) (h a))) q"
  by (simp_all add: counting_def upd_proc_def counted_def)

lemma counter_slots_empty [simp]: "slots_empty (counter_slots n)"
  by (induction n) (auto simp: slots_empty_def Slot_init_def)

lemma map_of_counter_slots:
  "map_of (counter_slots n) i = (if i div 2 < n then Some (Slot_init (i div 2)) else None)"
proof (induction n)
  case (Suc n)
  have "i = Suc (2 * n) \<or> i = 2 * n \<longleftrightarrow> i div 2 = n" by presburger
  with Suc show ?case by auto
qed simp

lemma counter_slot_exists [simp]:
  "slot_queue (counter_slots n) (sa_slot (parent_slot j)) = (if j < n then Some MessageQueue_init else None)"
  "slot_queue (counter_slots n) (sa_slot (sub_slot j)) = (if j < n then Some MessageQueue_init else None)"
  by (simp_all add: slot_queue_def map_of_counter_slots parent_slot_def sub_slot_def Slot_init_def)

lemma filter_counter_slots: "filter (\<lambda>(i, s). slot_parent s \<noteq> n) (counter_slots (Suc n)) = counter_slots n"
proof -
  have "filter (\<lambda>(i, s). slot_parent s \<noteq> n) (counter_slots j) = counter_slots j" if "j \<le> n" for j
    using that by (induction j) (auto simp: Slot_init_def)
  then show ?thesis by (simp add: Slot_init_def)
qed

lemma findProc_counting:
  assumes "j < n" and "n \<le> m" and "m < 2 ^ 64" and "h j = Some rp" and "rp_pid rp = pid_at j"
  shows "findProc (pid_at j) (counting n m h q) = Some j"
  using assms by (simp add: findProc_def counting_def nth_append)

lemma counter_process_simps [simp]:
  "''Counter'' \<in> set (pr_classes (counter_process j))"
  "map_of (pr_members (counter_process j)) ''from_parent_process'' = Some (2 * j)"
  "map_of (pr_members (counter_process j)) ''from_sub_process'' = Some (Suc (2 * j))"
  "killOnDie (counter_process j) = []" "notifyOnDie (counter_process j) = []"
  by (simp_all add: counter_process_def)

text \<open>A counter \<open>j\<close> of the table, whatever it does at the moment.\<close>

definition is_counter :: "nat \<Rightarrow> (CounterFrame, int) RunningProcess option \<Rightarrow> bool" where
  "is_counter j x \<longleftrightarrow> (\<exists>rp. x = Some rp \<and> rp_pid rp = pid_at j \<and> rp_process rp = counter_process j)"

lemma makeSendAddress_counting:
  assumes "is_counter j (h j)" and "j < n" and "n \<le> m" and "m < 2 ^ 64"
  shows "makeSendAddress (pid_at j) ''Counter'' ''from_parent_process'' (counting n m h q) = Ret (parent_slot j) (counting n m h q)"
    and "makeSendAddress (pid_at j) ''Counter'' ''from_sub_process'' (counting n m h q) = Ret (sub_slot j) (counting n m h q)"
  using assms findProc_counting [of j n m h]
  by (auto simp: is_counter_def makeSendAddress_def parent_slot_def sub_slot_def)

lemma genuine_counting:
  assumes "is_counter j (h j)" and "j < n"
  shows "addr_genuine (parent_slot j) (counting n m h q)" and "addr_genuine (sub_slot j) (counting n m h q)"
  using assms by (auto simp: addr_genuine_def map_of_counter_slots parent_slot_def sub_slot_def Slot_init_def is_counter_def)

lemma queueSend_counting: "queueSend a v (counting n m h q) = counting n m h (q @ [message_item a v])"
  by (simp add: queueSend_def counting_def)

lemma spawn_counting:
  assumes "n < vector_max_size"
  shows "spawn (Counter_spec (int k) (up n)) (counting n n h q)
    = Ret (pid_at n) (counting (Suc n) (Suc n) (h(n \<mapsto> fresh_counter k n)) (q @ [resume_item (pid_at n) 0]))"
proof -
  let ?c = "counting n n h q"
  have "spawn (Counter_spec (int k) (up n)) ?c = Ret (pid_at (length (processes ?c)))
      (spawned_context (ProcessArgs_init (pid_at (length (processes ?c)))) (Counter_spec (int k) (up n)) ?c)"
    using assms by (intro spawn_fresh) (simp_all add: counting_def Counter_spec_def)
  moreover have "[2 * n..<Suc (Suc (2 * n))] = [2 * n, Suc (2 * n)]" by simp
  ultimately show ?thesis
    by (simp add: counting_def spawned_context_def spawned_object_def Counter_spec_def ProcessArgs_init_def
        Process_init_def member_ids_def member_slots_def fresh_counter_def counter_process_def)
qed

declare counter_slots.simps [simp del]

section \<open>Requests of a counter\<close>

lemma do_call_counting:
  assumes "is_counter i (h i)"
  shows "do_call i CPid (counting n m h q) = Ret (APid (pid_at i)) (counting n m h q)"
    and "do_call i (CSpawn sp) (counting n m h q) = res_bind (spawn sp (counting n m h q)) (\<lambda>p c. Ret (APid p) c)"
    and "do_call i (CMakeSendAddress p cls slot) (counting n m h q)
      = res_bind (makeSendAddress p cls slot (counting n m h q)) (\<lambda>a c. Ret (AAddr a) c)"
    and "addr_genuine a (counting n m h q) \<Longrightarrow> do_call i (CSend a v) (counting n m h q)
      = Ret (ABool (waitOnQueue (counting n m h (q @ [message_item a v])))) (counting n m h (q @ [message_item a v]))"
  using assms by (auto simp: is_counter_def do_call_def send_def queueSend_counting Let_def)

lemma is_counter_fresh [simp]: "is_counter j (Some (fresh_counter k j))"
  by (simp add: is_counter_def fresh_counter_def)

lemma is_counter_asked [simp]: "is_counter j (Some (asked_counter k j))"
  by (simp add: is_counter_def asked_counter_def)

lemma is_counter_waiting [simp]: "is_counter j (Some (waiting_counter k j))"
  by (simp add: is_counter_def waiting_counter_def)

lemma is_counter_resumes [simp]: "is_counter j (Some (rp\<lparr>resumes := r\<rparr>)) \<longleftrightarrow> is_counter j (Some rp)"
  by (simp add: is_counter_def)

lemmas counting_calls = do_call_counting spawn_counting makeSendAddress_counting

text \<open>A counter below the maximum spawns the next one, tells it its value and waits.\<close>

lemma Counter_count_below:
  assumes "n < k" and "k < vector_max_size" and "is_counter n (h n)"
  shows "exec_code 10 P n (Counter_count (int k) t (int n)) [] (counting (Suc n) (Suc n) h [])
    = Ret (Some (Some (recv (sub_slot n)), [UserFrame (CounterWaits (int k) t (int n))]))
        (counting (Suc (Suc n)) (Suc (Suc n)) (h(Suc n \<mapsto> fresh_counter k (Suc n)))
          [resume_item (pid_at (Suc n)) 0, message_item (parent_slot (Suc n)) (MVal (int n))])"
proof -
  have b: "Suc n < vector_max_size" "Suc (Suc n) < 2 ^ 64" using assms(1,2) by (simp_all add: vector_max_size_def)
  let ?h = "h(Suc n \<mapsto> fresh_counter k (Suc n))"
  have i: "is_counter n (?h n)" "is_counter (Suc n) (?h (Suc n))" using assms(3) by simp_all
  have up: "Some (pid_at n) = up (Suc n)" by (simp add: up_def)
  show ?thesis
    using assms(1,3) b i
    by (simp add: Counter_count_def own_slot_def exec_code_10 up counting_calls
        genuine_counting recv_not_ready del: fun_upd_apply)
qed

text \<open>A counter that has a parent sends its value back and ends.\<close>

lemma Counter_back_up:
  assumes "is_counter j (h j)" and "is_counter (Suc j) (h (Suc j))" and "Suc j < n" and "n \<le> m" and "m < 2 ^ 64"
  shows "exec_code 10 P (Suc j) (Counter_back (up (Suc j)) v) [] (counting n m h [])
    = Ret None (counting n m h [message_item (sub_slot j) (MVal v)])"
  using assms by (simp add: Counter_back_def up_def exec_code_10 counting_calls genuine_counting)

lemma Counter_back_root: "exec_code 10 P 0 (Counter_back (up 0) v) [] c = Ret None c"
  by (simp add: Counter_back_def up_def exec_code_10)

section \<open>Rounds\<close>

lemma run_again_counting: "n \<le> m \<Longrightarrow> run_again (counting n m h q) \<longleftrightarrow> 0 < n"
  by (auto simp: run_again_def counting_def)

lemma slots_empty_silent: "slots_empty st \<Longrightarrow> concat (map (\<lambda>(i, s). mq_destroy (messages s)) (owned_slots a st)) = []"
  by (auto simp: slots_empty_def owned_slots_def mq_destroy_def MessageQueue_init_def EslangPromise_init_def
      setIfUnset_def set_promise_def)

text \<open>The newest counter is taken out of the table and its object deleted.\<close>

lemma delete_counting:
  assumes "n < m"
  shows "delete_process n ((counting (Suc n) m h q)\<lparr>
      processes := (map Some [0..<Suc n] @ replicate (m - Suc n) None)[n := None],
      tombstones := map pid_at (rev [Suc n..<m]) @ [pid_at n], toDestroy := []\<rparr>)
    = counting n m (h(n := None)) q"
proof -
  have "[n..<m] = n # [Suc n..<m]" using assms by (rule upt_conv_Cons)
  moreover have "(map Some [0..<Suc n] @ replicate (m - Suc n) None)[n := None] = map Some [0..<n] @ replicate (m - n) None"
    using assms by (simp add: list_update_append Suc_diff_Suc flip: replicate_Suc)
  ultimately show ?thesis
    using slots_empty_silent [OF counter_slots_empty, of n "Suc n"]
    by (simp add: delete_process_def counting_def filter_counter_slots)
qed

text \<open>Hardly any work is ever outstanding.\<close>

definition small_queue :: "(CounterFrame, int) Context \<Rightarrow> bool" where
  "small_queue c \<longleftrightarrow> length (queue c) \<le> 2"

lemma small_queue_counting [simp]: "small_queue (counting n m h q) \<longleftrightarrow> length q \<le> 2"
  by (simp add: small_queue_def)

text \<open>A round in which counter \<open>i\<close> runs until it waits again.\<close>

lemma round_suspends:
  assumes "woken (counter_slots n) rp it f [] v" and "h i = Some rp" and "is_counter i (Some rp)" and "\<not> dead rp"
    and "i < n" and "n \<le> m" and "m < 2 ^ 64" and "h' i = Some rp'" and "length q \<le> 1" and "length q' \<le> 2"
    and "exec_code 10 Counter_run i (frame_code Counter_run f v) [] (counting n m (h(i \<mapsto> rp\<lparr>resumes := resumes rp + 1\<rparr>)) q)
      = Ret (Some (Some (recv a), gs)) (counting n' m' h' q')"
  shows "queue_run S Counter_run small_queue (counting n m h (it # q))
    (counting n' m' (h'(i \<mapsto> rp'\<lparr>lastWaiting := Some (WaitingMessages [a]), task := Some (Some (recv a), gs)\<rparr>)) q')"
proof -
  let ?c = "counting n m h q"
  have p: "rp_pid rp = pid_at i" using assms(3) by (simp add: is_counter_def)
  have f: "findProc (rp_pid rp) ?c = Some i" unfolding p by (rule findProc_counting) (use assms p in simp_all)
  have "processQueueItem 10 Counter_run it ?c = arm i (underlying (recv a))
      (upd_proc i (\<lambda>rp. rp\<lparr>lastWaiting := Some (underlying (recv a)), task := Some (Some (recv a), gs)\<rparr>) (counting n' m' h' q'))"
    by (rule item_suspends [OF _ f]) (use assms in simp_all)
  then have "processQueueItem 10 Counter_run it ?c = Ret ()
      (counting n' m' (h'(i \<mapsto> rp'\<lparr>lastWaiting := Some (WaitingMessages [a]), task := Some (Some (recv a), gs)\<rparr>)) q')"
    using assms(8) by (simp add: arm_recv) (simp add: recv_def)
  then show ?thesis
    using queue_run_item [of "counting n m h (it # q)" it q 10 Counter_run _ small_queue S] assms(5,6,9,10)
    by (simp add: run_again_counting destroy_all_nothing)
qed

text \<open>A round in which the newest counter \<open>i\<close> ends.\<close>

lemma round_ends:
  assumes "woken (counter_slots (Suc i)) rp it f [] v" and "h i = Some rp" and "is_counter i (Some rp)" and "\<not> dead rp"
    and "i < m" and "m < 2 ^ 64" and "is_counter i (h' i)" and "length q \<le> 1" and "length q' \<le> 2"
    and "exec_code 10 Counter_run i (frame_code Counter_run f v) [] (counting (Suc i) m (h(i \<mapsto> rp\<lparr>resumes := resumes rp + 1\<rparr>)) q)
      = Ret None (counting (Suc i) m h' q')"
  shows "queue_run S Counter_run small_queue (counting (Suc i) m h (it # q)) (counting i m (h'(i := None)) q')"
proof -
  let ?c = "counting (Suc i) m h q"
  obtain rp' where r: "h' i = Some rp'" "rp_pid rp' = pid_at i" "rp_process rp' = counter_process i"
    using assms(7) by (auto simp: is_counter_def)
  let ?r = "rp'\<lparr>lastWaiting := None, task := None\<rparr>"
  let ?d = "addtoDestroy (pid_at i) '''' (counting (Suc i) m (h'(i \<mapsto> ?r)) q')"
  have p: "rp_pid rp = pid_at i" using assms(3) by (simp add: is_counter_def)
  have f: "findProc (rp_pid rp) ?c = Some i" unfolding p by (rule findProc_counting) (use assms p in simp_all)
  have "processQueueItem 10 Counter_run it ?c = Ret () (addtoDestroy (rp_pid rp) ''''
      (upd_proc i (\<lambda>rp. rp\<lparr>lastWaiting := None, task := None\<rparr>) (counting (Suc i) m h' q')))"
    by (rule item_ends [OF _ f]) (use assms in simp_all)
  then have e: "processQueueItem 10 Counter_run it ?c = Ret () ?d" using r p by simp
  have "findProc (pid_at i) (counting (Suc i) m (h'(i \<mapsto> ?r)) q') = Some i"
    by (rule findProc_counting [where rp = ?r]) (use assms r in simp_all)
  then have d: "?d = (counting (Suc i) m (h'(i \<mapsto> ?r\<lparr>dead := True\<rparr>)) q')
      \<lparr>processes := (map Some [0..<Suc i] @ replicate (m - Suc i) None)[i := None],
       toDestroy := [(i, '''')], tombstones := map pid_at (rev [Suc i..<m]) @ [pid_at i]\<rparr>"
    using assms(5,6) by (simp add: addtoDestroy_def) (simp add: counting_def)
  have "destroy_all ?d = delete_process i (?d\<lparr>toDestroy := []\<rparr>)"
    by (rule destroy_all_lone [where rp = "?r\<lparr>dead := True\<rparr>"]) (simp_all add: d r)
  also have "\<dots> = counting i m (h'(i := None)) q'"
    using delete_counting [OF assms(5), of "h'(i \<mapsto> ?r\<lparr>dead := True\<rparr>)" q'] by (simp add: d)
  finally show ?thesis
    using queue_run_item [of "counting (Suc i) m h (it # q)" it q 10 Counter_run ?d small_queue S] e assms(5,8,9)
    by (simp add: run_again_counting)
qed

section \<open>The run\<close>

text \<open>All counters below \<open>n\<close> wait for their child, and \<open>rp\<close> is counter \<open>n\<close>, the newest.\<close>

abbreviation growing :: "nat \<Rightarrow> nat \<Rightarrow> (CounterFrame, int) RunningProcess \<Rightarrow> int ToProcessItem list \<Rightarrow> (CounterFrame, int) Context" where
  "growing k n rp q \<equiv> counting (Suc n) (Suc n) ((waiting_heap k n)(n \<mapsto> rp)) q"

abbreviation asks :: "nat \<Rightarrow> int ToProcessItem" where
  "asks n \<equiv> message_item (parent_slot (Suc n)) (MVal (int n))"

abbreviation answers :: "nat \<Rightarrow> int ToProcessItem" where
  "answers n \<equiv> message_item (sub_slot n) (MVal (int (Suc n)))"

lemmas counter_states = fresh_counter_def asked_counter_def waiting_counter_def

lemma waiting_heap_Suc: "(waiting_heap k n)(n \<mapsto> waiting_counter k n) = waiting_heap k (Suc n)"
  by (auto simp: waiting_heap_def fun_eq_iff)

lemma waiting_heap_drop: "(waiting_heap k (Suc n))(n := None) = waiting_heap k n"
  by (auto simp: waiting_heap_def fun_eq_iff)

lemma is_counter_waiting_heap [simp]: "j < n \<Longrightarrow> is_counter j (waiting_heap k n j)"
  by (simp add: waiting_heap_def)

lemma woken_fresh: "woken st (fresh_counter k n) (resume_item (pid_at n) 0) (UserFrame (CounterStart (int k) (up n))) [] AUnit"
  using woken.starts [of "fresh_counter k n"] by (simp add: fresh_counter_def)

lemma woken_asked:
  "n < m \<Longrightarrow> woken (counter_slots m) (asked_counter k n) (message_item (parent_slot n) v) (UserFrame (CounterAsked (int k) (up n))) [] (AMsg v)"
  by (rule woken.receives) (simp_all add: asked_counter_def, simp add: parent_slot_def)

lemma woken_waiting:
  "n < m \<Longrightarrow> woken (counter_slots m) (waiting_counter k n) (message_item (sub_slot n) v) (UserFrame (CounterWaits (int k) (up n) (int n))) [] (AMsg v)"
  by (rule woken.receives) (simp_all add: waiting_counter_def, simp add: sub_slot_def)

lemma counters_alive [simp]: "\<not> dead (fresh_counter k n)" "\<not> dead (asked_counter k n)" "\<not> dead (waiting_counter k n)"
  by (simp_all add: counter_states)

lemma counters_resumes [simp]:
  "resumes (fresh_counter k n) = 0" "resumes (asked_counter k n) = 1"
  "resumes (waiting_counter k n) = (if n = 0 then 1 else 2)"
  by (simp_all add: counter_states)

text \<open>A counter below the maximum that knows its value spawns the next one.\<close>

lemma round_grows:
  assumes "n < k" and "k < vector_max_size" and "woken (counter_slots (Suc n)) rp it f [] v" and "is_counter n (Some rp)"
    and "\<not> dead rp" and "frame_code Counter_run f v = Counter_count (int k) (up n) (int n)"
    and "resumes rp + 1 = resumes (waiting_counter k n)"
  shows "queue_run S Counter_run small_queue (growing k n rp [it])
    (growing k (Suc n) (fresh_counter k (Suc n)) [resume_item (pid_at (Suc n)) 0, asks n])"
proof -
  let ?r = "rp\<lparr>resumes := resumes rp + 1\<rparr>"
  let ?w = "?r\<lparr>lastWaiting := Some (WaitingMessages [sub_slot n]),
    task := Some (Some (recv (sub_slot n)), [UserFrame (CounterWaits (int k) (up n) (int n))])\<rparr>"
  let ?h = "((waiting_heap k n)(n \<mapsto> ?r))(Suc n \<mapsto> fresh_counter k (Suc n))"
  have b: "Suc n < 2 ^ 64" using assms(1,2) by (simp add: vector_max_size_def)
  have "queue_run S Counter_run small_queue (growing k n rp [it])
    (counting (Suc (Suc n)) (Suc (Suc n)) (?h(n \<mapsto> ?w)) [resume_item (pid_at (Suc n)) 0, asks n])"
    using assms(3) by (rule round_suspends)
      (use assms(4-6) b Counter_count_below [OF assms(1,2), of "(waiting_heap k n)(n \<mapsto> ?r)" Counter_run "up n"] in simp_all)
  moreover have "?w = waiting_counter k n"
    using assms(4,5,7) by (cases rp) (simp add: is_counter_def waiting_counter_def)
  moreover have "?h(n \<mapsto> waiting_counter k n) = (waiting_heap k (Suc n))(Suc n \<mapsto> fresh_counter k (Suc n))"
    by (auto simp: waiting_heap_def fun_eq_iff)
  ultimately show ?thesis by simp
qed

lemma round_waits:
  assumes "Suc n \<le> k" and "k < vector_max_size"
  shows "queue_run S Counter_run small_queue (growing k (Suc n) (fresh_counter k (Suc n)) [resume_item (pid_at (Suc n)) 0, asks n])
    (growing k (Suc n) (asked_counter k (Suc n)) [asks n])"
proof -
  let ?r = "fresh_counter k (Suc n)\<lparr>resumes := resumes (fresh_counter k (Suc n)) + 1\<rparr>"
  let ?w = "?r\<lparr>lastWaiting := Some (WaitingMessages [parent_slot (Suc n)]),
    task := Some (Some (recv (parent_slot (Suc n))), [UserFrame (CounterAsked (int k) (up (Suc n)))])\<rparr>"
  let ?h = "(waiting_heap k (Suc n))(Suc n \<mapsto> ?r)"
  have b: "Suc (Suc n) < 2 ^ 64" using assms by (simp add: vector_max_size_def)
  have i: "is_counter (Suc n) (?h (Suc n))" by simp
  have "exec_code 10 Counter_run (Suc n) (Counter_run (CounterStart (int k) (up (Suc n))) AUnit) [] (counting (Suc (Suc n)) (Suc (Suc n)) ?h [asks n])
    = Ret (Some (Some (recv (parent_slot (Suc n))), [UserFrame (CounterAsked (int k) (up (Suc n)))])) (counting (Suc (Suc n)) (Suc (Suc n)) ?h [asks n])"
    using b i by (simp add: up_def own_slot_def exec_code_10 counting_calls recv_not_ready del: fun_upd_apply)
  then have "queue_run S Counter_run small_queue (growing k (Suc n) (fresh_counter k (Suc n)) [resume_item (pid_at (Suc n)) 0, asks n])
    (counting (Suc (Suc n)) (Suc (Suc n)) (?h(Suc n \<mapsto> ?w)) [asks n])"
    using b by (intro round_suspends [OF woken_fresh]) simp_all
  moreover have "?w = asked_counter k (Suc n)" by (simp add: counter_states)
  ultimately show ?thesis by simp
qed

text \<open>The last counter answers, and every answer ends the counter that waits for it.\<close>

lemma round_back:
  assumes "j < m" and "Suc j < m" and "m < 2 ^ 64" and "woken (counter_slots (Suc (Suc j))) rp it f [] v"
    and "is_counter (Suc j) (Some rp)" and "\<not> dead rp" and "frame_code Counter_run f v = Counter_back (up (Suc j)) (int (Suc j))"
  shows "queue_run S Counter_run small_queue (counting (Suc (Suc j)) m ((waiting_heap k (Suc j))(Suc j \<mapsto> rp)) [it])
    (counting (Suc j) m (waiting_heap k (Suc j)) [answers j])"
proof -
  let ?h = "(waiting_heap k (Suc j))(Suc j \<mapsto> rp\<lparr>resumes := resumes rp + 1\<rparr>)"
  have "exec_code 10 Counter_run (Suc j) (Counter_back (up (Suc j)) (int (Suc j))) [] (counting (Suc (Suc j)) m ?h [])
    = Ret None (counting (Suc (Suc j)) m ?h [answers j])"
    using assms(2,3,5) by (intro Counter_back_up) simp_all
  then have "queue_run S Counter_run small_queue (counting (Suc (Suc j)) m ((waiting_heap k (Suc j))(Suc j \<mapsto> rp)) [it])
    (counting (Suc j) m (?h(Suc j := None)) [answers j])"
    using assms by (intro round_ends [OF assms(4)]) simp_all
  moreover have "?h(Suc j := None) = waiting_heap k (Suc j)" by (auto simp: waiting_heap_def fun_eq_iff)
  ultimately show ?thesis by simp
qed

lemma round_root_ends:
  assumes "0 < m" and "m < 2 ^ 64" and "woken (counter_slots (Suc 0)) rp it f [] v" and "is_counter 0 (Some rp)" and "\<not> dead rp"
    and "frame_code Counter_run f v = Counter_back (up 0) (int 0)"
  shows "queue_run S Counter_run small_queue (counting (Suc 0) m ((waiting_heap k 0)(0 \<mapsto> rp)) [it]) (counting 0 m (\<lambda>_. None) [])"
proof -
  let ?h = "(waiting_heap k 0)(0 \<mapsto> rp\<lparr>resumes := resumes rp + 1\<rparr>)"
  have "queue_run S Counter_run small_queue (counting (Suc 0) m ((waiting_heap k 0)(0 \<mapsto> rp)) [it]) (counting 0 m (?h(0 := None)) [])"
    using assms by (intro round_ends [OF assms(3)]) (simp_all add: Counter_back_root)
  moreover have "?h(0 := None) = (\<lambda>_. None)" by (auto simp: waiting_heap_def fun_eq_iff)
  ultimately show ?thesis by simp
qed

lemma run_up:
  assumes "Suc n \<le> k" and "k < vector_max_size"
  shows "queue_run S Counter_run small_queue (growing k 0 (fresh_counter k 0) [resume_item (pid_at 0) 0])
    (growing k (Suc n) (asked_counter k (Suc n)) [asks n])"
  using assms(1)
proof (induction n)
  case 0
  have "queue_run S Counter_run small_queue (growing k 0 (fresh_counter k 0) [resume_item (pid_at 0) 0])
    (growing k (Suc 0) (fresh_counter k (Suc 0)) [resume_item (pid_at (Suc 0)) 0, asks 0])"
    by (rule round_grows [OF _ assms(2) woken_fresh]) (use 0 in \<open>simp_all add: up_def\<close>)
  then show ?case using round_waits [OF 0 assms(2)] by (rule queue_run_trans)
next
  case (Suc n)
  have "queue_run S Counter_run small_queue (growing k (Suc n) (asked_counter k (Suc n)) [asks n])
    (growing k (Suc (Suc n)) (fresh_counter k (Suc (Suc n))) [resume_item (pid_at (Suc (Suc n))) 0, asks (Suc n)])"
    by (rule round_grows [OF _ assms(2) woken_asked]) (use Suc.prems in \<open>simp_all add: add.commute\<close>)
  with round_waits [OF Suc.prems assms(2)] Suc.IH Suc.prems show ?case by (meson Suc_leD queue_run_trans)
qed

lemma run_down:
  assumes "m < 2 ^ 64" and "j < m"
  shows "queue_run S Counter_run small_queue (counting (Suc j) m (waiting_heap k (Suc j)) [answers j]) (counting 0 m (\<lambda>_. None) [])"
  using assms(2)
proof (induction j)
  case 0
  show ?case
    using round_root_ends [OF 0 assms(1) woken_waiting [of 0 "Suc 0" k "MVal 1"], of S k] by (simp add: waiting_heap_Suc)
next
  case (Suc j)
  have "queue_run S Counter_run small_queue (counting (Suc (Suc j)) m (waiting_heap k (Suc (Suc j))) [answers (Suc j)])
    (counting (Suc j) m (waiting_heap k (Suc j)) [answers j])"
    using round_back [OF _ Suc.prems assms(1) woken_waiting [of "Suc j" "Suc (Suc j)" k "MVal (int (Suc (Suc j)))"], of S k] Suc.prems
    by (simp add: waiting_heap_Suc)
  then show ?case using Suc.IH Suc.prems by (meson Suc_lessD queue_run_trans)
qed

lemma run_whole:
  assumes "k < vector_max_size"
  shows "queue_run S Counter_run small_queue (growing k 0 (fresh_counter k 0) [resume_item (pid_at 0) 0]) (counting 0 (Suc k) (\<lambda>_. None) [])"
proof (cases k)
  case 0
  then show ?thesis
    using round_root_ends [of "Suc 0" "fresh_counter k 0", OF _ _ woken_fresh] by (simp add: up_def Counter_count_def)
next
  case (Suc n)
  have b: "Suc (Suc n) < 2 ^ 64" using assms Suc by (simp add: vector_max_size_def)
  have "queue_run S Counter_run small_queue (growing k (Suc n) (asked_counter k (Suc n)) [asks n])
    (counting (Suc n) (Suc (Suc n)) (waiting_heap k (Suc n)) [answers n])"
    using b Suc by (intro round_back [OF _ _ _ woken_asked]) (simp_all add: Counter_count_def add.commute)
  moreover have "queue_run S Counter_run small_queue (counting (Suc n) (Suc (Suc n)) (waiting_heap k (Suc n)) [answers n])
    (counting 0 (Suc k) (\<lambda>_. None) [])"
    using run_down [OF b, of n S k] Suc by simp
  moreover have "Suc n \<le> k" using Suc by simp
  ultimately show ?thesis using run_up [OF _ assms, of n S] by (meson queue_run_trans)
qed

text \<open>
  \<open>run<T>\<close> and \<open>main\<close> of \<open>examples/count.cpp\<close> up to the call of \<open>Context::run\<close>, without the lines they log: a fresh
  context with one process of the class \<open>T\<close>, given by what its constructor makes of \<open>k\<close>.
\<close>

definition count_start :: "(int \<Rightarrow> ('st, 'm) SpawnSpec) \<Rightarrow> int \<Rightarrow> (Pid, ('st, 'm) Context) res" where
  "count_start T k = spawn (T k) Context_init"

definition count_main :: "(Pid, (CounterFrame, int) Context) res" where
  "count_main = count_start (\<lambda>k. Counter_spec k None) 5000000"

text \<open>C8: The counting example counts: started with any \<open>kMax\<close> of type \<open>int\<close> that is not negative, the loop of
  \<open>run\<close> ends, on every run and without getting stuck on the way; it ends after exactly
  \<open>kMax + 1\<close> counters were created, with all of them, their slots and all work items gone,
  and never more than two work items were outstanding.\<close>

theorem counter_counts_to_max:
  assumes "k < 2 ^ 31"
  shows "\<exists>c1 c2. count_start (\<lambda>k. Counter_spec k None) (int k) = Ret (pid_at 0) c1
    \<and> must_reach any_spec Counter_run (\<lambda>c. length (queue c) \<le> 2) c1 c2
    \<and> heap c2 = (\<lambda>_. None) \<and> slots c2 = [] \<and> queue c2 = [] \<and> next_addr c2 = k + 1"
proof -
  have b: "k < vector_max_size" using assms by (simp add: vector_max_size_def)
  have "Context_init = counting 0 0 (waiting_heap k 0) []"
    by (simp add: Context_init_def counting_def waiting_heap_def counter_slots.simps fun_eq_iff)
  then have "count_start (\<lambda>k. Counter_spec k None) (int k)
      = Ret (pid_at 0) (growing k 0 (fresh_counter k 0) [resume_item (pid_at 0) 0])"
    using spawn_counting [of 0 k "waiting_heap k 0" "[]"] by (simp add: count_start_def up_def vector_max_size_def)
  moreover have "must_reach any_spec Counter_run small_queue (growing k 0 (fresh_counter k 0) [resume_item (pid_at 0) 0])
      (counting 0 (Suc k) (\<lambda>_. None) [])"
    using run_whole [OF b] by (rule queue_run_must) (simp add: run_again_counting)
  moreover have "small_queue = (\<lambda>c. length (queue c) \<le> 2)" by (simp add: small_queue_def fun_eq_iff)
  ultimately show ?thesis by (intro exI conjI) (assumption | simp add: counter_slots.simps)+
qed

theorem counter_counts_to_max_witness:
  "\<exists>c1 c2. count_main = Ret (pid_at 0) c1 \<and> must_reach any_spec Counter_run (\<lambda>c. length (queue c) \<le> 2) c1 c2
    \<and> heap c2 = (\<lambda>_. None) \<and> next_addr c2 = 5000001"
  using counter_counts_to_max [of 5000000] by (auto simp: count_main_def)

end
