(* ===== verification/Example_Methods.thy ===== *)
theory Example_Methods
  imports Programs
begin

text \<open>
  \<open>MethodCounter\<close> of \<open>examples/count.cpp\<close>: counting by method tasks, which run on the stack of one process.
\<close>

section \<open>MethodCounter\<close>

text \<open>
  The frames of \<open>run\<close>, with the member \<open>kMax\<close>, and of \<open>subRun\<close>. The parameter \<open>int& out\<close> of \<open>subRun\<close> is passed
  in and handed back with the return, as nothing else refers to the variable.
\<close>

datatype MethodFrame =
    MethodStart int
  | NothingDone int
  | GotInt int
  | Counted int
  | SubRunReturned

function subRun :: "int \<Rightarrow> int \<Rightarrow> (MethodFrame, int) code" where
  "subRun n out = (if n > 0 then CoMethod (subRun (n - 1) out) (UserFrame SubRunReturned) else CoReturn (AMsg (MVal out)))"
  by pat_completeness auto
termination
  by (relation "measure (\<lambda>(n, out). nat n)") auto

declare subRun.simps [simp del]

definition retIntCoro :: "int \<Rightarrow> (MethodFrame, int) code" where
  "retIntCoro i = CoReturn (AMsg (MVal i))"

definition doNothingCoro :: "(MethodFrame, int) code" where
  "doNothingCoro = CoReturn AUnit"

fun MethodCounter_run :: "(MethodFrame, int) program" where
  "MethodCounter_run (MethodStart kMax) v = CoMethod doNothingCoro (UserFrame (NothingDone kMax))"
| "MethodCounter_run (NothingDone kMax) v = CoMethod (retIntCoro 5) (UserFrame (GotInt kMax))"
| "MethodCounter_run (GotInt kMax) v = CoMethod (subRun kMax 0) (UserFrame (Counted kMax))"
| "MethodCounter_run (Counted kMax) our_value = CoReturn AUnit"
| "MethodCounter_run SubRunReturned v = with_msg (\<lambda>out. CoReturn (AMsg (MVal (out + 1)))) v"

definition MethodCounter_spec :: "int \<Rightarrow> (MethodFrame, int) SpawnSpec" where
  "MethodCounter_spec kMax =
     \<lparr>sp_classes = [''MethodCounter'', ''Process''], sp_members = [], sp_links = [], sp_throws = None,
      sp_start = UserFrame (MethodStart kMax)\<rparr>"

section \<open>The run\<close>

text \<open>A call of \<open>subRun(n, out)\<close> returns to its caller with \<open>out\<close> increased by \<open>n\<close>, after two steps per level.\<close>

lemma subRun_adds:
  "exec_code (Suc (2 * n + f)) MethodCounter_run i (subRun (int n) out) (g # fs) c
     = exec_code f MethodCounter_run i (frame_code MethodCounter_run g (AMsg (MVal (out + int n)))) fs c"
proof (induction n arbitrary: f g fs)
  case 0
  show ?case by (simp add: subRun.simps)
next
  case (Suc n)
  have "exec_code (Suc (2 * Suc n + f)) MethodCounter_run i (subRun (int (Suc n)) out) (g # fs) c
      = exec_code (Suc (2 * n + Suc f)) MethodCounter_run i (subRun (int n) out) (UserFrame SubRunReturned # g # fs) c"
    by (subst subRun.simps) simp
  also have "\<dots> = exec_code (Suc f) MethodCounter_run i (CoReturn (AMsg (MVal (out + int n + 1)))) (g # fs) c"
    using Suc.IH [of "Suc f" "UserFrame SubRunReturned" "g # fs"] by simp
  finally show ?case by (simp add: algebra_simps)
qed

text \<open>From the start of \<open>run\<close> to its last line, where the local \<open>our_value\<close> has the value \<open>kMax\<close>.\<close>

lemma MethodCounter_counts:
  "exec_code (2 * k + 7) MethodCounter_run i (MethodCounter_run (MethodStart (int k)) AUnit) [] c
     = exec_code 1 MethodCounter_run i (MethodCounter_run (Counted (int k)) (AMsg (MVal (int k)))) [] c"
proof -
  have f: "2 * k + 7 = Suc (Suc (Suc (Suc (Suc (Suc (2 * k + 1))))))" by simp
  show ?thesis
    unfolding f using subRun_adds [of k 1 i 0 "UserFrame (Counted (int k))" "[]"]
    by (simp add: doNothingCoro_def retIntCoro_def)
qed

definition methods_start :: "nat \<Rightarrow> (MethodFrame, int) Context" where
  "methods_start k = spawned_context (ProcessArgs_init (pid_at 0)) (MethodCounter_spec (int k)) Context_init"

definition methods_end :: "(MethodFrame, int) Context" where
  "methods_end = Context_init\<lparr>next_addr := 1, processes := [None], tombstones := [pid_at 0]\<rparr>"

lemmas methods_start_eval = methods_start_def spawned_context_def spawned_object_def ProcessArgs_init_def Process_init_def
  MethodCounter_spec_def Context_init_def member_ids_def member_slots_def

lemma methods_round:
  "\<exists>c. processQueueItem (2 * k + 7) MethodCounter_run (resume_item (pid_at 0) 0) ((methods_start k)\<lparr>queue := []\<rparr>) = Ret () c
     \<and> destroy_all c = methods_end"
proof -
  let ?c = "(methods_start k)\<lparr>queue := []\<rparr>"
  let ?rp = "spawned_object (ProcessArgs_init (pid_at 0)) (MethodCounter_spec (int k)) 0"
  let ?d = "addtoDestroy (pid_at 0) '''' (upd_proc 0 (\<lambda>rp. rp\<lparr>lastWaiting := None, task := None\<rparr>) (counted 0 ?c))"
  let ?r = "?rp\<lparr>resumes := 1, lastWaiting := None, task := None, dead := True\<rparr>"
  have w: "woken (slots ?c) ?rp (resume_item (pid_at 0) 0) (UserFrame (MethodStart (int k))) [] AUnit"
    using woken.starts [of ?rp "UserFrame (MethodStart (int k))" "[]"]
    by (simp add: spawned_object_def ProcessArgs_init_def MethodCounter_spec_def)
  have f: "findProc (rp_pid ?rp) ?c = Some 0" by (simp add: findProc_def methods_start_eval)
  have "processQueueItem (2 * k + 7) MethodCounter_run (resume_item (pid_at 0) 0) ?c = Ret () (addtoDestroy (rp_pid ?rp) ''''
      (upd_proc 0 (\<lambda>rp. rp\<lparr>lastWaiting := None, task := None\<rparr>) (counted 0 ?c)))"
    by (rule item_ends [OF w f])
      (use MethodCounter_counts [of k 0 "counted 0 ?c"] in \<open>simp_all add: methods_start_eval slots_empty_def\<close>)
  moreover have "rp_pid ?rp = pid_at 0" by (simp add: spawned_object_def ProcessArgs_init_def)
  ultimately have p: "processQueueItem (2 * k + 7) MethodCounter_run (resume_item (pid_at 0) 0) ?c = Ret () ?d" by simp
  have d: "toDestroy ?d = [(0, '''')]" "heap ?d 0 = Some ?r"
    by (simp_all add: addtoDestroy_def findProc_def counted_def upd_proc_def methods_start_eval)
  have "destroy_all ?d = delete_process 0 (?d\<lparr>toDestroy := []\<rparr>)"
    by (rule destroy_all_lone [OF d]) (simp_all add: spawned_object_def ProcessArgs_init_def Process_init_def)
  also have "\<dots> = methods_end"
    by (simp add: addtoDestroy_def findProc_def counted_def upd_proc_def methods_start_eval delete_process_def methods_end_def
        owned_slots_def)
  finally show ?thesis using p by blast
qed

text \<open>The counter of method tasks counts to \<open>kMax\<close> and ends in the first round of \<open>run\<close>.\<close>

theorem method_counter_counts:
  "spawn (MethodCounter_spec (int k)) Context_init = Ret (pid_at 0) (methods_start k)
   \<and> must_reach any_spec MethodCounter_run (\<lambda>_. True) (methods_start k) methods_end"
proof
  show "spawn (MethodCounter_spec (int k)) Context_init = Ret (pid_at 0) (methods_start k)"
    using spawn_fresh [of Context_init "MethodCounter_spec (int k)"]
    by (simp add: methods_start_def) (simp add: Context_init_def MethodCounter_spec_def vector_max_size_def)
  obtain c where c: "processQueueItem (2 * k + 7) MethodCounter_run (resume_item (pid_at 0) 0) ((methods_start k)\<lparr>queue := []\<rparr>) = Ret () c"
      "destroy_all c = methods_end"
    using methods_round by blast
  have "run_again (methods_start k)" "queue (methods_start k) = [resume_item (pid_at 0) 0]"
    by (simp_all add: run_again_def methods_start_eval)
  from queue_run_item [OF this c(1), of "\<lambda>_. True"] c(2)
  show "must_reach any_spec MethodCounter_run (\<lambda>_. True) (methods_start k) methods_end"
    by (auto intro!: queue_run_must simp: run_again_def methods_end_def)
qed

end
