(* ===== verification/Example_Sleep.thy ===== *)
theory Example_Sleep
  imports Programs
begin

text \<open>
  \<open>examples/count.cpp\<close>: the profiler of sleeping processes. It spawns \<open>kMax\<close> processes that sleep for a second
  and then send to a slot in the frame of the profiler, which waits for \<open>kMax\<close> messages. The theorem is about
  the rounds up to the moment in which all of them sleep.
\<close>

section \<open>SleepProfiler\<close>

text \<open>
  The frames of \<open>Sleeper::run\<close> with the member \<open>a\<close>: before the first resume, asleep, and in the awaited send. The
  frames of \<open>SleepProfiler::run\<close> with the member \<open>kMax\<close>: before the first resume, and waiting in round \<open>i\<close> of
  the second loop for a message in the local slot \<open>s\<close>.
\<close>

datatype SleepFrame =
    SleeperStart SendAddress
  | SleeperWoken SendAddress
  | SleeperSent
  | ProfilerStart int
  | ProfilerWaits int SlotId int

definition Sleeper_spec :: "SendAddress \<Rightarrow> (SleepFrame, int) SpawnSpec" where
  "Sleeper_spec a =
     \<lparr>sp_classes = [''Sleeper'', ''Process''], sp_members = [], sp_links = [], sp_throws = None,
      sp_start = UserFrame (SleeperStart a)\<rparr>"

definition SleepProfiler_spec :: "int \<Rightarrow> (SleepFrame, int) SpawnSpec" where
  "SleepProfiler_spec kMax =
     \<lparr>sp_classes = [''SleepProfiler'', ''Process''], sp_members = [], sp_links = [], sp_throws = None,
      sp_start = UserFrame (ProfilerStart kMax)\<rparr>"

text \<open>The second loop from round \<open>i\<close> on; the slot is destroyed with the frame when \<open>run\<close> returns.\<close>

definition Profiler_recv :: "int \<Rightarrow> SlotId \<Rightarrow> int \<Rightarrow> (SleepFrame, int) code" where
  "Profiler_recv kMax s i =
     (if i < kMax
      then CoCall (CSlotAddress s) (with_addr (\<lambda>a. CoAwait (recv a) (UserFrame (ProfilerWaits kMax s i))))
      else CoCall (CDropSlot s) (\<lambda>_. CoReturn AUnit))"

text \<open>The first loop from round \<open>i\<close> on.\<close>

function Profiler_spawn :: "int \<Rightarrow> SlotId \<Rightarrow> int \<Rightarrow> (SleepFrame, int) code" where
  "Profiler_spawn kMax s i =
     (if i < kMax
      then CoCall (CSlotAddress s) (with_addr (\<lambda>a.
             CoCall (CSpawn (Sleeper_spec a)) (\<lambda>_. Profiler_spawn kMax s (i + 1))))
      else Profiler_recv kMax s 0)"
  by pat_completeness auto
termination by (relation "measure (\<lambda>(kMax, s, i). nat (kMax - i))") auto

declare Profiler_spawn.simps [simp del]

fun Sleep_run :: "(SleepFrame, int) program" where
  "Sleep_run (SleeperStart a) v = CoAwait (sleep 1000) (UserFrame (SleeperWoken a))"
| "Sleep_run (SleeperWoken a) v =
     CoCall (CSend a (MVal 1)) (with_bool (\<lambda>wait. CoAwait (AWaiting (WaitingMaybe wait)) (UserFrame SleeperSent)))"
| "Sleep_run SleeperSent v = CoReturn AUnit"
| "Sleep_run (ProfilerStart kMax) v =
     CoCall CNewSlot (\<lambda>r. case r of ASlot s \<Rightarrow> Profiler_spawn kMax s 0 | _ \<Rightarrow> CoThrow ''slot expected'')"
| "Sleep_run (ProfilerWaits kMax s i) v = with_msg (\<lambda>_. Profiler_recv kMax s (i + 1)) v"

section \<open>The states of the run\<close>

definition local_slot :: SendAddress where
  "local_slot = \<lparr>sa_pid = pid_at 0, sa_slot = 0\<rparr>"

definition sleep_object :: "nat \<Rightarrow> string \<Rightarrow> (SleepFrame, int) ProcessTask \<Rightarrow> Waiting option \<Rightarrow> uint64 \<Rightarrow> (SleepFrame, int) RunningProcess" where
  "sleep_object j cls t w r =
     \<lparr>dead = False, rp_pid = pid_at j,
      rp_process = \<lparr>pr_pid = pid_at j, killOnDie = [], notifyOnDie = [], pr_classes = [cls, ''Process''], pr_members = []\<rparr>,
      task = Some t, lastWaiting = w, resumes = r\<rparr>"

definition new_sleeper :: "nat \<Rightarrow> (SleepFrame, int) RunningProcess" where
  "new_sleeper j = sleep_object j ''Sleeper'' (None, [UserFrame (SleeperStart local_slot)]) None 0"

definition asleep :: "nat \<Rightarrow> (SleepFrame, int) RunningProcess" where
  "asleep j = sleep_object j ''Sleeper'' (Some (sleep 1000), [UserFrame (SleeperWoken local_slot)]) (Some (WaitingTimeout 1000)) 1"

definition new_profiler :: "nat \<Rightarrow> (SleepFrame, int) RunningProcess" where
  "new_profiler k = sleep_object 0 ''SleepProfiler'' (None, [UserFrame (ProfilerStart (int k))]) None 0"

definition profiler_waits :: "nat \<Rightarrow> (SleepFrame, int) RunningProcess" where
  "profiler_waits k = sleep_object 0 ''SleepProfiler'' (Some (recv local_slot), [UserFrame (ProfilerWaits (int k) 0 0)])
     (Some (WaitingMessages [local_slot])) 1"

text \<open>
  The context with the profiler \<open>rp\<close>, the slot in its frame and \<open>n\<close> sleepers, of which the first \<open>m\<close> are asleep;
  the resumes of the others are queued.
\<close>

definition sleepers :: "(SleepFrame, int) RunningProcess \<Rightarrow> nat \<Rightarrow> nat \<Rightarrow> (SleepFrame, int) Context" where
  "sleepers rp n m =
     \<lparr>heap = (\<lambda>a. if a = 0 then Some rp else if a \<le> m then Some (asleep a) else if a \<le> n then Some (new_sleeper a) else None),
      next_addr = Suc n, slots = [(0, Slot_init 0)], next_slot = 1, promises = [], next_promise = 0,
      tombstones = [], processes = map Some [0..<Suc n], toDestroy = [],
      queue = map (\<lambda>j. resume_item (pid_at j) 0) [Suc m..<Suc n], posted = [],
      waits = map (\<lambda>j. (j, 1000)) [1..<Suc m]\<rparr>"

section \<open>Spawning\<close>

lemma spawn_sleeper:
  assumes "Suc n < vector_max_size"
  shows "spawn (Sleeper_spec local_slot) (sleepers rp n 0) = Ret (pid_at (Suc n)) (sleepers rp (Suc n) 0)"
proof -
  let ?c = "sleepers rp n 0"
  have h: "(heap ?c)(Suc n \<mapsto> new_sleeper (Suc n)) = heap (sleepers rp (Suc n) 0)" by (auto simp: sleepers_def)
  have "spawn (Sleeper_spec local_slot) ?c = Ret (pid_at (length (processes ?c)))
      (spawned_context (ProcessArgs_init (pid_at (length (processes ?c)))) (Sleeper_spec local_slot) ?c)"
    using assms by (intro spawn_fresh) (simp_all add: sleepers_def Sleeper_spec_def)
  moreover have "spawned_object (ProcessArgs_init (pid_at (Suc n))) (Sleeper_spec local_slot) 1 = new_sleeper (Suc n)"
    by (simp add: spawned_object_def Sleeper_spec_def ProcessArgs_init_def Process_init_def member_ids_def new_sleeper_def
        sleep_object_def)
  ultimately show ?thesis
    using h by (simp add: spawned_context_def sleepers_def Sleeper_spec_def ProcessArgs_init_def member_slots_def)
qed

lemma sleeper_calls:
  assumes "rp_pid rp = pid_at 0"
  shows "do_call 0 (CSlotAddress 0) (sleepers rp n m) = Ret (AAddr local_slot) (sleepers rp n m)"
    and "Suc n < vector_max_size \<Longrightarrow>
      do_call 0 (CSpawn (Sleeper_spec local_slot)) (sleepers rp n 0) = Ret (APid (pid_at (Suc n))) (sleepers rp (Suc n) 0)"
  using assms spawn_sleeper [of n rp]
  by (simp_all add: do_call_def) (simp_all add: sleepers_def Slot_init_def slot_address_def local_slot_def)

lemma Profiler_recv_waits:
  assumes "0 < k" and "rp_pid rp = pid_at 0"
  shows "exec_code (Suc (Suc n)) P 0 (Profiler_recv (int k) 0 0) [] (sleepers rp k 0)
    = Ret (Some (Some (recv local_slot), [UserFrame (ProfilerWaits (int k) 0 0)])) (sleepers rp k 0)"
proof -
  have "await_ready (slots (sleepers rp k 0)) (promise_at (sleepers rp k 0)) (underlying (recv local_slot)) = Some False"
    by (rule recv_not_ready) (simp_all add: sleepers_def slots_empty_def Slot_init_def slot_queue_def local_slot_def)
  then show ?thesis using assms by (simp add: Profiler_recv_def sleeper_calls)
qed

lemma Profiler_spawn_all:
  assumes "k < vector_max_size" and "0 < k" and "rp_pid rp = pid_at 0"
  shows "i \<le> k \<Longrightarrow> exec_code (2 * (k - i) + 2) P 0 (Profiler_spawn (int k) 0 (int i)) [] (sleepers rp i 0)
    = Ret (Some (Some (recv local_slot), [UserFrame (ProfilerWaits (int k) 0 0)])) (sleepers rp k 0)"
proof (induction "k - i" arbitrary: i)
  case 0
  then show ?case using Profiler_recv_waits [OF assms(2,3)] by (subst Profiler_spawn.simps) simp
next
  case (Suc d)
  then have i: "i < k" "k - i = Suc (k - Suc i)" by simp_all
  then have v: "Suc i < vector_max_size" using assms(1) by simp
  have "exec_code (2 * (k - Suc i) + 2) P 0 (Profiler_spawn (int k) 0 (int (Suc i))) [] (sleepers rp (Suc i) 0)
      = Ret (Some (Some (recv local_slot), [UserFrame (ProfilerWaits (int k) 0 0)])) (sleepers rp k 0)"
    using Suc i by (intro Suc.hyps) simp_all
  moreover have "2 * (k - i) + 2 = Suc (Suc (2 * (k - Suc i) + 2))" using i by simp
  ultimately show ?case
    using i(1) v assms(3) by (subst Profiler_spawn.simps) (simp add: sleeper_calls add.commute del: One_nat_def)
qed

section \<open>Falling asleep\<close>

lemma findProc_sleepers:
  assumes "j \<le> n" and "n < 2 ^ 64" and "0 < j \<or> rp_pid rp = pid_at 0"
  shows "findProc (pid_at j) (sleepers rp n m) = Some j"
proof -
  have "map Some [0..<Suc n] ! j = Some j" using assms(1) by (simp add: nth_append del: upt_Suc)
  then show ?thesis using assms
    by (auto simp: findProc_def sleepers_def asleep_def new_sleeper_def sleep_object_def simp del: upt_Suc)
qed

lemma findProc_queue: "findProc p (c\<lparr>queue := q\<rparr>) = findProc p c"
  by (simp add: findProc_def cong: option.case_cong)

lemma sleeper_sleeps:
  assumes "m < n" and "n < 2 ^ 64"
  shows "processQueueItem 1 Sleep_run (resume_item (pid_at (Suc m)) 0)
      ((sleepers rp n m)\<lparr>queue := map (\<lambda>j. resume_item (pid_at j) 0) [Suc (Suc m)..<Suc n]\<rparr>) = Ret () (sleepers rp n (Suc m))"
proof -
  let ?c = "(sleepers rp n m)\<lparr>queue := map (\<lambda>j. resume_item (pid_at j) 0) [Suc (Suc m)..<Suc n]\<rparr>"
  have f: "findProc (pid_at (Suc m)) ?c = Some (Suc m)"
    using findProc_sleepers [of "Suc m" n rp m] assms by (simp add: findProc_queue)
  have h: "heap ?c (Suc m) = Some (new_sleeper (Suc m))" using assms(1) by (simp add: sleepers_def)
  have t: "cancel_timer (Suc m) ?c = ?c" by (auto simp: cancel_timer_def sleepers_def filter_id_conv)
  have "run_task 1 Sleep_run (Suc m) (new_sleeper (Suc m)) ?c
      = Ret (Some (Some (sleep 1000), [UserFrame (SleeperWoken local_slot)])) (counted (Suc m) ?c)"
    by (simp add: run_task_def process_last_def new_sleeper_def sleep_object_def task_resume_def sleep_def WaitingTimeout_def
        counted_def)
  moreover have "arm (Suc m) (underlying (sleep 1000))
      (upd_proc (Suc m) (\<lambda>rp. rp\<lparr>lastWaiting := Some (underlying (sleep 1000)), task := Some (Some (sleep 1000), [UserFrame (SleeperWoken local_slot)])\<rparr>)
        (counted (Suc m) ?c)) = Ret () (sleepers rp n (Suc m))"
    using assms(1) t
    by (auto simp: arm_def counted_def upd_proc_def sleepers_def sleep_def WaitingTimeout_def start_timer_def cancel_timer_def
        asleep_def new_sleeper_def sleep_object_def filter_id_conv fun_eq_iff)
  ultimately have "resume 1 Sleep_run (Suc m) ?c = Ret () (sleepers rp n (Suc m))"
    using h t by (simp add: resume_def new_sleeper_def sleep_object_def)
  then show ?thesis using process_resume_item [OF f h, of 0] by (simp add: new_sleeper_def sleep_object_def)
qed

section \<open>All sleep\<close>

definition sleep_start :: "nat \<Rightarrow> (SleepFrame, int) Context" where
  "sleep_start k = spawned_context (ProcessArgs_init (pid_at 0)) (SleepProfiler_spec (int k)) Context_init"

lemma spawned_profiler:
  "spawned_object (ProcessArgs_init (pid_at 0)) (SleepProfiler_spec (int k)) 0 = new_profiler k"
  by (simp add: spawned_object_def SleepProfiler_spec_def ProcessArgs_init_def Process_init_def member_ids_def new_profiler_def
      sleep_object_def)

lemma profiler_members [simp]: "sp_members (SleepProfiler_spec kMax) = []"
  by (simp add: SleepProfiler_spec_def)

text \<open>The first round: the profiler creates its slot, spawns all sleepers and waits.\<close>

lemma profiler_round:
  assumes "k < vector_max_size" and "0 < k"
  shows "processQueueItem (2 * k + 3) Sleep_run (resume_item (pid_at 0) 0) ((sleep_start k)\<lparr>queue := []\<rparr>)
    = Ret () (sleepers (profiler_waits k) k 0)"
proof -
  let ?c = "(sleep_start k)\<lparr>queue := []\<rparr>"
  let ?rp = "(new_profiler k)\<lparr>resumes := 1\<rparr>"
  have f: "findProc (pid_at 0) ?c = Some 0" "heap ?c 0 = Some (new_profiler k)" "cancel_timer 0 ?c = ?c"
    by (simp_all add: findProc_def sleep_start_def spawned_context_def Context_init_def cancel_timer_def
        spawned_profiler new_profiler_def sleep_object_def)
  have s: "do_call 0 CNewSlot (counted 0 ?c) = Ret (ASlot 0) (sleepers ?rp 0 0)"
    by (auto simp: do_call_def counted_def upd_proc_def sleep_start_def spawned_context_def Context_init_def new_slot_def
        sleepers_def spawned_profiler member_slots_def fun_eq_iff new_profiler_def sleep_object_def)
  have "exec_code (2 * k + 2) Sleep_run 0 (Profiler_spawn (int k) 0 0) [] (sleepers ?rp 0 0)
      = Ret (Some (Some (recv local_slot), [UserFrame (ProfilerWaits (int k) 0 0)])) (sleepers ?rp k 0)"
    using Profiler_spawn_all [OF assms, of ?rp 0] by (simp add: new_profiler_def sleep_object_def)
  then have "run_task (2 * k + 3) Sleep_run 0 (new_profiler k) ?c
      = Ret (Some (Some (recv local_slot), [UserFrame (ProfilerWaits (int k) 0 0)])) (sleepers ?rp k 0)"
    using s by (simp add: run_task_def process_last_def task_resume_def counted_def numeral_3_eq_3)
      (simp add: new_profiler_def sleep_object_def task_resume_def)
  moreover have "arm 0 (underlying (recv local_slot)) (upd_proc 0 (\<lambda>rp. rp\<lparr>lastWaiting := Some (underlying (recv local_slot)),
      task := Some (Some (recv local_slot), [UserFrame (ProfilerWaits (int k) 0 0)])\<rparr>) (sleepers ?rp k 0))
      = Ret () (sleepers (profiler_waits k) k 0)"
    by (subst arm_recv) (auto simp: upd_proc_def sleepers_def profiler_waits_def new_profiler_def sleep_object_def recv_def fun_eq_iff)
  ultimately have "resume (2 * k + 3) Sleep_run 0 ?c = Ret () (sleepers (profiler_waits k) k 0)"
    using f by (simp add: resume_def) (simp add: new_profiler_def sleep_object_def)
  then show ?thesis using process_resume_item [OF f(1,2), of 0] by (simp add: new_profiler_def sleep_object_def)
qed

lemma sleepers_fall_asleep:
  assumes "n < 2 ^ 64" and "m \<le> n"
  shows "queue_run S Sleep_run (\<lambda>_. True) (sleepers rp n 0) (sleepers rp n m)"
  using assms(2)
proof (induction m)
  case 0
  show ?case by (simp add: queue_run.qr_refl)
next
  case (Suc m)
  let ?c = "sleepers rp n (Suc m)"
  have q: "queue (sleepers rp n m) = resume_item (pid_at (Suc m)) 0 # map (\<lambda>j. resume_item (pid_at j) 0) [Suc (Suc m)..<Suc n]"
    using Suc.prems by (simp add: sleepers_def upt_conv_Cons del: upt_Suc)
  have "destroy_all ?c = ?c" by (rule destroy_all_nothing) (simp add: sleepers_def)
  moreover have "run_again (sleepers rp n m)" by (simp add: run_again_def sleepers_def)
  ultimately have "queue_run S Sleep_run (\<lambda>_. True) (sleepers rp n m) ?c"
    using queue_run_item [OF _ q sleeper_sleeps] Suc.prems assms(1) by fastforce
  then show ?case using Suc queue_run_trans by (metis Suc_leD)
qed

text \<open>
  Started with any positive \<open>kMax\<close> that the table of processes has room for, \<open>run\<close> gets in rounds on its queue,
  which leave no choice, to the state in which \<open>kMax\<close> processes are asleep, each with its own timer of a second, the profiler
  waits for the first message, and no work is left but the timers.
\<close>

theorem sleep_profiler_sleeps:
  assumes "0 < k" and "k < vector_max_size"
  shows "spawn (SleepProfiler_spec (int k)) Context_init = Ret (pid_at 0) (sleep_start k)
    \<and> queue_run S Sleep_run (\<lambda>_. True) (sleep_start k) (sleepers (profiler_waits k) k k)
    \<and> queue (sleepers (profiler_waits k) k k) = [] \<and> waits (sleepers (profiler_waits k) k k) = map (\<lambda>j. (j, 1000)) [1..<Suc k]"
proof -
  let ?c = "sleepers (profiler_waits k) k 0"
  have "spawn (SleepProfiler_spec (int k)) Context_init = Ret (pid_at 0) (sleep_start k)"
    using spawn_fresh [of Context_init "SleepProfiler_spec (int k)"]
    by (simp add: sleep_start_def) (simp add: Context_init_def SleepProfiler_spec_def vector_max_size_def)
  moreover have "queue_run S Sleep_run (\<lambda>_. True) (sleep_start k) (sleepers (profiler_waits k) k k)"
  proof (rule queue_run_trans)
    have "run_again (sleep_start k)" "queue (sleep_start k) = [resume_item (pid_at 0) 0]"
      by (simp_all add: run_again_def sleep_start_def spawned_context_def Context_init_def ProcessArgs_init_def)
    from queue_run_item [OF this profiler_round [OF assms(2,1)], of "\<lambda>_. True" S]
    show "queue_run S Sleep_run (\<lambda>_. True) (sleep_start k) ?c"
      by (simp add: destroy_all_nothing sleepers_def)
    show "queue_run S Sleep_run (\<lambda>_. True) ?c (sleepers (profiler_waits k) k k)"
      by (rule sleepers_fall_asleep) (use assms(2) in \<open>simp_all add: vector_max_size_def\<close>)
  qed
  ultimately show ?thesis by (simp add: sleepers_def)
qed

end
