(* ===== verification/Example_Pressure.thy ===== *)
theory Example_Pressure
  imports Programs
begin

text \<open>
  \<open>examples/send_back_pressure.cpp\<close>: a sender that sends much faster than its listener could receive, first
  with \<open>send\<close> and then with \<open>sendThrottled\<close>, each time awaiting what the call returns. The theorem bounds what
  is in flight over the whole run of the program.
\<close>

section \<open>Listener and Sender\<close>

text \<open>
  The frames: a listener before its first resume and in its loop; a sender before its first resume,
  suspended after the send with index \<open>i\<close> of the first loop, and in the throttled send with index \<open>i\<close> of the
  second; the identifier is the local \<open>l\<close>.
\<close>

datatype PressureFrame =
    ListenerStart
  | ListenerLoop
  | SenderStart
  | SenderSent Pid nat
  | SenderThrottled Pid nat

definition Listener_spec :: "(PressureFrame, string) SpawnSpec" where
  "Listener_spec =
     \<lparr>sp_classes = [''Listener'', ''Process''], sp_members = [''r''], sp_links = [], sp_throws = None,
      sp_start = UserFrame ListenerStart\<rparr>"

definition Listener_loop :: "(PressureFrame, string) code" where
  "Listener_loop = own_slot ''Listener'' ''r'' (\<lambda>s. CoAwait (recv s) (UserFrame ListenerLoop))"

definition Sender_spec :: "(PressureFrame, string) SpawnSpec" where
  "Sender_spec =
     \<lparr>sp_classes = [''Sender'', ''Process''], sp_members = [], sp_links = [], sp_throws = None,
      sp_start = UserFrame SenderStart\<rparr>"

text \<open>The number of sends of each loop, and \<open>std::string(k, '?')\<close>.\<close>

definition sends :: nat where
  "sends = 1000"

definition payload :: "string Message" where
  "payload = MVal (replicate (100 * 1024 * 1024) CHR ''?'')"

definition Sender_throttled :: "Pid \<Rightarrow> nat \<Rightarrow> (PressureFrame, string) code" where
  "Sender_throttled l i =
     (if i < sends
      then CoCall (CMakeSendAddress l ''Listener'' ''r'') (with_addr (\<lambda>a.
             CoMethod (sendThrottled a payload) (UserFrame (SenderThrottled l i))))
      else CoReturn AUnit)"

definition Sender_send :: "Pid \<Rightarrow> nat \<Rightarrow> (PressureFrame, string) code" where
  "Sender_send l i =
     (if i < sends
      then CoCall (CMakeSendAddress l ''Listener'' ''r'') (with_addr (\<lambda>a.
             CoCall (CSend a payload) (with_bool (\<lambda>wait.
               CoAwait (AWaiting (WaitingMaybe wait)) (UserFrame (SenderSent l i))))))
      else Sender_throttled l 0)"

fun Pressure_run :: "(PressureFrame, string) program" where
  "Pressure_run ListenerStart v = Listener_loop"
| "Pressure_run ListenerLoop v = with_msg (\<lambda>_. Listener_loop) v"
| "Pressure_run SenderStart v = CoCall (CSpawnLink Listener_spec) (with_pid (\<lambda>l. Sender_send l 0))"
| "Pressure_run (SenderSent l i) v = Sender_send l (i + 1)"
| "Pressure_run (SenderThrottled l i) v = Sender_throttled l (i + 1)"

section \<open>The states of the run\<close>

definition r_slot :: SendAddress where
  "r_slot = \<lparr>sa_pid = pid_at (Suc 0), sa_slot = 0\<rparr>"

text \<open>The sender, linked to the listener, and the listener, linked to the sender.\<close>

definition sender :: "(PressureFrame, string) ProcessTask \<Rightarrow> Waiting option \<Rightarrow> uint64 \<Rightarrow> (PressureFrame, string) RunningProcess" where
  "sender t w r =
     \<lparr>dead = False, rp_pid = pid_at 0,
      rp_process = \<lparr>pr_pid = pid_at 0, killOnDie = [pid_at (Suc 0)], notifyOnDie = [], pr_classes = [''Sender'', ''Process''], pr_members = []\<rparr>,
      task = Some t, lastWaiting = w, resumes = r\<rparr>"

definition listener :: "(PressureFrame, string) ProcessTask \<Rightarrow> Waiting option \<Rightarrow> uint64 \<Rightarrow> (PressureFrame, string) RunningProcess" where
  "listener t w r =
     \<lparr>dead = False, rp_pid = pid_at (Suc 0),
      rp_process = \<lparr>pr_pid = pid_at (Suc 0), killOnDie = [pid_at 0], notifyOnDie = [], pr_classes = [''Listener'', ''Process''], pr_members = [(''r'', 0)]\<rparr>,
      task = Some t, lastWaiting = w, resumes = r\<rparr>"

definition listens :: "uint64 \<Rightarrow> (PressureFrame, string) RunningProcess" where
  "listens r = listener (Some (recv r_slot), [UserFrame ListenerLoop]) (Some (WaitingMessages [r_slot])) r"

text \<open>The sender suspended in the first loop, and in \<open>sendThrottled\<close> of the second.\<close>

definition sent :: "nat \<Rightarrow> uint64 \<Rightarrow> (PressureFrame, string) RunningProcess" where
  "sent i r = sender (Some (AWaiting (WaitingMaybe True)), [UserFrame (SenderSent (pid_at (Suc 0)) i)]) (Some (WaitingMaybe True)) r"

definition throttled :: "nat \<Rightarrow> uint64 \<Rightarrow> (PressureFrame, string) RunningProcess" where
  "throttled i r = sender (Some (AWaiting WaitingYield), [STYielded r_slot payload, UserFrame (SenderThrottled (pid_at (Suc 0)) i)]) (Some WaitingYield) r"

text \<open>Both processes with the work queue \<open>q\<close>.\<close>

definition both :: "(PressureFrame, string) RunningProcess \<Rightarrow> (PressureFrame, string) RunningProcess \<Rightarrow>
    string ToProcessItem list \<Rightarrow> (PressureFrame, string) Context" where
  "both s l q =
     \<lparr>heap = (\<lambda>_. None)(0 \<mapsto> s, 1 \<mapsto> l), next_addr = 2, slots = [(0, Slot_init 1)], next_slot = 1, promises = [],
      next_promise = 0, tombstones = [], processes = [Some 0, Some 1], toDestroy = [], queue = q, posted = [], waits = []\<rparr>"

abbreviation sending :: "nat \<Rightarrow> string ToProcessItem list" where
  "sending j \<equiv> replicate j (message_item r_slot payload)"

lemma both_simps [simp]:
  "queue (both s l q) = q" "waits (both s l q) = []" "toDestroy (both s l q) = []" "slots_empty (slots (both s l q))"
  "heap (both s l q) 0 = Some s" "heap (both s l q) (Suc 0) = Some l" "run_again (both s l q)"
  "slot_queue (slots (both s l q)) (sa_slot r_slot) = Some MessageQueue_init"
  by (simp_all add: both_def slots_empty_def Slot_init_def run_again_def slot_queue_def r_slot_def)

lemma both_upd [simp]:
  "(both s l q)\<lparr>queue := q'\<rparr> = both s l q'" "upd_proc 0 f (both s l q) = both (f s) l q"
  "upd_proc (Suc 0) f (both s l q) = both s (f l) q"
  "counted 0 (both s l q) = both (s\<lparr>resumes := resumes s + 1\<rparr>) l q"
  "counted (Suc 0) (both s l q) = both s (l\<lparr>resumes := resumes l + 1\<rparr>) q"
  by (auto simp: both_def upd_proc_def counted_def fun_eq_iff)

lemma findProc_both:
  "rp_pid s = pid_at 0 \<Longrightarrow> findProc (pid_at 0) (both s l q) = Some 0"
  "rp_pid l = pid_at (Suc 0) \<Longrightarrow> findProc (pid_at (Suc 0)) (both s l q) = Some 1"
  by (simp_all add: findProc_def both_def)

lemma sender_simps [simp]:
  "rp_pid (sender t w r) = pid_at 0" "resumes (sender t w r) = r" "\<not> dead (sender t w r)"
  "(sender t w r)\<lparr>resumes := r'\<rparr> = sender t w r'"
  "(sender t w r)\<lparr>lastWaiting := w', task := Some t'\<rparr> = sender t' w' r"
  by (simp_all add: sender_def)

lemma listener_simps [simp]:
  "rp_pid (listener t w r) = pid_at (Suc 0)" "resumes (listener t w r) = r" "\<not> dead (listener t w r)"
  "(listener t w r)\<lparr>resumes := r'\<rparr> = listener t w r'"
  "(listener t w r)\<lparr>lastWaiting := w', task := Some t'\<rparr> = listener t' w' r"
  by (simp_all add: listener_def)

section \<open>Requests\<close>

lemma address_both: "makeSendAddress (pid_at (Suc 0)) ''Listener'' ''r'' (both s (listener t w r) q) = Ret r_slot (both s (listener t w r) q)"
  using findProc_both(2) [of "listener t w r" s q]
  by (simp add: makeSendAddress_def) (simp add: listener_def r_slot_def)

lemma genuine_both: "addr_genuine r_slot (both s (listener t w r) q)"
  by (simp add: addr_genuine_def both_def r_slot_def Slot_init_def)

lemma canQueue_both: "canQueue r_slot (both s (listener t w r) q) = Ret None (both s (listener t w r) q)"
proof -
  have "findProc_const (pid_at (Suc 0)) (both s (listener t w r) q) = Ret (Some 1) (both s (listener t w r) q)"
    by (simp add: findProc_const_def both_def)
  moreover have "sa_pid r_slot = pid_at (Suc 0)" by (simp add: r_slot_def)
  moreover have "\<not> shouldThrottle MessageQueue_init" by (simp add: shouldThrottle_def mq_size_def MessageQueue_init_def kThrottle_def)
  ultimately show ?thesis by (simp add: canQueue_def)
qed

lemma do_call_sender:
  shows "do_call 0 (CMakeSendAddress (pid_at (Suc 0)) ''Listener'' ''r'') (both (sender t w r) (listener t' w' r') q) = Ret (AAddr r_slot) (both (sender t w r) (listener t' w' r') q)"
    and "do_call 0 (CSend r_slot m) (both (sender t w r) (listener t' w' r') q)
      = Ret (ABool (10 \<le> length q)) (both (sender t w r) (listener t' w' r') (q @ [message_item r_slot m]))"
    and "do_call 0 CWaitOnQueue (both (sender t w r) (listener t' w' r') q) = Ret (ABool (10 < length q)) (both (sender t w r) (listener t' w' r') q)"
    and "do_call 0 (CCanQueue r_slot) (both (sender t w r) (listener t' w' r') q) = Ret (APromise None) (both (sender t w r) (listener t' w' r') q)"
    and "do_call 0 (CQueueSend r_slot m) (both (sender t w r) (listener t' w' r') q) = Ret AUnit (both (sender t w r) (listener t' w' r') (q @ [message_item r_slot m]))"
  by (simp_all add: do_call_def address_both genuine_both canQueue_both send_def queueSend_def waitOnQueue_def Let_def less_Suc_eq_le)

lemma do_call_listener:
  "do_call (Suc 0) CPid (both s (listener t w r) q) = Ret (APid (pid_at (Suc 0))) (both s (listener t w r) q)"
  "do_call (Suc 0) (CMakeSendAddress (pid_at (Suc 0)) ''Listener'' ''r'') (both s (listener t w r) q) = Ret (AAddr r_slot) (both s (listener t w r) q)"
  using address_both [of s t w r q] by (simp_all add: do_call_def)

section \<open>What a burst sends\<close>

lemma await_maybe: "finish_await (AWaiting (WaitingMaybe b)) c = Ret AUnit c"
  by (simp add: finish_await_def)

lemma send_one:
  assumes "i < sends" and "length q < 10"
  shows "exec_code (Suc (Suc (Suc m))) Pressure_run 0 (Sender_send (pid_at (Suc 0)) i) [] (both (sender t w r) (listener t' w' r') q)
    = exec_code m Pressure_run 0 (Sender_send (pid_at (Suc 0)) (Suc i)) []
        (both (sender t w r) (listener t' w' r') (q @ [message_item r_slot payload]))"
  using assms by (simp add: Sender_send_def [of _ i] do_call_sender await_maybe)

lemma send_last:
  assumes "i < sends" and "length q = 10"
  shows "exec_code (Suc (Suc (Suc m))) Pressure_run 0 (Sender_send (pid_at (Suc 0)) i) [] (both (sender t w r) (listener t' w' r') q)
    = Ret (Some (Some (AWaiting (WaitingMaybe True)), [UserFrame (SenderSent (pid_at (Suc 0)) i)]))
        (both (sender t w r) (listener t' w' r') (q @ [message_item r_slot payload]))"
  using assms by (simp add: Sender_send_def do_call_sender)

lemma throttle_one:
  assumes "i < sends" and "length q \<le> 10"
  shows "exec_code (Suc (Suc (Suc (Suc (Suc (Suc m)))))) Pressure_run 0 (Sender_throttled (pid_at (Suc 0)) i) []
      (both (sender t w r) (listener t' w' r') q)
    = exec_code m Pressure_run 0 (Sender_throttled (pid_at (Suc 0)) (Suc i)) []
        (both (sender t w r) (listener t' w' r') (q @ [message_item r_slot payload]))"
  using assms
  by (simp add: Sender_throttled_def [of _ i] do_call_sender sendThrottled_def sendThrottled_loop_def)

lemma throttle_waits:
  assumes "i < sends" and "length q = 11"
  shows "exec_code (Suc (Suc (Suc (Suc m)))) Pressure_run 0 (Sender_throttled (pid_at (Suc 0)) i) []
      (both (sender t w r) (listener t' w' r') q)
    = Ret (Some (Some (AWaiting WaitingYield), [STYielded r_slot payload, UserFrame (SenderThrottled (pid_at (Suc 0)) i)]))
        (both (sender t w r) (listener t' w' r') q)"
  using assms by (simp add: Sender_throttled_def do_call_sender sendThrottled_def)

lemma throttle_resumed:
  "exec_code (Suc (Suc (Suc m))) Pressure_run 0 (frame_code Pressure_run (STYielded r_slot payload) v)
      [UserFrame (SenderThrottled (pid_at (Suc 0)) i)] (both (sender t w r) (listener t' w' r') q)
    = exec_code m Pressure_run 0 (Sender_throttled (pid_at (Suc 0)) (Suc i)) []
        (both (sender t w r) (listener t' w' r') (q @ [message_item r_slot payload]))"
  by (simp add: do_call_sender sendThrottled_loop_def)

text \<open>The first loop sends until eleven items are queued, and then waits.\<close>

lemma burst_send:
  assumes "length q + j = 10" and "i + j < sends"
  shows "exec_code (3 * j + 3 + m) Pressure_run 0 (Sender_send (pid_at (Suc 0)) i) [] (both (sender t w r) (listener t' w' r') q)
    = Ret (Some (Some (AWaiting (WaitingMaybe True)), [UserFrame (SenderSent (pid_at (Suc 0)) (i + j))]))
        (both (sender t w r) (listener t' w' r') (q @ sending (Suc j)))"
  using assms
proof (induction j arbitrary: q i)
  case 0
  have f: "3 * 0 + 3 + m = Suc (Suc (Suc m))" by simp
  show ?case unfolding f using 0 by (simp add: send_last)
next
  case (Suc j)
  have f: "3 * Suc j + 3 + m = Suc (Suc (Suc (3 * j + 3 + m)))" by simp
  have l: "i < sends" "length q < 10" using Suc.prems by simp_all
  show ?case
    unfolding f send_one [OF l] using Suc.prems Suc.IH [of "q @ [message_item r_slot payload]" "Suc i"] by simp
qed

text \<open>The second loop sends until eleven items are queued, and waits before the next send.\<close>

lemma burst_throttled:
  assumes "length q + j = 11" and "i + j < sends"
  shows "exec_code (6 * j + 4 + m) Pressure_run 0 (Sender_throttled (pid_at (Suc 0)) i) [] (both (sender t w r) (listener t' w' r') q)
    = Ret (Some (Some (AWaiting WaitingYield), [STYielded r_slot payload, UserFrame (SenderThrottled (pid_at (Suc 0)) (i + j))]))
        (both (sender t w r) (listener t' w' r') (q @ sending j))"
  using assms
proof (induction j arbitrary: q i)
  case 0
  have f: "6 * 0 + 4 + m = Suc (Suc (Suc (Suc m)))" by simp
  show ?case unfolding f using 0 by (simp add: throttle_waits)
next
  case (Suc j)
  have f: "6 * Suc j + 4 + m = Suc (Suc (Suc (Suc (Suc (Suc (6 * j + 4 + m))))))" by simp
  have l: "i < sends" "length q \<le> 10" using Suc.prems by simp_all
  show ?case
    unfolding f throttle_one [OF l] using Suc.prems Suc.IH [of "q @ [message_item r_slot payload]" "Suc i"] by simp
qed

text \<open>The last burst: the loop ends before the queue is full.\<close>

lemma burst_ends:
  assumes "length q + j \<le> 11" and "i + j = sends"
  shows "exec_code (6 * j + 1 + m) Pressure_run 0 (Sender_throttled (pid_at (Suc 0)) i) [] (both (sender t w r) (listener t' w' r') q)
    = Ret None (both (sender t w r) (listener t' w' r') (q @ sending j))"
  using assms
proof (induction j arbitrary: q i)
  case 0
  then show ?case by (simp add: Sender_throttled_def)
next
  case (Suc j)
  have f: "6 * Suc j + 1 + m = Suc (Suc (Suc (Suc (Suc (Suc (6 * j + 1 + m))))))" by simp
  have l: "i < sends" "length q \<le> 10" using Suc.prems by simp_all
  show ?case
    unfolding f throttle_one [OF l] using Suc.prems Suc.IH [of "q @ [message_item r_slot payload]" "Suc i"] by simp
qed

section \<open>Rounds\<close>

text \<open>The messages that are in flight: in the work queue or in a slot.\<close>

definition message_count :: "'m ToProcessItem list \<Rightarrow> nat" where
  "message_count q = length (filter (\<lambda>i. ti_message i \<noteq> None) q)"

definition in_flight :: "('st, 'm) Context \<Rightarrow> nat" where
  "in_flight c = message_count (queue c) + sum_list (map (\<lambda>(i, s). mq_size (messages s)) (slots c))"

definition bounded_flight :: "(PressureFrame, string) Context \<Rightarrow> bool" where
  "bounded_flight c \<longleftrightarrow> in_flight c \<le> 11"

lemma message_count_simps [simp]:
  "message_count [] = 0" "message_count (resume_item p k # q) = message_count q"
  "message_count (message_item t m # q) = Suc (message_count q)"
  "message_count (q @ q') = message_count q + message_count q'" "message_count (sending j) = j"
  by (simp_all add: message_count_def)

lemma message_count_tail: "message_count (i # q) \<le> n \<Longrightarrow> message_count q \<le> n"
  by (simp add: message_count_def split: if_splits)

lemma bounded_both [simp]: "bounded_flight (both s l q) \<longleftrightarrow> message_count q \<le> 11"
  by (simp add: bounded_flight_def in_flight_def both_def Slot_init_def mq_size_def MessageQueue_init_def)

text \<open>The sender runs and yields again.\<close>

lemma round_sender:
  assumes "woken (slots (both (sender t w r) l q)) (sender t w r) it f fs v" and "isReadyForResume wt"
    and "exec_code n Pressure_run 0 (frame_code Pressure_run f v) fs (both (sender t w (r + 1)) l q)
      = Ret (Some (Some (AWaiting wt), gs)) (both (sender t w (r + 1)) l q')"
    and "message_count (it # q) \<le> 11" and "message_count q' \<le> 11"
  shows "queue_run S Pressure_run bounded_flight (both (sender t w r) l (it # q))
    (both (sender (Some (AWaiting wt), gs) (Some wt) (r + 1)) l (q' @ [resume_item (pid_at 0) (r + 1)]))"
proof -
  have "processQueueItem n Pressure_run it (both (sender t w r) l q)
      = arm 0 (underlying (AWaiting wt)) (upd_proc 0 (\<lambda>rp. rp\<lparr>lastWaiting := Some (underlying (AWaiting wt)),
          task := Some (Some (AWaiting wt), gs)\<rparr>) (both (sender t w (r + 1)) l q'))"
    by (rule item_suspends [OF assms(1)]) (use assms(3) in \<open>simp_all add: findProc_both\<close>)
  also have "\<dots> = Ret () (both (sender (Some (AWaiting wt), gs) (Some wt) (r + 1)) l (q' @ [resume_item (pid_at 0) (r + 1)]))"
    using assms(2) by (simp add: arm_def queueResume_def)
  finally show ?thesis
    using queue_run_item [of "both (sender t w r) l (it # q)" it q n Pressure_run _ bounded_flight S] assms(4,5)
    by (simp add: destroy_all_nothing)
qed

text \<open>The listener runs and waits for the next message.\<close>

lemma round_listener:
  assumes "woken (slots (both (sender t' w' r') (listener t w r) q)) (listener t w r) it f [] v"
    and "frame_code Pressure_run f v = Listener_loop" and "message_count (it # q) \<le> 11"
  shows "queue_run S Pressure_run bounded_flight (both (sender t' w' r') (listener t w r) (it # q))
    (both (sender t' w' r') (listens (r + 1)) q)"
proof -
  let ?c = "both (sender t' w' r') (listener t w r) q"
  let ?c1 = "both (sender t' w' r') (listener t w (r + 1)) q"
  have "exec_code 10 Pressure_run (Suc 0) Listener_loop [] ?c1 = Ret (Some (Some (recv r_slot), [UserFrame ListenerLoop])) ?c1"
    by (simp add: exec_code_10 Listener_loop_def own_slot_def do_call_listener recv_not_ready)
  then have "processQueueItem 10 Pressure_run it ?c
      = arm (Suc 0) (underlying (recv r_slot)) (upd_proc (Suc 0) (\<lambda>rp. rp\<lparr>lastWaiting := Some (underlying (recv r_slot)),
          task := Some (Some (recv r_slot), [UserFrame ListenerLoop])\<rparr>) ?c1)"
    by (intro item_suspends [OF assms(1)]) (use assms(2) in \<open>simp_all add: findProc_both\<close>)
  also have "\<dots> = Ret () (both (sender t' w' r') (listens (r + 1)) q)"
    by (simp add: arm_recv) (simp add: recv_def listens_def)
  finally show ?thesis
    using queue_run_item [of "both (sender t' w' r') (listener t w r) (it # q)" it q 10 Pressure_run _ bounded_flight S] assms(3)
    by (simp add: destroy_all_nothing message_count_tail)
qed

lemma round_deliver:
  assumes "message_count q \<le> 10"
  shows "queue_run S Pressure_run bounded_flight (both (sender t w r') (listens r) (message_item r_slot payload # q))
    (both (sender t w r') (listens (r + 1)) q)"
proof -
  let ?l = "listens r"
  have "woken (slots (both (sender t w r') ?l q)) ?l (message_item r_slot payload) (UserFrame ListenerLoop) [] (AMsg payload)"
    by (rule woken.receives) (simp_all add: listens_def, simp_all add: listener_def r_slot_def)
  then show ?thesis
    using assms round_listener [where f = "UserFrame ListenerLoop" and v = "AMsg payload"] by (simp add: listens_def payload_def)
qed

text \<open>All messages at the head of the queue are delivered.\<close>

lemma deliver_all:
  assumes "message_count q + j \<le> 11"
  shows "\<exists>r'. queue_run S Pressure_run bounded_flight (both (sender t w r0) (listens r) (sending j @ q)) (both (sender t w r0) (listens r') q)"
  using assms
proof (induction j arbitrary: r)
  case 0
  then show ?case by (auto intro!: exI [of _ r] queue_run.qr_refl)
next
  case (Suc j)
  have "queue_run S Pressure_run bounded_flight (both (sender t w r0) (listens r) (sending (Suc j) @ q))
      (both (sender t w r0) (listens (r + 1)) (sending j @ q))"
    using Suc.prems round_deliver [of "sending j @ q"] by simp
  moreover obtain r' where "queue_run S Pressure_run bounded_flight (both (sender t w r0) (listens (r + 1)) (sending j @ q))
      (both (sender t w r0) (listens r') q)"
    using Suc.IH [of "r + 1"] Suc.prems by auto
  ultimately show ?case by (blast intro: queue_run_trans)
qed

section \<open>Cycles\<close>

text \<open>
  The sender yields at \<open>s r\<close> and nothing but its resume is queued: \<open>quiet_at s c\<close>. From such a state to the
  next, the sender sends eleven messages and the listener receives them.
\<close>

definition quiet_at :: "(uint64 \<Rightarrow> (PressureFrame, string) RunningProcess) \<Rightarrow> (PressureFrame, string) Context \<Rightarrow> bool" where
  "quiet_at s c \<longleftrightarrow> (\<exists>r r'. c = both (s r) (listens r') [resume_item (pid_at 0) r])"

lemma sent_sender: "sent i = sender (Some (AWaiting (WaitingMaybe True)), [UserFrame (SenderSent (pid_at (Suc 0)) i)]) (Some (WaitingMaybe True))"
  by (simp add: sent_def fun_eq_iff)

lemma throttled_sender: "throttled i = sender (Some (AWaiting WaitingYield), [STYielded r_slot payload, UserFrame (SenderThrottled (pid_at (Suc 0)) i)]) (Some WaitingYield)"
  by (simp add: throttled_def fun_eq_iff)

lemma woken_sent:
  "woken st (sent i r) (resume_item (pid_at 0) r) (UserFrame (SenderSent (pid_at (Suc 0)) i)) [] AUnit"
  "woken st (throttled i r) (resume_item (pid_at 0) r) (STYielded r_slot payload) [UserFrame (SenderThrottled (pid_at (Suc 0)) i)] AUnit"
  using woken.goes_on [of "sent i r" "WaitingMaybe True" "UserFrame (SenderSent (pid_at (Suc 0)) i)" "[]" True]
    woken.goes_on [of "throttled i r" WaitingYield "STYielded r_slot payload" "[UserFrame (SenderThrottled (pid_at (Suc 0)) i)]" True]
  by (simp_all add: sent_def throttled_def) (simp_all add: sender_def)

text \<open>A burst of eleven messages, delivered.\<close>

lemma cycle:
  assumes "woken (slots (both (sender t w r) (listens r') [])) (sender t w r) (resume_item (pid_at 0) r) f fs v" and "isReadyForResume wt"
    and "exec_code n Pressure_run 0 (frame_code Pressure_run f v) fs (both (sender t w (r + 1)) (listens r') [])
      = Ret (Some (Some (AWaiting wt), gs)) (both (sender t w (r + 1)) (listens r') (sending k))" and "k \<le> 11"
  shows "\<exists>c. quiet_at (sender (Some (AWaiting wt), gs) (Some wt)) c
    \<and> queue_run S Pressure_run bounded_flight (both (sender t w r) (listens r') [resume_item (pid_at 0) r]) c"
proof -
  let ?s = "sender (Some (AWaiting wt), gs) (Some wt)"
  have "queue_run S Pressure_run bounded_flight (both (sender t w r) (listens r') [resume_item (pid_at 0) r])
      (both (?s (r + 1)) (listens r') (sending k @ [resume_item (pid_at 0) (r + 1)]))"
    using assms(1-3) by (rule round_sender) (use assms(4) in simp_all)
  moreover obtain r1 where "queue_run S Pressure_run bounded_flight (both (?s (r + 1)) (listens r') (sending k @ [resume_item (pid_at 0) (r + 1)]))
      (both (?s (r + 1)) (listens r1) [resume_item (pid_at 0) (r + 1)])"
    using deliver_all [of "[resume_item (pid_at 0) (r + 1)]" k S "(Some (AWaiting wt), gs)" "Some wt" "r + 1" r'] assms(4) by auto
  ultimately show ?thesis by (auto simp: quiet_at_def intro: queue_run_trans)
qed

lemma cycle_send:
  assumes "quiet_at (sent i) c" and "i + 11 < sends"
  shows "\<exists>c'. quiet_at (sent (i + 11)) c' \<and> queue_run S Pressure_run bounded_flight c c'"
proof -
  obtain r r' where c: "c = both (sent i r) (listens r') [resume_item (pid_at 0) r]" using assms(1) by (auto simp: quiet_at_def)
  have n: "i + 11 = Suc i + 10" by simp
  have "Suc i + 10 < sends" using assms(2) by simp
  then have "exec_code (3 * 10 + 3 + 0) Pressure_run 0 (frame_code Pressure_run (UserFrame (SenderSent (pid_at (Suc 0)) i)) AUnit) [] (both (sent i (r + 1)) (listens r') [])
      = Ret (Some (Some (AWaiting (WaitingMaybe True)), [UserFrame (SenderSent (pid_at (Suc 0)) (Suc i + 10))])) (both (sent i (r + 1)) (listens r') (sending (Suc 10)))"
    using burst_send [of "[]" 10 "Suc i" 0] unfolding sent_sender listens_def by (simp del: replicate.simps)
  then show ?thesis
    unfolding c n sent_sender by (rule cycle [OF woken_sent(1) [unfolded sent_sender], rotated]) simp_all
qed

lemma cycle_switch:
  assumes "quiet_at (sent i) c" and "Suc i = sends" and "11 < sends"
  shows "\<exists>c'. quiet_at (throttled 11) c' \<and> queue_run S Pressure_run bounded_flight c c'"
proof -
  obtain r r' where c: "c = both (sent i r) (listens r') [resume_item (pid_at 0) r]" using assms(1) by (auto simp: quiet_at_def)
  have "Sender_send (pid_at (Suc 0)) (Suc i) = Sender_throttled (pid_at (Suc 0)) 0" using assms(2) by (simp add: Sender_send_def)
  then have "exec_code (6 * 11 + 4 + 0) Pressure_run 0 (frame_code Pressure_run (UserFrame (SenderSent (pid_at (Suc 0)) i)) AUnit) [] (both (sent i (r + 1)) (listens r') [])
      = Ret (Some (Some (AWaiting WaitingYield), [STYielded r_slot payload, UserFrame (SenderThrottled (pid_at (Suc 0)) 11)])) (both (sent i (r + 1)) (listens r') (sending 11))"
    using burst_throttled [of "[]" 11 0 0] assms(3) unfolding sent_sender listens_def by simp
  then show ?thesis
    unfolding c throttled_sender sent_sender by (rule cycle [OF woken_sent(1) [unfolded sent_sender], rotated]) simp_all
qed

lemma cycle_throttled:
  assumes "quiet_at (throttled i) c" and "i + 11 < sends"
  shows "\<exists>c'. quiet_at (throttled (i + 11)) c' \<and> queue_run S Pressure_run bounded_flight c c'"
proof -
  obtain r r' where c: "c = both (throttled i r) (listens r') [resume_item (pid_at 0) r]" using assms(1) by (auto simp: quiet_at_def)
  have n: "i + 11 = Suc i + 10" by simp
  have "message_item r_slot payload # sending 10 = sending 11"
    using replicate_Suc [of 10 "message_item r_slot payload"] by simp
  then have "exec_code (Suc (Suc (Suc (6 * 10 + 4 + 0)))) Pressure_run 0 (frame_code Pressure_run (STYielded r_slot payload) AUnit)
        [UserFrame (SenderThrottled (pid_at (Suc 0)) i)] (both (throttled i (r + 1)) (listens r') [])
      = Ret (Some (Some (AWaiting WaitingYield), [STYielded r_slot payload, UserFrame (SenderThrottled (pid_at (Suc 0)) (Suc i + 10))]))
          (both (throttled i (r + 1)) (listens r') (sending (Suc 10)))"
    using burst_throttled [of "[message_item r_slot payload]" 10 "Suc i" 0] assms(2)
    unfolding throttled_sender listens_def throttle_resumed by simp
  then show ?thesis
    unfolding c n throttled_sender by (rule cycle [OF woken_sent(2) [unfolded throttled_sender], rotated]) simp_all
qed

text \<open>Whole loops of full bursts.\<close>

lemma cycles:
  assumes "quiet_at (s 0) c" and "\<And>b c. b < n \<Longrightarrow> quiet_at (s b) c \<Longrightarrow> \<exists>c'. quiet_at (s (Suc b)) c' \<and> queue_run S P Q c c'" and "Q c"
  shows "\<exists>c'. quiet_at (s n) c' \<and> queue_run S P Q c c'"
proof -
  have "\<exists>c'. quiet_at (s b) c' \<and> queue_run S P Q c c'" if "b \<le> n" for b
    using that
  proof (induction b)
    case 0
    show ?case using assms(1,3) by (auto intro: queue_run.qr_refl)
  next
    case (Suc b)
    then show ?case using assms(2) by (meson Suc_leD Suc_le_lessD queue_run_trans)
  qed
  then show ?thesis by simp
qed

section \<open>Start and end\<close>

text \<open>The sender alone, and the first burst: the resume of the listener takes one place of eleven.\<close>

definition pressure_start :: "(PressureFrame, string) Context" where
  "pressure_start = spawned_context (ProcessArgs_init (pid_at 0)) Sender_spec Context_init"

lemma first_spawn:
  "do_call 0 (CSpawnLink Listener_spec) (counted 0 (pressure_start\<lparr>queue := []\<rparr>))
    = Ret (APid (pid_at (Suc 0))) (both (sender (None, [UserFrame SenderStart]) None 1)
        (listener (None, [UserFrame ListenerStart]) None 0) [resume_item (pid_at (Suc 0)) 0])"
proof -
  let ?c = "counted 0 (pressure_start\<lparr>queue := []\<rparr>)"
  have c: "?c = Context_init\<lparr>heap := (\<lambda>_. None)(0 \<mapsto> spawned_object (ProcessArgs_init (pid_at 0)) Sender_spec 0\<lparr>resumes := 1\<rparr>),
      next_addr := 1, processes := [Some 0]\<rparr>"
    by (auto simp: pressure_start_def counted_def upd_proc_def spawned_context_def Context_init_def Sender_spec_def
        member_slots_def spawned_object_def fun_eq_iff)
  have "spawnWith (\<lambda>a. a\<lparr>pa_killOnDie := Some (pid_at 0)\<rparr>) Listener_spec ?c = Ret (pid_at (length (processes ?c)))
      (spawned_context ((ProcessArgs_init (pid_at (length (processes ?c))))\<lparr>pa_killOnDie := Some (pid_at 0)\<rparr>) Listener_spec ?c)"
    by (rule spawnWith_fresh) (simp_all add: c Context_init_def Listener_spec_def vector_max_size_def)
  moreover have "heap ?c 0 = Some (spawned_object (ProcessArgs_init (pid_at 0)) Sender_spec 0\<lparr>resumes := 1\<rparr>)" by (simp add: c)
  ultimately show ?thesis
    by (simp add: do_call_def spawnLink_def spawned_object_def ProcessArgs_init_def c)
      (auto simp: both_def sender_def listener_def spawned_context_def spawned_object_def addKillOnDie_at_def upd_proc_def
        Process_init_def Sender_spec_def Listener_spec_def member_ids_def member_slots_def Context_init_def addKillOnDie_def ProcessArgs_init_def fun_eq_iff)
qed

lemma exec_start:
  "exec_code (Suc m) Pressure_run 0 (frame_code Pressure_run (UserFrame SenderStart) v) [] (counted 0 (pressure_start\<lparr>queue := []\<rparr>))
    = exec_code m Pressure_run 0 (Sender_send (pid_at (Suc 0)) 0) [] (both (sender (None, [UserFrame SenderStart]) None 1)
        (listener (None, [UserFrame ListenerStart]) None 0) [resume_item (pid_at (Suc 0)) 0])"
  by (simp add: first_spawn)

lemma start_simps:
  "run_again pressure_start" "queue pressure_start = [resume_item (pid_at 0) 0]" "bounded_flight pressure_start"
  "waits pressure_start = []" "slots pressure_start = []"
  "heap pressure_start 0 = Some (spawned_object (ProcessArgs_init (pid_at 0)) Sender_spec 0)"
  "findProc (pid_at 0) (pressure_start\<lparr>queue := []\<rparr>) = Some 0"
  by (simp_all add: pressure_start_def spawned_context_def spawned_object_def Context_init_def run_again_def Sender_spec_def
      member_slots_def bounded_flight_def in_flight_def ProcessArgs_init_def findProc_def)

lemma round_first:
  "queue_run S Pressure_run bounded_flight pressure_start
    (both (sent 9 1) (listener (None, [UserFrame ListenerStart]) None 0)
      (resume_item (pid_at (Suc 0)) 0 # sending 10 @ [resume_item (pid_at 0) 1]))"
proof -
  let ?s = "sender (None, [UserFrame SenderStart]) None 1"
  let ?l = "listener (None, [UserFrame ListenerStart]) None 0"
  let ?rp = "spawned_object (ProcessArgs_init (pid_at 0)) Sender_spec 0"
  let ?c = "pressure_start\<lparr>queue := []\<rparr>"
  let ?q = "resume_item (pid_at (Suc 0)) 0 # sending 10"
  let ?w = "AWaiting (WaitingMaybe True)"
  have e: "exec_code (Suc (3 * 9 + 3 + 0)) Pressure_run 0 (frame_code Pressure_run (UserFrame SenderStart) AUnit) [] (counted 0 ?c)
      = Ret (Some (Some ?w, [UserFrame (SenderSent (pid_at (Suc 0)) 9)])) (both ?s ?l ?q)"
    unfolding exec_start using burst_send [of "[resume_item (pid_at (Suc 0)) 0]" 9 0 0] by (simp add: sends_def del: replicate.simps)
  have rp: "rp_pid ?rp = pid_at 0" "resumes ?rp = 0" "\<not> dead ?rp" "task ?rp = Some (None, [UserFrame SenderStart])" "lastWaiting ?rp = None"
    by (simp_all add: spawned_object_def ProcessArgs_init_def Sender_spec_def)
  then have w: "woken (slots ?c) ?rp (resume_item (pid_at 0) 0) (UserFrame SenderStart) [] AUnit"
    using woken.starts [of ?rp "UserFrame SenderStart" "[]"] by simp
  have "processQueueItem (Suc (3 * 9 + 3 + 0)) Pressure_run (resume_item (pid_at 0) 0) ?c
      = arm 0 (underlying ?w) (upd_proc 0 (\<lambda>rp. rp\<lparr>lastWaiting := Some (underlying ?w),
          task := Some (Some ?w, [UserFrame (SenderSent (pid_at (Suc 0)) 9)])\<rparr>) (both ?s ?l ?q))"
    by (rule item_suspends [OF w _ _ _ _ _ e]) (use rp in \<open>simp_all add: start_simps slots_empty_def\<close>)
  also have "\<dots> = Ret () (both (sent 9 1) ?l (?q @ [resume_item (pid_at 0) 1]))"
    by (simp add: arm_def queueResume_def sent_def)
  finally show ?thesis
    using queue_run_item [of pressure_start "resume_item (pid_at 0) 0" "[]" "Suc (3 * 9 + 3 + 0)" Pressure_run _ bounded_flight S]
    by (simp add: start_simps destroy_all_nothing)
qed

lemma run_first: "\<exists>c. quiet_at (sent 9) c \<and> queue_run S Pressure_run bounded_flight pressure_start c"
proof -
  let ?l = "listener (None, [UserFrame ListenerStart]) None 0"
  let ?q = "sending 10 @ [resume_item (pid_at 0) 1]"
  have "woken (slots (both (sent 9 1) ?l ?q)) ?l (resume_item (pid_at (Suc 0)) 0) (UserFrame ListenerStart) [] AUnit"
    using woken.starts [of ?l "UserFrame ListenerStart" "[]"] by (simp, simp add: listener_def)
  then have "queue_run S Pressure_run bounded_flight (both (sent 9 1) ?l (resume_item (pid_at (Suc 0)) 0 # ?q)) (both (sent 9 1) (listens (0 + 1)) ?q)"
    unfolding sent_sender by (rule round_listener) simp_all
  moreover obtain r' where "queue_run S Pressure_run bounded_flight (both (sent 9 1) (listens (0 + 1)) ?q) (both (sent 9 1) (listens r') [resume_item (pid_at 0) 1])"
    using deliver_all [of "[resume_item (pid_at 0) 1]" 10] unfolding sent_sender by fastforce
  ultimately show ?thesis
    using round_first by (meson queue_run_trans quiet_at_def)
qed

text \<open>The end: the sender returns with ten messages still queued, and its death takes the listener along.\<close>

definition pressure_end :: "(PressureFrame, string) Context" where
  "pressure_end = Context_init\<lparr>next_addr := 2, next_slot := 1, processes := [None, None], tombstones := [pid_at 0, pid_at (Suc 0)],
     queue := sending 10\<rparr>"

lemma both_die:
  "destroy_all (addtoDestroy (pid_at 0) '''' (both ((sender t w r)\<lparr>lastWaiting := None, task := None\<rparr>) (listener t' w' r') (sending 10)))
    = pressure_end"
proof -
  have a: "addtoDestroy (pid_at 0) '''' (both ((sender t w r)\<lparr>lastWaiting := None, task := None\<rparr>) (listener t' w' r') (sending 10))
      = (both ((sender t w r)\<lparr>lastWaiting := None, task := None, dead := True\<rparr>) (listener t' w' r') (sending 10))
          \<lparr>processes := [None, Some 1], toDestroy := [(0, '''')], tombstones := [pid_at 0]\<rparr>"
    by (auto simp: addtoDestroy_def findProc_def both_def upd_proc_def sender_def fun_eq_iff)
  show ?thesis
    unfolding a
    by (subst destroy_all.simps, simp add: destroy_front_def, subst destroy_all.simps, simp add: destroy_front_def, subst destroy_all.simps)
      (simp add: destroy_def both_def sender_def listener_def addtoDestroy_def findProc_def upd_proc_def delete_process_def
        owned_slots_def Slot_init_def mq_destroy_def MessageQueue_init_def EslangPromise_init_def setIfUnset_def set_promise_def
        pressure_end_def Context_init_def Let_def)
qed

lemma run_last:
  assumes "quiet_at (throttled 990) c"
  shows "queue_run S Pressure_run bounded_flight c pressure_end"
proof -
  obtain r r' where c: "c = both (throttled 990 r) (listens r') [resume_item (pid_at 0) r]" using assms by (auto simp: quiet_at_def)
  let ?c = "both (throttled 990 r) (listens r') []"
  have "exec_code (6 * 9 + 1 + 0) Pressure_run 0 (Sender_throttled (pid_at (Suc 0)) (Suc 990)) [] (both (throttled 990 (r + 1)) (listens r') (sending 1))
      = Ret None (both (throttled 990 (r + 1)) (listens r') (sending 1 @ sending 9))"
    unfolding throttled_sender listens_def by (rule burst_ends) (simp_all add: sends_def)
  then have e: "exec_code (Suc (Suc (Suc (6 * 9 + 1 + 0)))) Pressure_run 0 (frame_code Pressure_run (STYielded r_slot payload) AUnit)
        [UserFrame (SenderThrottled (pid_at (Suc 0)) 990)] (both (throttled 990 (r + 1)) (listens r') []) = Ret None (both (throttled 990 (r + 1)) (listens r') (sending 10))"
    unfolding replicate_add [symmetric] throttled_sender listens_def throttle_resumed by simp
  have "counted 0 ?c = both (throttled 990 (r + 1)) (listens r') []" by (simp add: throttled_sender)
  note e = e [folded this]
  have "processQueueItem (Suc (Suc (Suc (6 * 9 + 1 + 0)))) Pressure_run (resume_item (pid_at 0) r) ?c
      = Ret () (addtoDestroy (rp_pid (throttled 990 r)) '''' (upd_proc 0 (\<lambda>rp. rp\<lparr>lastWaiting := None, task := None\<rparr>)
          (both (throttled 990 (r + 1)) (listens r') (sending 10))))"
    by (rule item_ends [OF woken_sent(2) _ _ _ _ _ e]) (simp_all add: throttled_sender findProc_both)
  also have "\<dots> = Ret () (addtoDestroy (pid_at 0) '''' (both ((throttled 990 (r + 1))\<lparr>lastWaiting := None, task := None\<rparr>) (listens r') (sending 10)))"
    by (simp add: throttled_sender)
  finally have p: "processQueueItem (Suc (Suc (Suc (6 * 9 + 1 + 0)))) Pressure_run (resume_item (pid_at 0) r) ?c
      = Ret () (addtoDestroy (pid_at 0) '''' (both ((throttled 990 (r + 1))\<lparr>lastWaiting := None, task := None\<rparr>) (listens r') (sending 10)))" .
  have "bounded_flight pressure_end" by (simp add: bounded_flight_def in_flight_def pressure_end_def Context_init_def)
  then show ?thesis
    using queue_run_item [of c "resume_item (pid_at 0) r" "[]" _ Pressure_run _ bounded_flight S, OF _ _ _ _ _] p both_die
    unfolding c throttled_sender listens_def by fastforce
qed

lemma run_pressure: "queue_run S Pressure_run bounded_flight pressure_start pressure_end"
proof -
  obtain c1 where c1: "quiet_at (sent (9 + 11 * 0)) c1" "queue_run S Pressure_run bounded_flight pressure_start c1"
    using run_first by auto
  have "bounded_flight c1" using c1(1) by (auto simp: quiet_at_def)
  have "\<exists>c'. quiet_at (sent (9 + 11 * Suc b)) c' \<and> queue_run S Pressure_run bounded_flight c c'"
    if "b < 90" and "quiet_at (sent (9 + 11 * b)) c" for b c
    using cycle_send [OF that(2)] that(1) by (simp add: sends_def algebra_simps)
  from cycles [where s = "\<lambda>b. sent (9 + 11 * b)", OF c1(1) this \<open>bounded_flight c1\<close>]
  obtain c2 where c2: "quiet_at (sent (9 + 11 * 90)) c2" "queue_run S Pressure_run bounded_flight c1 c2" by blast
  obtain c3 where c3: "quiet_at (throttled (11 + 11 * 0)) c3" "queue_run S Pressure_run bounded_flight c2 c3"
    using cycle_switch [OF c2(1)] by (auto simp: sends_def)
  have "bounded_flight c3" using c3(1) by (auto simp: quiet_at_def)
  have "\<exists>c'. quiet_at (throttled (11 + 11 * Suc b)) c' \<and> queue_run S Pressure_run bounded_flight c c'"
    if "b < 89" and "quiet_at (throttled (11 + 11 * b)) c" for b c
    using cycle_throttled [OF that(2)] that(1) by (simp add: sends_def algebra_simps)
  from cycles [where s = "\<lambda>b. throttled (11 + 11 * b)", OF c3(1) this \<open>bounded_flight c3\<close>]
  obtain c4 where c4: "quiet_at (throttled (11 + 11 * 89)) c4" "queue_run S Pressure_run bounded_flight c3 c4" by blast
  then have "queue_run S Pressure_run bounded_flight c4 pressure_end" using run_last by simp
  then show ?thesis using c1(2) c2(2) c3(2) c4(2) by (blast intro: queue_run_trans)
qed

text \<open>\<open>main\<close>, up to the call of \<open>run\<close>.\<close>

definition pressure_main :: "(Pid, (PressureFrame, string) Context) res" where
  "pressure_main = spawn Sender_spec Context_init"

text \<open>C17: Awaiting \<open>send\<close> and \<open>sendThrottled\<close> bounds the memory of the example: on every run, at every
  moment between two rounds, at most eleven of its messages are in flight, in the work queue and in
  the slot together, however many are sent. The run ends, and it ends with ten messages that never
  reached the listener: the sender is linked to it, and takes it along when it returns.\<close>

theorem back_pressure_bounds_flight:
  "\<exists>c1 c2. pressure_main = Ret (pid_at 0) c1 \<and> must_reach any_spec Pressure_run (\<lambda>c. in_flight c \<le> 11) c1 c2
    \<and> heap c2 = (\<lambda>_. None) \<and> in_flight c2 = 10"
proof (intro exI conjI)
  show "pressure_main = Ret (pid_at 0) pressure_start"
    using spawn_fresh [of Context_init Sender_spec]
    by (simp add: pressure_main_def pressure_start_def) (simp add: Context_init_def Sender_spec_def vector_max_size_def)
  have "bounded_flight = (\<lambda>c. in_flight c \<le> 11)" by (simp add: bounded_flight_def fun_eq_iff)
  moreover have "must_reach any_spec Pressure_run bounded_flight pressure_start pressure_end"
    using run_pressure by (rule queue_run_must) (simp add: run_again_def pressure_end_def)
  ultimately show "must_reach any_spec Pressure_run (\<lambda>c. in_flight c \<le> 11) pressure_start pressure_end" by simp
  show "heap pressure_end = (\<lambda>_. None)" "in_flight pressure_end = 10"
    by (simp_all add: pressure_end_def Context_init_def in_flight_def)
qed

end
