(* ===== verification/Example_Echo.thy ===== *)
theory Example_Echo
  imports Tcp_Ok Programs
begin

text \<open>
  \<open>examples/tcp.cpp\<close>: an echo server. The server process spawns a runner for every connection, and the runner
  sends every piece of data back to the socket process it came from.
\<close>

section \<open>TcpEchoRunner\<close>

text \<open>
  The frames of both processes: the runner before its first resume, waiting for data, and in the throttled
  send; the server before its first resume and waiting for a connection. \<open>ListenerRun\<close> is the first frame of
  the listener process.
\<close>

datatype EchoFrame =
    RunnerStart Pid
  | RunnerLoop Pid
  | RunnerSent Pid
  | EchoServerStart ListenerOptions
  | EchoServerLoop
  | ListenerRun

definition TcpEchoRunner_spec :: "Pid \<Rightarrow> (EchoFrame, 'm TcpMessage) SpawnSpec" where
  "TcpEchoRunner_spec s =
     \<lparr>sp_classes = [''TcpEchoRunner'', ''Process''], sp_members = [''recv''], sp_links = [s], sp_throws = None,
      sp_start = UserFrame (RunnerStart s)\<rparr>"

text \<open>The head of the loop of the runner: wait for data.\<close>

definition Runner_wait :: "Pid \<Rightarrow> (EchoFrame, 'm TcpMessage) code" where
  "Runner_wait s = own_slot ''TcpEchoRunner'' ''recv'' (\<lambda>a. CoAwait (recv a) (UserFrame (RunnerLoop s)))"

definition Runner_start :: "Pid \<Rightarrow> (EchoFrame, 'm TcpMessage) code" where
  "Runner_start s =
     own_slot ''TcpEchoRunner'' ''recv'' (\<lambda>a.
       CoCall (CMakeSendAddress s ''SocketProcess'' ''init'') (with_addr (\<lambda>t.
         CoCall (CSend t (MVal (InitMsg a))) (\<lambda>_. Runner_wait s))))"

definition Runner_echo :: "Pid \<Rightarrow> 'm TcpMessage \<Rightarrow> (EchoFrame, 'm TcpMessage) code" where
  "Runner_echo s r =
     (case r of
        ReceiveMsg d \<Rightarrow> Tcp_sendThrottled s (rd_data d) (UserFrame (RunnerSent s))
      | _ \<Rightarrow> CoThrow ''data expected'')"

section \<open>TcpEchoServer\<close>

definition TcpEchoServer_spec :: "nat \<Rightarrow> (EchoFrame, 'm TcpMessage) SpawnSpec" where
  "TcpEchoServer_spec p =
     \<lparr>sp_classes = [''TcpEchoServer'', ''Process''], sp_members = [''new_socket''], sp_links = [], sp_throws = None,
      sp_start = UserFrame (EchoServerStart \<lparr>lo_throttled = True, port = p, sslContextFactory = None\<rparr>)\<rparr>"

definition EchoServer_wait :: "(EchoFrame, 'm TcpMessage) code" where
  "EchoServer_wait = own_slot ''TcpEchoServer'' ''new_socket'' (\<lambda>a. CoAwait (recv a) (UserFrame EchoServerLoop))"

definition EchoServer_start :: "ListenerOptions \<Rightarrow> (EchoFrame, 'm TcpMessage) code" where
  "EchoServer_start opts = CoCall (CSpawnLink (listener_spec opts (UserFrame ListenerRun))) (\<lambda>_. EchoServer_wait)"

definition EchoServer_accept :: "'m TcpMessage \<Rightarrow> (EchoFrame, 'm TcpMessage) code" where
  "EchoServer_accept m =
     (case m of
        SocketMsg new_sock \<Rightarrow> CoCall (CSpawn (TcpEchoRunner_spec new_sock)) (\<lambda>_. EchoServer_wait)
      | _ \<Rightarrow> CoThrow ''socket expected'')"

text \<open>The program of both; what the listener does is an argument.\<close>

fun Echo_run :: "('m TcpMessage Answer \<Rightarrow> (EchoFrame, 'm TcpMessage) code) \<Rightarrow> (EchoFrame, 'm TcpMessage) program" where
  "Echo_run listen (RunnerStart s) v = Runner_start s"
| "Echo_run listen (RunnerLoop s) v = with_msg (Runner_echo s) v"
| "Echo_run listen (RunnerSent s) v = Runner_wait s"
| "Echo_run listen (EchoServerStart opts) v = EchoServer_start opts"
| "Echo_run listen EchoServerLoop v = with_msg EchoServer_accept v"
| "Echo_run listen ListenerRun v = listen v"

text \<open>\<open>main\<close>, up to the call of \<open>run\<close>.\<close>

definition echo_main :: "(Pid, (EchoFrame, 'm TcpMessage) Context) res" where
  "echo_main = spawn (TcpEchoServer_spec 25123) Context_init"

lemma echo_main_starts:
  "echo_main = Ret (pid_at 0) (spawned_context (ProcessArgs_init (pid_at 0)) (TcpEchoServer_spec 25123) Context_init)"
  using spawn_fresh [of Context_init "TcpEchoServer_spec 25123"]
  by (simp add: echo_main_def Context_init_def TcpEchoServer_spec_def vector_max_size_def)

section \<open>The echo\<close>

text \<open>
  A connection in a context: the runner \<open>p\<close> at \<open>i\<close> waits for data at its slot \<open>k\<close>, and the socket process \<open>s\<close> at \<open>j\<close>
  receives data to send at its slot \<open>d\<close>.
\<close>

record connection =
  cn_runner :: Pid
  cn_at :: addr
  cn_recv :: SlotId
  cn_socket :: Pid
  cn_socket_at :: addr
  cn_send :: SlotId

definition connected :: "connection \<Rightarrow> (EchoFrame, 'm TcpMessage) Context \<Rightarrow> bool" where
  "connected n c \<longleftrightarrow>
     findProc (cn_runner n) c = Some (cn_at n) \<and> findProc (cn_socket n) c = Some (cn_socket_at n) \<and> cn_at n \<noteq> cn_socket_at n
     \<and> (case heap c (cn_at n) of
          None \<Rightarrow> False
        | Some rp \<Rightarrow> rp_pid rp = cn_runner n \<and> ''TcpEchoRunner'' \<in> set (pr_classes (rp_process rp))
            \<and> map_of (pr_members (rp_process rp)) ''recv'' = Some (cn_recv n))
     \<and> (case heap c (cn_socket_at n) of
          None \<Rightarrow> False
        | Some rp \<Rightarrow> rp_pid rp = cn_socket n \<and> ''SocketProcess'' \<in> set (pr_classes (rp_process rp))
            \<and> map_of (pr_members (rp_process rp)) ''send_data'' = Some (cn_send n))
     \<and> map_option slot_parent (map_of (slots c) (cn_send n)) = Some (cn_socket_at n)
     \<and> slot_queue (slots c) (cn_recv n) \<noteq> None"

abbreviation recv_addr :: "connection \<Rightarrow> SendAddress" where
  "recv_addr n \<equiv> \<lparr>sa_pid = cn_runner n, sa_slot = cn_recv n\<rparr>"

abbreviation send_addr :: "connection \<Rightarrow> SendAddress" where
  "send_addr n \<equiv> \<lparr>sa_pid = cn_socket n, sa_slot = cn_send n\<rparr>"

definition runner_waits :: "connection \<Rightarrow> (EchoFrame, 'm TcpMessage) RunningProcess \<Rightarrow> bool" where
  "runner_waits n rp \<longleftrightarrow> \<not> dead rp \<and> rp_pid rp = cn_runner n \<and> lastWaiting rp = Some (WaitingMessages [recv_addr n])
     \<and> task rp = Some (Some (recv (recv_addr n)), [UserFrame (RunnerLoop (cn_socket n))])"

lemma connectedE:
  assumes "connected n c"
  obtains rp rs where "heap c (cn_at n) = Some rp" "rp_pid rp = cn_runner n" "heap c (cn_socket_at n) = Some rs" "rp_pid rs = cn_socket n"
    and "makeSendAddress (cn_runner n) ''TcpEchoRunner'' ''recv'' c = Ret (recv_addr n) c"
    and "makeSendAddress (cn_socket n) ''SocketProcess'' ''send_data'' c = Ret (send_addr n) c"
    and "addr_genuine (send_addr n) c"
  using assms that by (auto simp: connected_def makeSendAddress_def addr_genuine_def split: option.splits)

lemma connected_counted: "connected n c \<Longrightarrow> connected n (counted i c)"
  using findProc_same_table [OF same_table_upd_proc [OF same_proc_updates(1)], of _ i _ c]
  by (auto simp: connected_def counted_def upd_proc_def split: option.splits)

lemma upd_proc_same: "heap c a = Some rp \<Longrightarrow> f rp = rp \<Longrightarrow> upd_proc a f c = c"
  by (cases c) (simp add: upd_proc_def fun_upd_idem)

lemma findProc_const_found: "findProc p c = Some a \<Longrightarrow> findProc_const p c = Ret (Some a) c"
  by (auto simp: findProc_def findProc_const_def split: if_splits option.splits)

text \<open>The slots of the connection: the runner has no data left to take, and the socket takes more.\<close>

definition has_room :: "connection \<Rightarrow> (EchoFrame, 'm TcpMessage) Context \<Rightarrow> bool" where
  "has_room n c \<longleftrightarrow> slot_empty (slots c) (cn_recv n) \<and> (\<forall>q. slot_queue (slots c) (cn_send n) = Some q \<longrightarrow> \<not> shouldThrottle q)"

lemma canQueue_room:
  assumes "connected n c" and "has_room n c"
  shows "canQueue (send_addr n) c = Ret None c"
proof -
  have f: "findProc (cn_socket n) c = Some (cn_socket_at n)" using assms(1) by (simp add: connected_def)
  have "map_of (slots c) (cn_send n) \<noteq> None" using assms(1) by (auto simp: connected_def)
  then obtain q where "slot_queue (slots c) (cn_send n) = Some q" by (auto simp: slot_queue_def)
  then show ?thesis using assms(2) findProc_const_found [OF f] by (simp add: canQueue_def has_room_def)
qed

lemma connected_queueSend: "connected n (queueSend t m c) \<longleftrightarrow> connected n c"
  using findProc_same_table [OF same_table_basic(1), of _ t m c] by (simp add: connected_def queueSend_def)

lemma exec_wait:
  assumes "connected n c" and "has_room n c"
  shows "exec_code (Suc (Suc (Suc m))) P (cn_at n) (Runner_wait s) [] c = Ret (Some (Some (recv (recv_addr n)), [UserFrame (RunnerLoop s)])) c"
proof -
  have r: "await_ready (slots c) (promise_at c) (underlying (recv (recv_addr n))) = Some False"
    using assms by (intro recv_not_ready_slot) (simp_all add: connected_def has_room_def)
  from assms(1) show ?thesis
    by (rule connectedE) (use r in \<open>simp add: Runner_wait_def own_slot_def do_call_def\<close>)
qed

lemma exec_echo:
  assumes "connected n c" and "has_room n c" and "length (queue c) \<le> 10"
  shows "exec_code 10 (Echo_run listen) (cn_at n) (Runner_echo (cn_socket n) (ReceiveMsg d)) [] c
    = Ret (Some (Some (recv (recv_addr n)), [UserFrame (RunnerLoop (cn_socket n))]))
        (queueSend (send_addr n) (MVal (DataMsg (rd_data d))) c)"
proof -
  have "canQueue (send_addr n) c = Ret None c"
    using assms(1,2) by (rule canQueue_room)
  moreover have "\<not> waitOnQueue c" using assms(3) by (simp add: waitOnQueue_def)
  moreover have "connected n (queueSend (send_addr n) (MVal (DataMsg (rd_data d))) c)"
    and "has_room n (queueSend (send_addr n) (MVal (DataMsg (rd_data d))) c)"
    using assms(1,2) by (simp_all add: connected_queueSend) (simp add: queueSend_def has_room_def)
  note w = exec_wait [OF this]
  ultimately show ?thesis
    using assms(1) w
    by (elim connectedE) (simp add: exec_code_10 Runner_echo_def Tcp_sendThrottled_def throttled_to_socket_def do_call_def
        sendThrottled_def sendThrottled_loop_def)
qed

text \<open>C30: A piece of data that reaches the runner of a connection is sent back, if the context and the socket take
  it: delivering it to a runner that waits for data, has none left in its slot and has no timer, while the queue
  of the socket process is below its limit and at most ten items are in the work queue, puts the same data at the
  end of the work queue, for the slot \<open>send_data\<close> of the socket process; the runner waits for the next
  piece, and nothing else changes but its resume counter. Nothing is asked of other processes and their slots.
  With more items in the work queue the runner yields first, and above its limit it waits for the socket.
\<close>

theorem echo_sends_back:
  assumes "connected n c" and "heap c (cn_at n) = Some rp" and "runner_waits n rp" and "has_room n c" and "no_wait (cn_at n) c"
    and "length (queue c) \<le> 10"
  shows "processQueueItem 10 (Echo_run listen) (message_item (recv_addr n) (MVal (ReceiveMsg d))) c
    = Ret () (queueSend (send_addr n) (MVal (DataMsg (rd_data d))) (counted (cn_at n) c))"
proof -
  let ?c = "queueSend (send_addr n) (MVal (DataMsg (rd_data d))) (counted (cn_at n) c)"
  let ?w = "recv (recv_addr n)"
  have s: "slots (counted (cn_at n) c) = slots c" "queue (counted (cn_at n) c) = queue c" by (simp_all add: counted_def upd_proc_def)
  have w: "woken (slots c) rp (message_item (recv_addr n) (MVal (ReceiveMsg d))) (UserFrame (RunnerLoop (cn_socket n))) [] (AMsg (MVal (ReceiveMsg d)))"
    by (rule woken.receives) (use assms(1,3) in \<open>simp_all add: runner_waits_def connected_def\<close>)
  have "exec_code 10 (Echo_run listen) (cn_at n) (frame_code (Echo_run listen) (UserFrame (RunnerLoop (cn_socket n))) (AMsg (MVal (ReceiveMsg d)))) []
      (counted (cn_at n) c) = Ret (Some (Some ?w, [UserFrame (RunnerLoop (cn_socket n))])) ?c"
    using exec_echo [OF connected_counted [OF assms(1)], of "cn_at n" listen d] assms(4,6) by (simp add: s has_room_def)
  then have "processQueueItem 10 (Echo_run listen) (message_item (recv_addr n) (MVal (ReceiveMsg d))) c
      = arm (cn_at n) (underlying ?w) (upd_proc (cn_at n) (\<lambda>rp. rp\<lparr>lastWaiting := Some (underlying ?w),
          task := Some (Some ?w, [UserFrame (RunnerLoop (cn_socket n))])\<rparr>) ?c)"
  proof (intro item_suspends_slot [OF w])
    fix a m
    assume "message_item (recv_addr n) (MVal (ReceiveMsg d)) = message_item a m"
    then have "sa_slot a = cn_recv n" by (metis SendAddress.select_convs(2) ToProcessItem.select_convs(3) option.inject prod.inject)
    then show "slot_empty (slots c) (sa_slot a)" using assms(4) by (simp add: has_room_def)
  qed (use assms in \<open>simp_all add: connected_def runner_waits_def\<close>)
  also have "upd_proc (cn_at n) (\<lambda>rp. rp\<lparr>lastWaiting := Some (underlying ?w), task := Some (Some ?w, [UserFrame (RunnerLoop (cn_socket n))])\<rparr>) ?c = ?c"
    by (rule upd_proc_same [where rp = "rp\<lparr>resumes := resumes rp + 1\<rparr>"])
      (use assms(2,3) in \<open>simp add: counted_def queueSend_def upd_proc_def\<close>,
        use assms(3) in \<open>cases rp, simp add: runner_waits_def recv_def\<close>)
  finally show ?thesis using assms(2) by (simp add: arm_recv queueSend_def counted_def upd_proc_def)
qed


text \<open>The hypotheses can hold: a connection between the first two processes of a context.\<close>

definition tiny_connection :: connection where
  "tiny_connection = \<lparr>cn_runner = pid_at 0, cn_at = 0, cn_recv = 0, cn_socket = pid_at (Suc 0), cn_socket_at = 1, cn_send = 1\<rparr>"

definition tiny_runner :: "(EchoFrame, 'm TcpMessage) RunningProcess" where
  "tiny_runner =
     \<lparr>dead = False, rp_pid = pid_at 0,
      rp_process = \<lparr>pr_pid = pid_at 0, killOnDie = [pid_at (Suc 0)], notifyOnDie = [], pr_classes = [''TcpEchoRunner'', ''Process''],
        pr_members = [(''recv'', 0)]\<rparr>,
      task = Some (Some (recv (recv_addr tiny_connection)), [UserFrame (RunnerLoop (pid_at (Suc 0)))]),
      lastWaiting = Some (WaitingMessages [recv_addr tiny_connection]), resumes = 1\<rparr>"

definition tiny_connected :: "(EchoFrame, 'm TcpMessage) Context" where
  "tiny_connected = Context_init\<lparr>next_addr := 2, processes := [Some 0, Some 1], next_slot := 2,
     slots := [(0, Slot_init 0), (1, Slot_init 1)],
     heap := [0 \<mapsto> tiny_runner, 1 \<mapsto> tiny_runner\<lparr>rp_pid := pid_at (Suc 0),
       rp_process := \<lparr>pr_pid = pid_at (Suc 0), killOnDie = [pid_at 0], notifyOnDie = [], pr_classes = [''SocketProcess'', ''Process''],
         pr_members = [(''send_data'', 1)]\<rparr>\<rparr>]\<rparr>"

theorem echo_sends_back_witness:
  "\<forall>d. processQueueItem 10 (Echo_run (\<lambda>_. CoReturn AUnit)) (message_item (recv_addr tiny_connection) (MVal (ReceiveMsg d))) tiny_connected
    = Ret () (queueSend (send_addr tiny_connection) (MVal (DataMsg (rd_data d))) (counted 0 (tiny_connected :: (EchoFrame, unit TcpMessage) Context)))"
proof
  fix d
  have "connected tiny_connection (tiny_connected :: (EchoFrame, unit TcpMessage) Context)"
    by (simp add: connected_def tiny_connection_def tiny_connected_def tiny_runner_def findProc_def slot_queue_def Slot_init_def)
  moreover have "runner_waits tiny_connection (tiny_runner :: (EchoFrame, unit TcpMessage) RunningProcess)"
    by (simp add: runner_waits_def tiny_runner_def tiny_connection_def)
  moreover have "heap (tiny_connected :: (EchoFrame, unit TcpMessage) Context) (cn_at tiny_connection) = Some tiny_runner"
    "has_room tiny_connection (tiny_connected :: (EchoFrame, unit TcpMessage) Context)"
    "no_wait (cn_at tiny_connection) (tiny_connected :: (EchoFrame, unit TcpMessage) Context)"
    "length (queue (tiny_connected :: (EchoFrame, unit TcpMessage) Context)) \<le> 10"
    by (simp_all add: tiny_connected_def tiny_connection_def Context_init_def has_room_def no_wait_def slot_empty_def slot_queue_def
        Slot_init_def shouldThrottle_def mq_size_def MessageQueue_init_def kThrottle_def)
  ultimately show "processQueueItem 10 (Echo_run (\<lambda>_. CoReturn AUnit)) (message_item (recv_addr tiny_connection) (MVal (ReceiveMsg d))) tiny_connected
    = Ret () (queueSend (send_addr tiny_connection) (MVal (DataMsg (rd_data d))) (counted 0 (tiny_connected :: (EchoFrame, unit TcpMessage) Context)))"
    using echo_sends_back [of tiny_connection tiny_connected tiny_runner "\<lambda>_. CoReturn AUnit" d] by (simp add: tiny_connection_def)
qed

end
