(* ===== verification/Example_Www.thy ===== *)
theory Example_Www
  imports Www_Ok "HOL-Library.Sublist"
begin

text \<open>
  \<open>examples/www.cpp\<close>: the handler of the example server, as an \<open>IHandler\<close> for the sessions of theory \<open>Www\<close>.
  The operations on response messages are those of \<open>boost::beast\<close> and an argument. The handler sleeps for a
  random time before it answers and prints the time in the page: the text of the number drawn for a request
  is an argument, too.
\<close>

section \<open>ExampleWwwHandler\<close>

record 'q Response_ops =
  empty_response :: 'q
  set_content_type :: "string \<Rightarrow> 'q \<Rightarrow> 'q"
  set_result :: "nat \<Rightarrow> 'q \<Rightarrow> 'q"
  set_body :: "string \<Rightarrow> 'q \<Rightarrow> 'q"
  prepare_payload :: "'q \<Rightarrow> 'q"
  set_chunked :: "bool \<Rightarrow> 'q \<Rightarrow> 'q"

definition not_found_page :: "'q Response_ops \<Rightarrow> 'q \<Rightarrow> 'q" where
  "not_found_page M resp = prepare_payload M (set_body M ''404 not found'' (set_result M 404 resp))"

definition page_body :: "string \<Rightarrow> string \<Rightarrow> string" where
  "page_body tgt slept = concatString
     [PStr (''<html><head><title>ESLANG</title></head>'' @
            ''<body>Powered by <a href=\"https://github.com/dylanza/eslang\">Eslang</a><br>'' @
            ''Hello, world! from ''),
      PStr tgt, PStr '' slept '', PStr slept, PStr ''</body></html>'']"

definition Example_getResponse :: "('p, 'b, 'r, 'q, 'z) Beast \<Rightarrow> 'q Response_ops \<Rightarrow> ('r \<Rightarrow> string) \<Rightarrow> 'r \<Rightarrow> string + 'q" where
  "Example_getResponse B M slept req =
     (let resp = set_content_type M ''text/html'' (empty_response M) in
      if sublist ''favicon'' (target B req) then Inr (not_found_page M resp)
      else
        let r = set_body M (page_body (target B req) (slept req)) (set_result M 200 resp) in
        if sublist ''chunk'' (target B req) then Inr (set_chunked M True r)
        else Inr (prepare_payload M r))"

text \<open>The loop of \<open>getChunked\<close>: the buffers it yields, from round \<open>i\<close> on.\<close>

definition bytes_of :: "string \<Rightarrow> byte list" where
  "bytes_of s = map of_char s"

function hello_chunks :: "nat \<Rightarrow> byte list list" where
  "hello_chunks i =
     (if i < 10 then bytes_of (concatString [PStr ''hello '', PNat i, PStr ''\<newline>'']) # hello_chunks (i + 1) else [])"
  by pat_completeness auto
termination by (relation "measure (\<lambda>i. 10 - i)") auto

declare hello_chunks.simps [simp del]

definition ExampleWwwHandler :: "('p, 'b, 'r, 'q, 'z) Beast \<Rightarrow> 'q Response_ops \<Rightarrow> ('r \<Rightarrow> string) \<Rightarrow> ('r, 'q) IHandler" where
  "ExampleWwwHandler B M slept =
     \<lparr>getResponse = Example_getResponse B M slept, getChunked = (\<lambda>_. (hello_chunks 0, None))\<rparr>"

section \<open>The pages\<close>

lemma hello_chunks_nth: "hello_chunks i = map (\<lambda>j. bytes_of (''hello '' @ show_nat j @ ''\<newline>'')) [i..<10]"
proof (induction i rule: hello_chunks.induct)
  case (1 i)
  have c: "concatString [PStr ''hello '', PNat i, PStr ''\<newline>''] = ''hello '' @ show_nat i @ ''\<newline>''" by (simp add: concatString_def)
  show ?case
  proof (cases "i < 10")
    case True
    then show ?thesis using 1 c by (subst hello_chunks.simps) (simp add: upt_conv_Cons del: upt_Suc)
  qed (subst hello_chunks.simps, simp)
qed

text \<open>
  The documented behaviour of the message operations that decides how a response is sent: \<open>chunked(true)\<close> and
  \<open>prepare_payload()\<close> of a message with a string body decide whether it is chunked, and version, server name
  and \<open>keep_alive\<close> have no influence.
\<close>

definition message_laws :: "('p, 'b, 'r, 'q, 'z) Beast \<Rightarrow> 'q Response_ops \<Rightarrow> bool" where
  "message_laws B M \<longleftrightarrow> (\<forall>b q. chunked B (set_chunked M b q) = b) \<and> (\<forall>q. \<not> chunked B (prepare_payload M q))
     \<and> (\<forall>n q. chunked B (set_version B n q) = chunked B q) \<and> (\<forall>s q. chunked B (set_server B s q) = chunked B q)
     \<and> (\<forall>b q. chunked B (set_keep_alive B b q) = chunked B q)"

definition wants_chunks :: "string \<Rightarrow> bool" where
  "wants_chunks t \<longleftrightarrow> sublist ''chunk'' t \<and> \<not> sublist ''favicon'' t"

lemma example_chunked:
  assumes "message_laws B M" and "Example_getResponse B M slept req = Inr resp"
  shows "chunked B (final_response B req resp) = wants_chunks (target B req)"
  using assms by (auto simp: message_laws_def final_response_def Example_getResponse_def not_found_page_def wants_chunks_def Let_def
      split: if_splits)

text \<open>
  What a request to the example server is answered with, in one batch: when its target asks for chunks, the
  header of the response and ten chunks with the lines \<open>hello 0\<close> to \<open>hello 9\<close>, so that the page the handler has
  put into the body is not sent at all; otherwise the whole response, which is the page or, for an icon, the
  error page.
\<close>

theorem example_server_answers:
  assumes laws: "serializer_laws B sp rem hrem" and M: "message_laws B M"
    and r: "Example_getResponse B M slept req = Inr resp" and q: "q = final_response B req resp"
    and "hrem (split B (serializer B q)) \<noteq> []"
    and "length (rem (serializer B q)) < n" and "length (hrem (split B (serializer B q))) < n"
  shows "\<exists>sb s'. answer n B (ExampleWwwHandler B M slept) req s = Ret () s'
    \<and> batches s' = batches s @ (if sb = [] then [] else [sb])
    \<and> concat sb =
        (if wants_chunks (target B req)
         then hrem (split B (serializer B q))
              @ concat (concat (map (\<lambda>j. make_chunk B (bytes_of (''hello '' @ show_nat j @ ''\<newline>''))) [0..<10]))
              @ concat (make_chunk_last B)
         else rem (serializer B q))"
proof -
  have h: "getResponse (ExampleWwwHandler B M slept) req = Inr resp"
    "getChunked (ExampleWwwHandler B M slept) req = (map (\<lambda>j. bytes_of (''hello '' @ show_nat j @ ''\<newline>'')) [0..<10], None)"
    using r by (simp_all only: ExampleWwwHandler_def IHandler.simps hello_chunks_nth)
  have "chunked B q = wants_chunks (target B req)" using example_chunked [OF M r] q by simp
  then have "wire_bytes B rem hrem (ExampleWwwHandler B M slept) req q =
      (if wants_chunks (target B req)
       then hrem (split B (serializer B q))
            @ concat (concat (map (\<lambda>j. make_chunk B (bytes_of (''hello '' @ show_nat j @ ''\<newline>''))) [0..<10]))
            @ concat (make_chunk_last B)
       else rem (serializer B q))"
    by (simp only: wire_bytes_def h(2) fst_conv map_map comp_def if_not_P if_P split: if_split) simp
  moreover have "chunked B q \<Longrightarrow> hrem (split B (serializer B q)) \<noteq> [] \<and> snd (getChunked (ExampleWwwHandler B M slept) req) = None"
    using assms(5) h(2) by simp
  ultimately show ?thesis using answer_wire_bytes [OF laws h(1) q _ assms(6,7), of s] by metis
qed

text \<open>The hypotheses can hold: operations for the small instance of theory \<open>Www_Ok\<close>.\<close>

definition tiny_ops :: "byte list Response_ops" where
  "tiny_ops = \<lparr>empty_response = [1], set_content_type = (\<lambda>_ q. q), set_result = (\<lambda>_ q. q), set_body = (\<lambda>_ q. q @ [2]),
     prepare_payload = (\<lambda>q. 1 # tl q), set_chunked = (\<lambda>b q. (if b then 9 else 1) # tl q)\<rparr>"

lemma tiny_messages: "message_laws tiny_beast tiny_ops"
  by (simp add: message_laws_def tiny_beast_def tiny_ops_def)

theorem example_server_answers_witness:
  "\<exists>sb s'. answer 3 tiny_beast (ExampleWwwHandler tiny_beast tiny_ops (\<lambda>_. ''0.5'')) 7 tiny_session = Ret () s'
     \<and> batches s' = [sb] \<and> concat sb = [1, 2]"
proof -
  let ?h = "ExampleWwwHandler tiny_beast tiny_ops (\<lambda>_. ''0.5'')"
  have r: "Example_getResponse tiny_beast tiny_ops (\<lambda>_. ''0.5'') 7 = Inr [1, 2]"
    by (simp add: Example_getResponse_def tiny_beast_def tiny_ops_def Let_def sublist_Cons_right)
  have q: "[1, 2] = final_response tiny_beast 7 [1, 2]" by (simp add: final_response_def tiny_beast_def)
  have w: "\<not> wants_chunks (target tiny_beast 7)" by (simp add: wants_chunks_def tiny_beast_def sublist_Cons_right)
  have s: "tiny_hrem (split tiny_beast (serializer tiny_beast [1, 2])) \<noteq> []" "length (tiny_rem (serializer tiny_beast [1, 2])) < 3"
    "length (tiny_hrem (split tiny_beast (serializer tiny_beast [1, 2]))) < 3" "tiny_rem (serializer tiny_beast [1, 2]) = [1, 2]"
    by (simp_all add: tiny_beast_def tiny_rem_def tiny_hrem_def)
  from example_server_answers [OF tiny_serializer tiny_messages r q s(1-3), of tiny_session]
  obtain sb s' where "answer 3 tiny_beast ?h 7 tiny_session = Ret () s'" "batches s' = batches tiny_session @ (if sb = [] then [] else [sb])"
    "concat sb = [1, 2]" using w s(4) by auto
  then show ?thesis by (auto simp: SessionRunner_init_def split: if_splits)
qed

end
