(* ===== verification/Example_Www_Main.thy ===== *)
theory Example_Www_Main
  imports Example_Www Programs Runs
begin

text \<open>
  \<open>main\<close> of \<open>examples/www.cpp\<close> with the class \<open>Server\<close> of \<open>eslang_www/Www.h\<close>: the options of the command line,
  the servers that are spawned for them, and what the first round of \<open>run\<close> makes of a server.
\<close>

section \<open>The server as a process\<close>

text \<open>The frames of the program; the coroutines of the listener and of the sessions are arguments of the program.\<close>

datatype WwwFrame =
    ServerStart ListenerOptions
  | ServerLoop SendAddress
  | ListenerFrame
  | SessionFrame Pid

definition ListenerOptions_init :: "nat \<Rightarrow> ListenerOptions" where
  "ListenerOptions_init p = \<lparr>lo_throttled = True, port = p, sslContextFactory = None\<rparr>"

definition Server_spec :: "ListenerOptions \<Rightarrow> (WwwFrame, 'm) SpawnSpec" where
  "Server_spec opts =
     \<lparr>sp_classes = [''Server'', ''Process''], sp_members = [], sp_links = [], sp_throws = None,
      sp_start = UserFrame (ServerStart opts)\<rparr>"

fun Www_run :: "('m TcpMessage Answer \<Rightarrow> (WwwFrame, 'm TcpMessage) code) \<Rightarrow>
    (Pid \<Rightarrow> 'm TcpMessage Answer \<Rightarrow> (WwwFrame, 'm TcpMessage) code) \<Rightarrow> (WwwFrame, 'm TcpMessage) program" where
  "Www_run listen session (ServerStart opts) v = server_run opts (UserFrame ListenerFrame) ServerLoop"
| "Www_run listen session (ServerLoop a) v = server_loop (\<lambda>s. UserFrame (SessionFrame s)) ServerLoop a v"
| "Www_run listen session ListenerFrame v = listen v"
| "Www_run listen session (SessionFrame s) v = session s v"

section \<open>main\<close>

text \<open>
  A \<open>po::variables_map\<close> by the operations \<open>main\<close> uses: \<open>count\<close>, and \<open>as<std::string>\<close> and \<open>as<uint32_t>\<close> of the
  entry with a name, whose left result is an exception. \<open>parse\<close> is \<open>parse_command_line\<close> with \<open>store\<close> and
  \<open>notify\<close> for the options described by the program, and \<open>load\<close> what loading the certificate files gives.
\<close>

record variables_map =
  vm_count :: "string \<Rightarrow> nat"
  as_string :: "string \<Rightarrow> string + string"
  as_uint32 :: "string \<Rightarrow> string + nat"

definition plain_server :: "variables_map \<Rightarrow> (WwwFrame, 'm) Context \<Rightarrow> (unit, (WwwFrame, 'm) Context) res" where
  "plain_server vm c =
     (case as_uint32 vm ''plainPort'' of
        Inl e \<Rightarrow> Throw e c
      | Inr v \<Rightarrow> if v \<noteq> 0 then res_bind (spawn (Server_spec (ListenerOptions_init v)) c) (\<lambda>_ c. Ret () c) else Ret () c)"

text \<open>The order in which C++ evaluates the arguments of \<open>withSslFiles\<close> is open; each of them may throw.\<close>

definition ssl_server :: "(string \<Rightarrow> string \<Rightarrow> string \<Rightarrow> string + unit) \<Rightarrow> variables_map \<Rightarrow>
    (WwwFrame, 'm) Context \<Rightarrow> (unit, (WwwFrame, 'm) Context) res" where
  "ssl_server load vm c =
     (case as_uint32 vm ''sslPort'' of
        Inl e \<Rightarrow> Throw e c
      | Inr v \<Rightarrow> if v \<noteq> 0 then
          (case (as_string vm ''ca'', as_string vm ''cert'', as_string vm ''key'') of
             (Inr ca, Inr cert, Inr key) \<Rightarrow>
               res_bind (spawn (Server_spec (withSslFiles load ca cert key (ListenerOptions_init v))) c) (\<lambda>_ c. Ret () c)
           | (Inl e, _, _) \<Rightarrow> Throw e c
           | (_, Inl e, _) \<Rightarrow> Throw e c
           | (_, _, Inl e) \<Rightarrow> Throw e c)
        else Ret () c)"

text \<open>
  \<open>main\<close> up to the call of \<open>run\<close>: the left result is the exit code of a program that prints its options; the
  state of the right result is the one \<open>run\<close> starts in.
\<close>

definition www_main :: "(string list \<Rightarrow> string + variables_map) \<Rightarrow> (string \<Rightarrow> string \<Rightarrow> string \<Rightarrow> string + unit) \<Rightarrow> string list \<Rightarrow>
    (nat + unit, (WwwFrame, 'm) Context) res" where
  "www_main parse load argv =
     (case parse argv of
        Inl e \<Rightarrow> Throw e Context_init
      | Inr vm \<Rightarrow>
          if vm_count vm ''help'' \<noteq> 0 then Ret (Inl 1) Context_init
          else res_bind (plain_server vm Context_init) (\<lambda>_ c. res_bind (ssl_server load vm c) (\<lambda>_ c. Ret (Inr ()) c)))"

section \<open>The servers that are started\<close>

definition one_server :: "ListenerOptions \<Rightarrow> (WwwFrame, 'm) Context" where
  "one_server opts = spawned_context (ProcessArgs_init (pid_at 0)) (Server_spec opts) Context_init"

definition two_servers :: "ListenerOptions \<Rightarrow> ListenerOptions \<Rightarrow> (WwwFrame, 'm) Context" where
  "two_servers opts opts' = spawned_context (ProcessArgs_init (pid_at (Suc 0))) (Server_spec opts') (one_server opts)"

lemmas server_eval = one_server_def two_servers_def spawned_context_def spawned_object_def ProcessArgs_init_def Process_init_def
  Server_spec_def Context_init_def member_ids_def member_slots_def

lemma spawn_first: "spawn (Server_spec opts) Context_init = Ret (pid_at 0) (one_server opts)"
  using spawn_fresh [of Context_init "Server_spec opts"]
  by (simp add: one_server_def) (simp add: Context_init_def Server_spec_def vector_max_size_def)

lemma spawn_second: "spawn (Server_spec opts') (one_server opts) = Ret (pid_at (Suc 0)) (two_servers opts opts')"
  using spawn_fresh [of "one_server opts" "Server_spec opts'"]
  by (simp add: two_servers_def) (simp add: server_eval vector_max_size_def)

text \<open>The state in which \<open>run\<close> starts, by the two ports; port 0 turns a server off.\<close>

definition servers_for :: "nat \<Rightarrow> nat \<Rightarrow> (ListenerOptions \<Rightarrow> ListenerOptions) \<Rightarrow> (WwwFrame, 'm) Context" where
  "servers_for p q files =
     (if p = 0 then (if q = 0 then Context_init else one_server (files (ListenerOptions_init q)))
      else (if q = 0 then one_server (ListenerOptions_init p)
            else two_servers (ListenerOptions_init p) (files (ListenerOptions_init q))))"

lemma www_main_spawns:
  assumes "parse argv = Inr vm" and "vm_count vm ''help'' = 0" and "as_uint32 vm ''plainPort'' = Inr p"
    and "as_uint32 vm ''sslPort'' = Inr q"
    and "q \<noteq> 0 \<Longrightarrow> as_string vm ''ca'' = Inr ca \<and> as_string vm ''cert'' = Inr cert \<and> as_string vm ''key'' = Inr key"
  shows "www_main parse load argv = Ret (Inr ()) (servers_for p q (withSslFiles load ca cert key))"
  using assms by (simp add: www_main_def plain_server_def ssl_server_def servers_for_def spawn_first spawn_second)


section \<open>The first round of a server\<close>

abbreviation (input) first_server :: "ListenerOptions \<Rightarrow> (WwwFrame, 'm) RunningProcess" where
  "first_server opts \<equiv> spawned_object (ProcessArgs_init (pid_at 0)) (Server_spec opts) 0"

lemma server_woken:
  "woken (slots (one_server opts)) (first_server opts) (resume_item (pid_at 0) 0) (UserFrame (ServerStart opts)) [] AUnit"
  using woken.starts [of "first_server opts" "UserFrame (ServerStart opts)" "[]"]
  by (simp add: spawned_object_def ProcessArgs_init_def Server_spec_def)

lemma server_found: "findProc (rp_pid (first_server opts)) ((one_server opts)\<lparr>queue := []\<rparr>) = Some 0"
  by (simp add: findProc_def server_eval)

lemma server_queue [simp]: "run_again (one_server opts)" "queue (one_server opts) = [resume_item (pid_at 0) 0]"
  by (simp_all add: run_again_def server_eval)

text \<open>The slot \<open>new_socket\<close> in the frame of \<open>Server::run\<close>, and the state in which the server waits for connections.\<close>

abbreviation new_socket :: SendAddress where
  "new_socket \<equiv> slot_address (pid_at 0) 0"

definition slot_made :: "(WwwFrame, 'm) Context \<Rightarrow> (WwwFrame, 'm) Context" where
  "slot_made c = snd (new_slot 0 c)"

definition listening :: "ListenerOptions \<Rightarrow> (WwwFrame, 'm) Context" where
  "listening opts =
     upd_proc 0 (\<lambda>rp. rp\<lparr>lastWaiting := Some (WaitingMessages [new_socket]),
        task := Some (Some (recv new_socket), [UserFrame (ServerLoop new_socket)])\<rparr>)
      (addKillOnDie_at 0 (pid_at (Suc 0))
        (spawned_context (ProcessArgs_init (pid_at (Suc 0))\<lparr>pa_killOnDie := Some (pid_at 0)\<rparr>) (listener_spec opts (UserFrame ListenerFrame))
          (slot_made (counted 0 ((one_server opts)\<lparr>queue := []\<rparr>)))))"

lemmas listening_eval = listening_def addKillOnDie_at_def slot_made_def new_slot_def counted_def upd_proc_def server_eval listener_spec_def
  ListenerOptions_init_def addKillOnDie_def Process_init_def

definition loadable :: "ListenerOptions \<Rightarrow> bool" where
  "loadable opts \<longleftrightarrow> (case sslContextFactory opts of Some (Inl e) \<Rightarrow> False | _ \<Rightarrow> True)"

lemma server_calls:
  "exec_code (Suc (Suc n)) (Www_run listen session) 0 (server_run opts (UserFrame ListenerFrame) ServerLoop) [] (counted 0 ((one_server opts)\<lparr>queue := []\<rparr>))
   = exec_code n (Www_run listen session) 0
       (CoCall (CSpawnLink (listener_spec opts (UserFrame ListenerFrame)))
          (\<lambda>_. CoAwait (recv new_socket) (UserFrame (ServerLoop new_socket)))) []
       (slot_made (counted 0 ((one_server opts)\<lparr>queue := []\<rparr>)))"
  by (simp add: server_run_def do_call_def slot_made_def new_slot_def counted_def upd_proc_def server_eval Let_def Slot_init_def)


lemma underlying_recv: "underlying (recv a) = WaitingMessages [a]"
  by (simp add: recv_def)

lemma server_suspends:
  fixes listen :: "'m TcpMessage Answer \<Rightarrow> (WwwFrame, 'm TcpMessage) code"
  assumes "loadable opts"
  shows "processQueueItem 10 (Www_run listen session) (resume_item (pid_at 0) 0) ((one_server opts)\<lparr>queue := []\<rparr>) = Ret () (listening opts)"
proof -
  let ?c = "(one_server opts :: (WwwFrame, 'm TcpMessage) Context)\<lparr>queue := []\<rparr>"
  let ?s = "slot_made (counted 0 ?c)"
  let ?l = "listener_spec opts (UserFrame ListenerFrame) :: (WwwFrame, 'm TcpMessage) SpawnSpec"
  let ?c' = "addKillOnDie_at 0 (pid_at (Suc 0)) (spawned_context (ProcessArgs_init (pid_at (Suc 0))\<lparr>pa_killOnDie := Some (pid_at 0)\<rparr>) ?l ?s)"
  have t: "sp_throws ?l = None" using assms by (simp add: loadable_def listener_spec_def split: option.splits sum.splits)
  have s: "tombstones ?s = []" "length (processes ?s) = 1" "heap ?s 0 \<noteq> None"
    by (simp_all add: slot_made_def new_slot_def counted_def upd_proc_def server_eval)
  have "spawnWith (\<lambda>a. a\<lparr>pa_killOnDie := Some (pid_at 0)\<rparr>) ?l ?s =
      Ret (pid_at (Suc 0)) (spawned_context (ProcessArgs_init (pid_at (Suc 0))\<lparr>pa_killOnDie := Some (pid_at 0)\<rparr>) ?l ?s)"
    using spawnWith_fresh [of ?s ?l "\<lambda>a. a\<lparr>pa_killOnDie := Some (pid_at 0)\<rparr>"] s t
    by (simp add: listener_spec_def vector_max_size_def)
  moreover have "rp_pid (the (heap ?s 0)) = pid_at 0"
    by (simp add: slot_made_def new_slot_def counted_def upd_proc_def server_eval)
  ultimately have k: "do_call 0 (CSpawnLink ?l) ?s = Ret (APid (pid_at (Suc 0))) ?c'"
    using s(3) by (auto simp: do_call_def spawnLink_def)
  have m: "slots ?c' = [(0, Slot_init 0)]"
    by (simp add: addKillOnDie_at_def upd_proc_def spawned_context_def slot_made_def new_slot_def counted_def server_eval listener_spec_def)
  have "await_ready (slots ?c') (promise_at ?c') (underlying (recv new_socket)) = Some False"
    using recv_not_ready [of "slots ?c'" new_socket] by (simp add: m slots_empty_def Slot_init_def slot_queue_def slot_address_def)
  then have x: "exec_code 10 (Www_run listen session) 0 (frame_code (Www_run listen session) (UserFrame (ServerStart opts)) AUnit) [] (counted 0 ?c)
      = Ret (Some (Some (recv new_socket), [UserFrame (ServerLoop new_socket)])) ?c'"
    unfolding exec_code_10 by (simp add: server_calls k)
  have h: "heap ?c' 0 \<noteq> None"
    by (simp add: addKillOnDie_at_def upd_proc_def spawned_context_def slot_made_def new_slot_def counted_def server_eval listener_spec_def)
  have "processQueueItem 10 (Www_run listen session) (resume_item (pid_at 0) 0) ?c
      = arm 0 (underlying (recv new_socket)) (listening opts)"
    unfolding listening_def underlying_recv [symmetric]
    by (rule item_suspends [OF _ server_found _ _ _ _ x])
      (use server_woken [of opts] in \<open>simp_all add: server_eval slots_empty_def\<close>)
  moreover have "heap (listening opts :: (WwwFrame, 'm TcpMessage) Context) 0 \<noteq> None" using h by (auto simp: listening_def upd_proc_def)
  ultimately show ?thesis using arm_recv by simp
qed


text \<open>When the context of the SSL library cannot be made, the constructor of the listener throws.\<close>

definition after_failure :: "(WwwFrame, 'm) Context" where
  "after_failure = Context_init\<lparr>next_addr := 2, next_slot := 1, processes := [None, None], tombstones := [pid_at 0]\<rparr>"

lemma server_fails:
  fixes listen :: "'m TcpMessage Answer \<Rightarrow> (WwwFrame, 'm TcpMessage) code"
  assumes "sslContextFactory opts = Some (Inl e)"
  shows "\<exists>c. processQueueItem 10 (Www_run listen session) (resume_item (pid_at 0) 0) ((one_server opts)\<lparr>queue := []\<rparr>) = Ret () c
    \<and> destroy_all c = after_failure"
proof -
  let ?c = "(one_server opts :: (WwwFrame, 'm TcpMessage) Context)\<lparr>queue := []\<rparr>"
  let ?s = "slot_made (counted 0 ?c)"
  let ?l = "listener_spec opts (UserFrame ListenerFrame) :: (WwwFrame, 'm TcpMessage) SpawnSpec"
  let ?t = "?s\<lparr>processes := processes ?s @ [None], next_addr := 2\<rparr>"
  let ?d = "addtoDestroy (pid_at 0) (''Caught exception: '' @ e) ?t"
  let ?r = "(first_server opts)\<lparr>resumes := 1, dead := True\<rparr>"
  note eval = slot_made_def new_slot_def counted_def upd_proc_def server_eval Slot_init_def
  have "do_call 0 (CSpawnLink ?l) ?s = Throw e ?t"
    using assms by (simp add: do_call_def spawnLink_def spawnWith_def nextPid_def spawnArgs_def construct_def delete_process_def
        owned_slots_def listener_spec_def eval vector_max_size_def)
  then have x: "exec_code 10 (Www_run listen session) 0 (frame_code (Www_run listen session) (UserFrame (ServerStart opts)) AUnit) [] (counted 0 ?c)
      = Throw e ?t"
    unfolding exec_code_10 by (simp add: server_calls)
  have "processQueueItem 10 (Www_run listen session) (resume_item (pid_at 0) 0) ?c
      = Ret () (addtoDestroy (rp_pid (first_server opts :: (WwwFrame, 'm TcpMessage) RunningProcess)) (concatString [PStr ''Caught exception: '', PStr e]) ?t)"
    by (rule item_throws [OF _ server_found _ _ _ _ x])
      (use server_woken [of opts] in \<open>simp_all add: server_eval slots_empty_def\<close>)
  then have p: "processQueueItem 10 (Www_run listen session) (resume_item (pid_at 0) 0) ?c = Ret () ?d"
    by (simp add: concatString_def spawned_object_def ProcessArgs_init_def)
  have d: "toDestroy ?d = [(0, ''Caught exception: '' @ e)]" "heap ?d 0 = Some ?r"
    by (simp_all add: addtoDestroy_def findProc_def eval)
  have "destroy_all ?d = delete_process 0 (?d\<lparr>toDestroy := []\<rparr>)"
    by (rule destroy_all_lone [OF d]) (simp_all add: spawned_object_def ProcessArgs_init_def Process_init_def)
  also have "\<dots> = after_failure"
    by (simp add: addtoDestroy_def findProc_def delete_process_def after_failure_def owned_slots_def eval mq_destroy_def
        MessageQueue_init_def EslangPromise_init_def setIfUnset_def set_promise_def process_def)
  finally show ?thesis using p by blast
qed


lemma after_failure_again: "run_again after_failure"
  by (simp add: run_again_def after_failure_def)

lemma after_failure_io: "io_steps S P c c' \<Longrightarrow> c = after_failure \<Longrightarrow> c' = after_failure"
proof (induction rule: io_steps.induct)
  case (io_trans c a b)
  then have "io_step S P after_failure b" by simp
  then show ?case by (auto elim!: io_stepE simp: after_failure_def Context_init_def promise_at_def)
qed simp

lemma after_failure_stuck: "run_step S P after_failure c \<Longrightarrow> c = after_failure"
  by (auto elim!: run_stepE dest!: after_failure_io simp: destroy_all_nothing)
    (simp_all add: after_failure_def Context_init_def destroy_all_nothing)

section \<open>Starting the example\<close>

text \<open>
  The documented behaviour of a \<open>variables_map\<close>: \<open>as\<close> on the entry of an option that is neither given nor has
  a default throws.
\<close>

definition empty_throws :: "variables_map \<Rightarrow> bool" where
  "empty_throws vm \<longleftrightarrow> (\<forall>n. vm_count vm n = 0 \<longrightarrow> (\<exists>e. as_string vm n = Inl e))"

text \<open>
  The default of \<open>sslPort\<close> is not zero, and so the example cannot be started as a plain server only: unless
  the option is set to zero, a start without one of \<open>ca\<close>, \<open>cert\<close> and \<open>key\<close> ends in an exception before \<open>run\<close> is
  called, whatever the plain port is.
\<close>

theorem plain_start_needs_certificates:
  assumes "parse argv = Inr vm" and "vm_count vm ''help'' = 0" and "empty_throws vm"
    and "as_uint32 vm ''plainPort'' = Inr p" and "as_uint32 vm ''sslPort'' = Inr q" and "q \<noteq> 0"
    and "vm_count vm ''ca'' = 0 \<or> vm_count vm ''cert'' = 0 \<or> vm_count vm ''key'' = 0"
  shows "\<exists>e c. www_main parse load argv = Throw e (c :: (WwwFrame, 'm) Context)"
proof -
  obtain c :: "(WwwFrame, 'm) Context" where c: "plain_server vm Context_init = Ret () c"
    using assms(4) by (cases "p = 0") (simp_all add: plain_server_def spawn_first)
  have "\<exists>n \<in> {''ca'', ''cert'', ''key''}. \<exists>e. as_string vm n = Inl e" using assms(3,7) by (auto simp: empty_throws_def)
  then have "\<exists>e. ssl_server load vm c = Throw e c"
    using assms(5,6) by (auto simp: ssl_server_def split: sum.split)
  then show ?thesis using assms(1,2) c by (auto simp: www_main_def)
qed

text \<open>The variables of a command line without options, and with a plain port only.\<close>

definition no_options :: variables_map where
  "no_options = \<lparr>vm_count = (\<lambda>n. if n \<in> {''plainPort'', ''sslPort''} then 1 else 0), as_string = (\<lambda>n. Inl ''bad_any_cast''),
     as_uint32 = (\<lambda>n. if n = ''plainPort'' then Inr 12345 else if n = ''sslPort'' then Inr 12346 else Inl ''bad_any_cast'')\<rparr>"

theorem plain_start_needs_certificates_witness:
  "\<exists>e c. www_main (\<lambda>_. Inr no_options) (\<lambda>ca cert key. Inr ()) [''www''] = Throw e c"
  by (rule plain_start_needs_certificates [of _ _ no_options 12345 12346]) (simp_all add: no_options_def empty_throws_def)


text \<open>C31: With the plain server turned off and certificate files that cannot be loaded, the server process ends in
  the first round of \<open>run\<close>; from then on there is no process, no work item and no handler, and yet every state
  of every run satisfies the condition of the loop: the program goes round for ever.
\<close>

theorem bad_certificates_spin:
  fixes listen :: "'m TcpMessage Answer \<Rightarrow> (WwwFrame, 'm TcpMessage) code"
  assumes "parse argv = Inr vm" and "vm_count vm ''help'' = 0" and "as_uint32 vm ''plainPort'' = Inr 0"
    and "as_uint32 vm ''sslPort'' = Inr q" and "q \<noteq> 0"
    and "as_string vm ''ca'' = Inr ca" and "as_string vm ''cert'' = Inr cert" and "as_string vm ''key'' = Inr key"
    and "load ca cert key = Inl e"
  shows "\<exists>c1 c2. www_main parse load argv = Ret (Inr ()) c1 \<and> run_step S (Www_run listen session) c1 c2
    \<and> heap c2 = Map.empty \<and> queue c2 = [] \<and> posted c2 = []
    \<and> (\<forall>c. run_steps S (Www_run listen session) c1 c \<longrightarrow> run_again c \<and> (c = c1 \<or> c = c2))"
proof -
  let ?o = "withSslFiles load ca cert key (ListenerOptions_init q)"
  let ?P = "Www_run listen session"
  let ?c1 = "one_server ?o :: (WwwFrame, 'm TcpMessage) Context"
  have m: "www_main parse load argv = Ret (Inr ()) ?c1"
    using www_main_spawns [of parse argv vm 0 q ca cert key load] assms by (simp add: servers_for_def)
  have "sslContextFactory ?o = Some (Inl e)" using assms(9) by (simp add: withSslFiles_def)
  then obtain c where "processQueueItem 10 ?P (resume_item (pid_at 0) 0) (?c1\<lparr>queue := []\<rparr>) = Ret () c" "destroy_all c = after_failure"
    using server_fails by blast
  then have r: "run_step S ?P ?c1 after_failure" using run_step.item [of ?c1 "resume_item (pid_at 0) 0" "[]" 10 ?P c S] by simp
  have n: "b = after_failure" if "run_step S ?P ?c1 b" for b using run_step_fun [OF _ that r] by simp
  have "c = a \<or> c = after_failure" if "run_steps S ?P a c" "a = ?c1" for a c
    using that by (induction rule: run_steps.induct) (auto dest: n after_failure_stuck)
  then have "\<forall>c. run_steps S ?P ?c1 c \<longrightarrow> run_again c \<and> (c = ?c1 \<or> c = after_failure)"
    using after_failure_again server_queue(1) by blast
  then show ?thesis using m r by (intro exI [of _ ?c1] exI [of _ after_failure]) (simp add: after_failure_def Context_init_def)
qed


definition ssl_options :: variables_map where
  "ssl_options = \<lparr>vm_count = (\<lambda>n. if n = ''help'' then 0 else 1), as_string = (\<lambda>n. Inr (n @ ''.pem'')),
     as_uint32 = (\<lambda>n. if n = ''plainPort'' then Inr 0 else Inr 12346)\<rparr>"

theorem bad_certificates_spin_witness:
  "\<exists>c1 c2. www_main (\<lambda>_. Inr ssl_options) (\<lambda>ca cert key. Inl ''no such file'') [''www''] = Ret (Inr ()) c1
    \<and> run_step any_spec (Www_run (\<lambda>_. CoThrow '''' :: (WwwFrame, unit TcpMessage) code) (\<lambda>_ _. CoThrow '''')) c1 c2
    \<and> heap c2 = Map.empty \<and> queue c2 = [] \<and> posted c2 = []
    \<and> (\<forall>c. run_steps any_spec (Www_run (\<lambda>_. CoThrow '''' :: (WwwFrame, unit TcpMessage) code) (\<lambda>_ _. CoThrow '''')) c1 c
         \<longrightarrow> run_again c \<and> (c = c1 \<or> c = c2))"
  by (rule bad_certificates_spin [of _ _ ssl_options 12346 "''ca.pem''" "''cert.pem''" "''key.pem''" _ "''no such file''"])
    (simp_all add: ssl_options_def)

text \<open>
  The example with the plain server only, that is, with \<open>sslPort\<close> set to zero: the first round of \<open>run\<close> has one
  result, in which the server waits for connections on its slot and has a listener, not yet started, each of
  the two on the list of those the other takes with it.
\<close>

theorem server_starts_listener:
  fixes listen :: "'m TcpMessage Answer \<Rightarrow> (WwwFrame, 'm TcpMessage) code"
  assumes "parse argv = Inr vm" and "vm_count vm ''help'' = 0" and "as_uint32 vm ''plainPort'' = Inr p" and "p \<noteq> 0"
    and "as_uint32 vm ''sslPort'' = Inr 0"
  shows "\<exists>c1 c2 server listener. www_main parse load argv = Ret (Inr ()) c1
    \<and> run_step S (Www_run listen session) c1 c2 \<and> (\<forall>c. run_step S (Www_run listen session) c1 c \<longrightarrow> c = c2)
    \<and> heap c2 = [0 \<mapsto> server, 1 \<mapsto> listener] \<and> processes c2 = [Some 0, Some 1] \<and> queue c2 = [resume_item (rp_pid listener) 0]
    \<and> lastWaiting server = Some (WaitingMessages [slot_address (rp_pid server) 0]) \<and> slots c2 = [(0, Slot_init 0)]
    \<and> task listener = Some (None, [UserFrame ListenerFrame])
    \<and> killOnDie (rp_process server) = [rp_pid listener] \<and> killOnDie (rp_process listener) = [rp_pid server]"
proof -
  let ?o = "ListenerOptions_init p"
  let ?P = "Www_run listen session"
  let ?c1 = "one_server ?o :: (WwwFrame, 'm TcpMessage) Context"
  let ?c2 = "listening ?o :: (WwwFrame, 'm TcpMessage) Context"
  have m: "www_main parse load argv = Ret (Inr ()) ?c1"
    using www_main_spawns [of parse argv vm p 0 _ _ _ load] assms by (simp add: servers_for_def)
  have "loadable ?o" by (simp add: loadable_def ListenerOptions_init_def)
  moreover have "destroy_all ?c2 = ?c2" by (rule destroy_all_nothing) (simp add: listening_eval)
  ultimately have r: "run_step S ?P ?c1 ?c2"
    using run_step.item [of ?c1 "resume_item (pid_at 0) 0" "[]" 10 ?P ?c2 S] server_suspends [of ?o listen session] by simp
  have n: "c = ?c2" if "run_step S ?P ?c1 c" for c using run_step_fun [OF _ that r] by simp
  define server where "server = the (heap ?c2 0)"
  define listener where "listener = the (heap ?c2 1)"
  have c: "heap ?c2 = [0 \<mapsto> server, 1 \<mapsto> listener]" "processes ?c2 = [Some 0, Some 1]" "slots ?c2 = [(0, Slot_init 0)]"
      "queue ?c2 = [resume_item (pid_at (Suc 0)) 0]" by (auto simp: server_def listener_def listening_eval)
  have s: "rp_pid server = pid_at 0" "lastWaiting server = Some (WaitingMessages [new_socket])"
      "killOnDie (rp_process server) = [pid_at (Suc 0)]" by (simp_all add: server_def listening_eval)
  have l: "rp_pid listener = pid_at (Suc 0)" "task listener = Some (None, [UserFrame ListenerFrame])"
      "killOnDie (rp_process listener) = [pid_at 0]" by (simp_all add: listener_def listening_eval)
  show ?thesis
    by (intro exI [of _ ?c1] exI [of _ ?c2] exI [of _ server] exI [of _ listener] conjI allI impI m r n) (simp_all add: c s l)
qed

end
